(* ===== verification/Prelude.thy ===== *)
theory Prelude
  imports Main "HOL-Library.Multiset" "HOL-Library.Word"
begin

text \<open>
  What every component shares: the undefined behaviours of C++ as values, the error
  monad in which partial operations are written, array cells with a bounds check, and
  the generic list lemmas the component proofs use.

  A function of type \<open>'a res\<close> returns \<open>Inr\<close> of its result, or \<open>Inl\<close> of the
  undefined behaviour the source runs into (a NULL dereference, an access outside an
  array, a signed overflow, a read of an uninitialised variable, ...), or of an exception
  of the C++ library that the program never catches.
\<close>

named_theorems res_simps \<open>evaluation and inversion of the error monad\<close>

datatype ub =
    NullDeref        \<comment> \<open>dereference of a NULL pointer\<close>
  | OutOfBounds      \<comment> \<open>read or write outside an array or a buffer\<close>
  | Overflow         \<comment> \<open>signed integer overflow\<close>
  | Uninitialised    \<comment> \<open>use of a variable that was never assigned\<close>
  | Dangling         \<comment> \<open>access to memory that was released\<close>
  | DivByZero        \<comment> \<open>integer division or remainder by zero\<close>
  | MissingReturn    \<comment> \<open>running off the end of a function that has a result\<close>
  | Uncaught         \<comment> \<open>a C++ exception nobody catches (the program ends)\<close>

type_synonym 'a res = "ub + 'a"

definition bindE :: "'a res \<Rightarrow> ('a \<Rightarrow> 'b res) \<Rightarrow> 'b res" where
  "bindE m f = (case m of Inl e \<Rightarrow> Inl e | Inr x \<Rightarrow> f x)"

lemma bindE_Inl [simp, res_simps]: "bindE (Inl e) f = Inl e"
  by (simp add: bindE_def)

lemma bindE_Inr [simp, res_simps]: "bindE (Inr x) f = f x"
  by (simp add: bindE_def)

lemma bindE_eq_Inr [res_simps]:
  "bindE m f = Inr y \<longleftrightarrow> (\<exists>x. m = Inr x \<and> f x = Inr y)"
  by (cases m) auto

lemma bindE_eq_Inl:
  "bindE m f = Inl e \<longleftrightarrow> m = Inl e \<or> (\<exists>x. m = Inr x \<and> f x = Inl e)"
  by (cases m) auto

lemma bindE_assoc: "bindE (bindE m f) g = bindE m (\<lambda>x. bindE (f x) g)"
  by (cases m) auto

lemma bindE_cong [fundef_cong]:
  "m = m' \<Longrightarrow> (\<And>x. m' = Inr x \<Longrightarrow> f x = f' x) \<Longrightarrow> bindE m f = bindE m' f'"
  by (cases m') auto

subsection \<open>Partial operations that may not return\<close>

text \<open>\<open>None\<close> is not returning; otherwise the value is a result of the error monad.\<close>

definition bindO :: "'a res option \<Rightarrow> ('a \<Rightarrow> 'b res option) \<Rightarrow> 'b res option" where
  "bindO m f = Option.bind m (\<lambda>r. case r of Inl e \<Rightarrow> Some (Inl e) | Inr x \<Rightarrow> f x)"

lemma bindO_simps [simp, res_simps]:
  "bindO None f = None" "bindO (Some (Inl e)) f = Some (Inl e)" "bindO (Some (Inr x)) f = f x"
  by (simp_all add: bindO_def)

lemma bindO_mono [partial_function_mono]:
  assumes "monotone (fun_ord option_ord) option_ord B"
    and "\<And>y. monotone (fun_ord option_ord) option_ord (C y)"
  shows "monotone (fun_ord option_ord) option_ord (\<lambda>f. bindO (B f) (\<lambda>y. C y f))"
  unfolding bindO_def
proof (rule bind_mono [OF assms(1)])
  show "monotone (fun_ord option_ord) option_ord
      (\<lambda>f. case r of Inl e \<Rightarrow> Some (Inl e) | Inr x \<Rightarrow> C x f)" for r
    by (cases r) (simp_all add: assms(2) option.const_mono)
qed

subsection \<open>Machine integers\<close>

definition INT_MAX :: int where "INT_MAX = 2147483647"

definition INT_MIN :: int where "INT_MIN = - 2147483648"

definition is_i32 :: "int \<Rightarrow> bool" where
  "is_i32 x \<longleftrightarrow> INT_MIN \<le> x \<and> x \<le> INT_MAX"

text \<open>The result of a signed 32-bit computation, undefined when it does not fit.\<close>

definition ck :: "int \<Rightarrow> int res" where
  "ck x = (if is_i32 x then Inr x else Inl Overflow)"

lemma ck_i32 [simp]: "is_i32 x \<Longrightarrow> ck x = Inr x"
  by (simp add: ck_def)

text \<open>The same for an \<open>int\<close> that is known not to be negative.\<close>

definition ckn :: "nat \<Rightarrow> nat res" where
  "ckn n = (if n \<le> nat INT_MAX then Inr n else Inl Overflow)"

lemma ckn_small [simp]: "n \<le> nat INT_MAX \<Longrightarrow> ckn n = Inr n"
  by (simp add: ckn_def)

text \<open>C++ truncates division towards zero; the remainder has the dividend's sign.\<close>

definition cdiv :: "int \<Rightarrow> int \<Rightarrow> int" where
  "cdiv a b = sgn a * sgn b * (\<bar>a\<bar> div \<bar>b\<bar>)"

definition crem :: "int \<Rightarrow> int \<Rightarrow> int" where
  "crem a b = sgn a * (\<bar>a\<bar> mod \<bar>b\<bar>)"

lemma crem_nonneg: "0 \<le> a \<Longrightarrow> 0 < b \<Longrightarrow> crem a b = a mod b"
  by (cases "a = 0") (auto simp: crem_def sgn_if)

lemma crem_bounds: "0 \<le> a \<Longrightarrow> 0 < b \<Longrightarrow> 0 \<le> crem a b \<and> crem a b < b"
  by (simp add: crem_nonneg)

lemma cdiv_crem: "b \<noteq> 0 \<Longrightarrow> cdiv a b * b + crem a b = a"
proof -
  have "sgn a * (\<bar>a\<bar> div \<bar>b\<bar> * \<bar>b\<bar> + \<bar>a\<bar> mod \<bar>b\<bar>) = a"
    by (simp only: div_mult_mod_eq sgn_mult_abs)
  moreover have "sgn b * b = \<bar>b\<bar>"
    by (simp add: abs_sgn mult.commute)
  then have "cdiv a b * b = sgn a * (\<bar>a\<bar> div \<bar>b\<bar>) * \<bar>b\<bar>"
    by (simp add: cdiv_def mult.assoc mult.left_commute [of "sgn b"] mult.commute [of _ b])
  ultimately show ?thesis
    by (simp only: crem_def distrib_left)
qed

subsection \<open>Arrays\<close>

definition rd :: "'a list \<Rightarrow> nat \<Rightarrow> 'a res" where
  "rd xs i = (if i < length xs then Inr (xs ! i) else Inl OutOfBounds)"

definition wr :: "'a list \<Rightarrow> nat \<Rightarrow> 'a \<Rightarrow> 'a list res" where
  "wr xs i v = (if i < length xs then Inr (xs[i := v]) else Inl OutOfBounds)"

lemma rd_in [simp]: "i < length xs \<Longrightarrow> rd xs i = Inr (xs ! i)"
  by (simp add: rd_def)

lemma rd_out [simp]: "length xs \<le> i \<Longrightarrow> rd xs i = Inl OutOfBounds"
  by (simp add: rd_def)

lemma wr_in [simp]: "i < length xs \<Longrightarrow> wr xs i v = Inr (xs[i := v])"
  by (simp add: wr_def)

lemma wr_out [simp]: "length xs \<le> i \<Longrightarrow> wr xs i v = Inl OutOfBounds"
  by (simp add: wr_def)

lemma rd_eq_Inr [res_simps]: "rd xs i = Inr v \<longleftrightarrow> i < length xs \<and> v = xs ! i"
  by (auto simp: rd_def)

lemma wr_eq_Inr [res_simps]: "wr xs i v = Inr ys \<longleftrightarrow> i < length xs \<and> ys = xs[i := v]"
  by (auto simp: wr_def)

text \<open>The same with an \<open>int\<close> as the index.\<close>

definition rdi :: "'a list \<Rightarrow> int \<Rightarrow> 'a res" where
  "rdi xs i = (if i < 0 then Inl OutOfBounds else rd xs (nat i))"

definition wri :: "'a list \<Rightarrow> int \<Rightarrow> 'a \<Rightarrow> 'a list res" where
  "wri xs i v = (if i < 0 then Inl OutOfBounds else wr xs (nat i) v)"

lemma rdi_in [simp]: "0 \<le> i \<Longrightarrow> i < int (length xs) \<Longrightarrow> rdi xs i = Inr (xs ! nat i)"
  by (simp add: rdi_def)

lemma wri_in [simp]: "0 \<le> i \<Longrightarrow> i < int (length xs) \<Longrightarrow> wri xs i v = Inr (xs[nat i := v])"
  by (simp add: wri_def)

lemma rdi_neg [simp]: "i < 0 \<Longrightarrow> rdi xs i = Inl OutOfBounds"
  by (simp add: rdi_def)

definition swap_at :: "'a list \<Rightarrow> nat \<Rightarrow> nat \<Rightarrow> 'a list" where
  "swap_at xs i j = xs[i := xs ! j, j := xs ! i]"

lemma length_swap_at [simp]: "length (swap_at xs i j) = length xs"
  by (simp add: swap_at_def)

lemma nth_swap_at:
  "i < length xs \<Longrightarrow> j < length xs \<Longrightarrow>
   swap_at xs i j ! k = (if k = j then xs ! i else if k = i then xs ! j else xs ! k)"
  by (auto simp: swap_at_def nth_list_update)

lemma mset_swap_at [simp]:
  "i < length xs \<Longrightarrow> j < length xs \<Longrightarrow> mset (swap_at xs i j) = mset xs"
  unfolding swap_at_def by (rule mset_swap)

lemma take_swap_at:
  "i < n \<Longrightarrow> j < n \<Longrightarrow> n \<le> length xs \<Longrightarrow> take n (swap_at xs i j) = swap_at (take n xs) i j"
  by (simp add: swap_at_def take_update_swap)

lemma mset_take_swap_at [simp]:
  "i < n \<Longrightarrow> j < n \<Longrightarrow> n \<le> length xs \<Longrightarrow> mset (take n (swap_at xs i j)) = mset (take n xs)"
  by (simp add: take_swap_at)

subsection \<open>Printing\<close>

text \<open>A number as \<open>cout\<close> and \<open>printf(%d)\<close> print it; a line break.\<close>

function show_nat :: "nat \<Rightarrow> string" where
  "show_nat n = (if n < 10 then [char_of (48 + n)]
     else show_nat (n div 10) @ [char_of (48 + n mod 10)])"
  by pat_completeness auto
termination
  by (relation "measure id") auto

declare show_nat.simps [simp del]

definition show_int :: "int \<Rightarrow> string" where
  "show_int x = (if x < 0 then ''-'' @ show_nat (nat (- x)) else show_nat (nat x))"

definition endl :: string where "endl = [CHR 0x0A]"

definition tab :: string where "tab = [CHR 0x09]"

end
