(* ===== verification/CString.thy ===== *)
theory CString
  imports Prelude "HOL-Library.Char_ord" "HOL-Library.List_Lexorder" "HOL-Library.Sublist"
begin

text \<open>
  C strings and the functions of the C library on them that the program uses: fixed-size
  character buffers with \<open>memset\<close>, \<open>strncpy\<close> and the search for the terminating NUL,
  \<open>strstr\<close>, \<open>atoi\<close>, and \<open>fgets\<close> on the text of a file.
\<close>

abbreviation NUL :: char where "NUL \<equiv> CHR 0x00"

abbreviation newline :: char where "newline \<equiv> CHR 0x0A"

text \<open>The string in a buffer; without a NUL the reader runs off the end.\<close>

definition c_string :: "char list \<Rightarrow> string res" where
  "c_string buf = (if NUL \<in> set buf then Inr (takeWhile (\<lambda>c. c \<noteq> NUL) buf) else Inl OutOfBounds)"

text \<open>\<open>strncpy(dst, src, n)\<close>: exactly \<open>n\<close> characters are written, padded with NULs.\<close>

definition strncpy :: "char list \<Rightarrow> string \<Rightarrow> nat \<Rightarrow> char list res" where
  "strncpy dst src n =
     (if n \<le> length dst then Inr (take n (src @ replicate n NUL) @ drop n dst)
      else Inl OutOfBounds)"

text \<open>\<open>strcpy(dst, src)\<close>, with the terminating NUL.\<close>

definition strcpy :: "char list \<Rightarrow> string \<Rightarrow> char list res" where
  "strcpy dst src =
     (if length src < length dst then Inr (src @ NUL # drop (length src + 1) dst)
      else Inl OutOfBounds)"

text \<open>\<open>memset(buf, 0, n)\<close>.\<close>

definition memset0 :: "char list \<Rightarrow> nat \<Rightarrow> char list res" where
  "memset0 buf n =
     (if n \<le> length buf then Inr (replicate n NUL @ drop n buf) else Inl OutOfBounds)"

text \<open>\<open>strstr(s, pat)\<close>: the first position of the pattern.\<close>

fun strstr :: "string \<Rightarrow> string \<Rightarrow> nat option" where
  "strstr s pat =
     (if prefix pat s then Some 0
      else case s of [] \<Rightarrow> None | c # s' \<Rightarrow> map_option Suc (strstr s' pat))"

declare strstr.simps [simp del]

lemma strstr_char:
  "strstr s [c] = (if c \<in> set s then Some (length (takeWhile (\<lambda>d. d \<noteq> c) s)) else None)"
  by (induction s) (auto simp: strstr.simps)

subsection \<open>Numbers\<close>

definition isdigit :: "char \<Rightarrow> bool" where
  "isdigit c \<longleftrightarrow> 48 \<le> (of_char c :: nat) \<and> (of_char c :: nat) \<le> 57"

definition isspace :: "char \<Rightarrow> bool" where
  "isspace c \<longleftrightarrow> c = CHR 0x20 \<or> 9 \<le> (of_char c :: nat) \<and> (of_char c :: nat) \<le> 13"

definition digits_val :: "string \<Rightarrow> nat" where
  "digits_val ds = foldl (\<lambda>a c. 10 * a + (of_char c - 48)) 0 ds"

text \<open>
  The value \<open>strtol\<close> reads: leading space, a sign, digits. \<open>atoi\<close> of a number that does
  not fit is undefined.
\<close>

definition int_value :: "string \<Rightarrow> int" where
  "int_value s0 =
     (let s = dropWhile isspace s0;
          neg = (s \<noteq> [] \<and> hd s = CHR ''-'');
          t = (if s \<noteq> [] \<and> (hd s = CHR ''-'' \<or> hd s = CHR ''+'') then tl s else s);
          n = int (digits_val (takeWhile isdigit t))
      in if neg then - n else n)"

definition atoi :: "string \<Rightarrow> int res" where
  "atoi s = ck (int_value s)"

lemma isdigit_char: "d < 10 \<Longrightarrow> isdigit (char_of (48 + d :: nat))"
  by (simp add: isdigit_def of_char_of)

lemma show_nat_digits: "\<forall>c\<in>set (show_nat n). isdigit c"
proof (induction n rule: show_nat.induct)
  case (1 n)
  then show ?case
    using isdigit_char [of n] isdigit_char [of "n mod 10"]
    by (simp add: show_nat.simps [of n])
qed

lemma show_nat_not_Nil [simp]: "show_nat n \<noteq> []"
  by (simp add: show_nat.simps [of n])

lemma digits_val_show: "digits_val (show_nat n) = n"
proof (induction n rule: show_nat.induct)
  case (1 n)
  have "of_char (char_of (48 + d :: nat) :: char) = 48 + d" if "d < 10" for d
    using that by (simp add: of_char_of)
  then show ?case
    using 1 by (cases "n < 10") (simp_all add: show_nat.simps [of n] digits_val_def)
qed

lemma digit_not_space: "isdigit c \<Longrightarrow> \<not> isspace c \<and> c \<noteq> CHR ''-'' \<and> c \<noteq> CHR ''+''"
  by (auto simp: isdigit_def isspace_def)

lemma takeWhile_digits:
  "\<forall>c\<in>set ds. isdigit c \<Longrightarrow> \<forall>c\<in>set (take 1 rest). \<not> isdigit c \<Longrightarrow>
   takeWhile isdigit (ds @ rest) = ds"
  by (cases rest) simp_all

text \<open>Reading back a printed number, whatever follows it.\<close>

lemma int_value_show:
  assumes "\<forall>c\<in>set (take 1 rest). \<not> isdigit c"
  shows "int_value (show_int x @ rest) = x"
proof -
  have hd: "isdigit (hd (show_nat n))" for n
    using show_nat_digits [of n] by simp
  have tw: "takeWhile isdigit (show_nat n @ rest) = show_nat n" for n
    by (rule takeWhile_digits [OF show_nat_digits assms])
  have nsp: "dropWhile isspace (show_nat n @ rest) = show_nat n @ rest" for n
    using digit_not_space [OF hd [of n]] by (cases "show_nat n") simp_all
  show ?thesis
  proof (cases "x < 0")
    case True
    have "\<not> isspace (CHR ''-'')" by (simp add: isspace_def)
    then show ?thesis
      using True tw [of "nat (- x)"] by (simp add: int_value_def show_int_def Let_def digits_val_show)
  next
    case False
    then show ?thesis
      using tw [of "nat x"] nsp [of "nat x"] digit_not_space [OF hd [of "nat x"]]
      by (simp add: int_value_def show_int_def Let_def digits_val_show)
  qed
qed

lemma atoi_show_int:
  "\<forall>c\<in>set (take 1 rest). \<not> isdigit c \<Longrightarrow> atoi (show_int x @ rest) = ck x"
  by (simp add: atoi_def int_value_show)

subsection \<open>Files\<close>

text \<open>\<open>fgets\<close> with room for \<open>n\<close> characters: the line (with its newline) and the rest.\<close>

fun fgets :: "nat \<Rightarrow> string \<Rightarrow> string \<times> string" where
  "fgets 0 s = ([], s)"
| "fgets (Suc n) [] = ([], [])"
| "fgets (Suc n) (c # s) =
     (if c = newline then ([c], s) else let (l, r) = fgets n s in (c # l, r))"

lemma fgets_append: "fgets n s = (l, r) \<Longrightarrow> l @ r = s"
  by (induction n s arbitrary: l r rule: fgets.induct) (auto split: if_splits prod.splits)

lemma fgets_progress: "fgets (Suc n) s = (l, r) \<Longrightarrow> s \<noteq> [] \<Longrightarrow> length r < length s"
  by (cases s) (auto split: if_splits prod.splits dest!: fgets_append)

lemma fgets_line:
  "newline \<notin> set l \<Longrightarrow> length l < n \<Longrightarrow> fgets n (l @ newline # s) = (l @ [newline], s)"
proof (induction l arbitrary: n)
  case Nil
  then show ?case by (cases n) simp_all
next
  case (Cons c l)
  then have "c \<noteq> newline" by auto
  with Cons show ?case by (cases n) simp_all
qed

end
