(* ===== verification/Bytes.thy ===== *)
theory Bytes
  imports Prelude
begin

text \<open>
  Raw memory: bytes, the four-byte little-endian layout of an \<open>int\<close>, the implicit
  conversions between \<open>int\<close> and \<open>size_t\<close>, and \<open>memcpy\<close>/\<open>memset\<close> on a block with the
  bounds written out.
\<close>

type_synonym byte = "8 word"

subsection \<open>Implicit conversions\<close>

text \<open>A \<open>size_t\<close> value (or any integer) assigned to an \<open>int\<close>, and back.\<close>

definition to_i32 :: "int \<Rightarrow> int" where
  "to_i32 x = (x + 2147483648) mod 4294967296 - 2147483648"

definition to_u64 :: "int \<Rightarrow> int" where
  "to_u64 x = x mod 18446744073709551616"

lemma to_i32_id [simp]: "is_i32 x \<Longrightarrow> to_i32 x = x"
  by (simp add: to_i32_def is_i32_def INT_MIN_def INT_MAX_def)

lemma is_i32_to_i32 [simp]: "is_i32 (to_i32 x)"
proof -
  have "0 \<le> (x + 2147483648) mod 4294967296" "(x + 2147483648) mod 4294967296 < 4294967296"
    by simp_all
  then show ?thesis
    unfolding to_i32_def is_i32_def INT_MIN_def INT_MAX_def by linarith
qed

lemma to_u64_id [simp]: "0 \<le> x \<Longrightarrow> x < 18446744073709551616 \<Longrightarrow> to_u64 x = x"
  by (simp add: to_u64_def)

lemma is_i32_0 [simp]: "is_i32 0"
  by (simp add: is_i32_def INT_MIN_def INT_MAX_def)

lemma is_i32_nonneg: "0 \<le> x \<Longrightarrow> is_i32 x \<longleftrightarrow> x \<le> INT_MAX"
  by (simp add: is_i32_def INT_MIN_def)

subsection \<open>An \<open>int\<close> in memory\<close>

definition put_i32 :: "int \<Rightarrow> byte list" where
  "put_i32 x = [word_of_int x, word_of_int (x div 256), word_of_int (x div 65536),
                word_of_int (x div 16777216)]"

definition get_i32 :: "byte list \<Rightarrow> int" where
  "get_i32 bs = to_i32 (foldr (\<lambda>b acc. uint b + 256 * acc) bs 0)"

lemma length_put_i32 [simp]: "length (put_i32 x) = 4"
  by (simp add: put_i32_def)

lemma get_put_i32 [simp]:
  assumes "is_i32 x"
  shows "get_i32 (put_i32 x) = x"
proof -
  have u: "uint (word_of_int y :: byte) = y mod 256" for y
    by (simp add: unsigned_of_int take_bit_eq_mod)
  have "foldr (\<lambda>b acc. uint b + 256 * acc) (put_i32 x) 0 =
      x mod 256 + 256 * (x div 256 mod 256 + 256 * (x div 65536 mod 256 +
        256 * (x div 16777216 mod 256)))"
    by (simp add: put_i32_def u)
  also have "\<dots> = x mod 4294967296"
  proof -
    have d: "x div 65536 = x div 256 div 256" "x div 16777216 = x div 256 div 256 div 256"
      by (simp_all add: zdiv_zmult2_eq [symmetric])
    have m: "y mod (256 * z) = y mod 256 + 256 * (y div 256 mod z)" if "0 < z" for y z :: int
      using zmod_zmult2_eq [of z y 256] that by simp
    have e1: "x mod 4294967296 = x mod 256 + 256 * (x div 256 mod 16777216)"
      using m [of 16777216 x] by simp
    have e2: "x div 256 mod 16777216 = x div 256 mod 256 + 256 * (x div 256 div 256 mod 65536)"
      using m [of 65536 "x div 256"] by simp
    have e3: "x div 256 div 256 mod 65536 =
        x div 256 div 256 mod 256 + 256 * (x div 256 div 256 div 256 mod 256)"
      using m [of 256 "x div 256 div 256"] by simp
    show ?thesis
      by (simp only: d e1 e2 e3)
  qed
  finally have "get_i32 (put_i32 x) = to_i32 (x mod 4294967296)"
    by (simp add: get_i32_def)
  also have "\<dots> = to_i32 x"
    by (simp add: to_i32_def mod_simps)
  finally show ?thesis using assms by simp
qed

lemma get_i32_zeros [simp]: "get_i32 (replicate n 0) = 0"
proof -
  have "foldr (\<lambda>b acc. uint b + 256 * acc) (replicate n (0 :: byte)) 0 = 0"
    by (induction n) simp_all
  then show ?thesis by (simp add: get_i32_def)
qed

subsection \<open>Blocks\<close>

text \<open>
  Reading and writing \<open>n\<close> bytes at an offset of a block; the bytes in front of \<open>lo\<close>
  belong to something else and are out of bounds too.
\<close>

definition peek :: "nat \<Rightarrow> byte list \<Rightarrow> int \<Rightarrow> nat \<Rightarrow> byte list res" where
  "peek lo m off n =
     (if int lo \<le> off \<and> nat off + n \<le> length m then Inr (take n (drop (nat off) m))
      else Inl OutOfBounds)"

definition poke :: "nat \<Rightarrow> byte list \<Rightarrow> int \<Rightarrow> byte list \<Rightarrow> byte list res" where
  "poke lo m off bs =
     (if int lo \<le> off \<and> nat off + length bs \<le> length m
      then Inr (take (nat off) m @ bs @ drop (nat off + length bs) m)
      else Inl OutOfBounds)"

lemma peek_mid:
  "off = int (length a) \<Longrightarrow> lo \<le> length a \<Longrightarrow> n = length b \<Longrightarrow>
   peek lo (a @ b @ c) off n = Inr b"
  by (simp add: peek_def)

lemma poke_mid:
  "off = int (length a) \<Longrightarrow> lo \<le> length a \<Longrightarrow> length bs = length b \<Longrightarrow>
   poke lo (a @ b @ c) off bs = Inr (a @ bs @ c)"
  by (simp add: poke_def)

lemma poke_length: "poke lo m off bs = Inr m' \<Longrightarrow> length m' = length m"
  by (auto simp: poke_def split: if_splits)

end
