(* ===== verification/Secret.thy ===== *)
theory Secret
  imports CString Bytes
begin

unbundle bit_operations_syntax

text \<open>
  \<^verbatim>\<open>src/secret/secret.cpp\<close>: every regular file of a directory is copied to the directory
  \<open><path>_new\<close>, byte by byte combined with a key. The macro \<open>SEC_KEY\<close> is not defined in
  the repository, so the byte it stands for is a parameter. The file system is a map from
  paths to files and directories; what the operating system decides (the order of the
  entries of a directory, whether something can be opened or created) is a record of
  functions.
\<close>

section \<open>State\<close>

datatype inode = Regular "byte list" | Directory | Special

type_synonym fsys = "string \<Rightarrow> inode option"

record os =
  opendir :: "fsys \<Rightarrow> string \<Rightarrow> string list option"
  mkdir_ok :: "string \<Rightarrow> bool"
  writable :: "string \<Rightarrow> bool"
  strerror :: string

definition MAX_SIZE :: nat where "MAX_SIZE = 1024"

record secret =
  g_sPath :: string
  g_iKey :: int
  g_iCnt :: int
  files :: fsys
  out :: string

definition secret_init :: "fsys \<Rightarrow> secret" where
  "secret_init fs = \<lparr>g_sPath = [], g_iKey = - 1, g_iCnt = 0, files = fs, out = []\<rparr>"

definition say :: "string \<Rightarrow> secret \<Rightarrow> secret" where
  "say t s = s\<lparr>out := out s @ t\<rparr>"

text \<open>\<open>strcpy\<close> and \<open>strcat\<close> into a buffer of \<open>MAX_SIZE\<close> characters.\<close>

definition buffer :: "string \<Rightarrow> string res" where
  "buffer t = (if length t < MAX_SIZE then Inr t else Inl OutOfBounds)"


section \<open>Arguments\<close>

fun paras_loop :: "string list \<Rightarrow> secret \<Rightarrow> (int \<times> secret) res" where
  "paras_loop [] s =
     Inr (if g_iKey s \<le> 0 \<or> g_sPath s = []
          then (- 1, say (''path or key not input!'' @ endl) s) else (0, s))"
| "paras_loop (a # as) s =
     (if a = ''-k'' then
        (case as of
           [] \<Rightarrow> Inr (- 1, say (''not exist key.'' @ endl) s)
         | v # as' \<Rightarrow> bindE (atoi v) (\<lambda>k.
             let s1 = s\<lparr>g_iKey := k\<rparr> in
             if k \<le> 0 then Inr (- 1, say (''invalid key id '' @ v @ endl) s1) else paras_loop as' s1))
      else if a = ''-p'' then
        (case as of
           [] \<Rightarrow> Inr (- 1, say (''not exist path.'' @ endl) s)
         | v # as' \<Rightarrow>
             let s1 = s\<lparr>g_sPath := take (MAX_SIZE - 1) v\<rparr> in
             if g_sPath s1 = [] then Inr (- 1, say (''invalid path '' @ v @ endl) s1)
             else paras_loop as' s1)
      else Inr (- 1, say (''invalid param '' @ a @ endl) s))"

definition ParasCmd :: "string list \<Rightarrow> secret \<Rightarrow> (int \<times> secret) res" where
  "ParasCmd argv s = (if length argv < 3 then Inr (- 1, s) else paras_loop (tl argv) s)"

definition ShowUse :: "secret \<Rightarrow> secret" where
  "ShowUse = say (''use help:'' @ endl @ tab @ ''secret -p path -k key '' @ endl @
     tab @ ''secret -p ./20160311 -k 1234'' @ endl)"


section \<open>One file\<close>

text \<open>
  The copying loop asks for the end of the file before it has read past it, so there is
  one more round than there are bytes: that \<open>get\<close> fails and leaves \<open>cTemp\<close> as it is,
  which is the last byte already combined with the key (or 0).
\<close>

fun copy_loop :: "byte \<Rightarrow> byte list \<Rightarrow> byte \<Rightarrow> byte list" where
  "copy_loop key [] cTemp = [cTemp XOR key]"
| "copy_loop key (b # bs) cTemp = (b XOR key) # copy_loop key bs (b XOR key)"

definition DoSecret :: "os \<Rightarrow> byte \<Rightarrow> string \<Rightarrow> string \<Rightarrow> secret \<Rightarrow> (int \<times> secret) res" where
  "DoSecret os key sPath sFile s =
     bindE (buffer (sPath @ ''_new'')) (\<lambda>sPathNew.
       if files s sPathNew = None \<and> \<not> mkdir_ok os sPathNew
       then Inr (- 1, say (''create path ['' @ sPathNew @ ''] error!'' @ endl) s)
       else
         let s1 = (if files s sPathNew = None
                   then s\<lparr>files := (files s)(sPathNew \<mapsto> Directory)\<rparr> else s) in
         bindE (buffer (sPath @ ''/'' @ sFile)) (\<lambda>sFileName.
         bindE (buffer (sPathNew @ ''/'' @ sFile)) (\<lambda>sFileNameNew.
           let s2 = (if writable os sFileNameNew
                     then s1\<lparr>files := (files s1)(sFileNameNew \<mapsto> Regular [])\<rparr> else s1) in
           case files s1 sFileName of
             Some (Regular bytes) \<Rightarrow>
               if writable os sFileNameNew
               then Inr (0, s2\<lparr>files := (files s2)(sFileNameNew \<mapsto> Regular (copy_loop key bytes 0)),
                              g_iCnt := g_iCnt s2 + 1\<rparr>)
               else Inr (- 1, say (''InFile ||  OutFile  failed!'' @ endl) s2)
           | _ \<Rightarrow> Inr (- 1, say (''InFile ||  OutFile  failed!'' @ endl) s2))))"


section \<open>The directory\<close>

text \<open>
  \<open>DealDirent\<close>: the entries of one directory. The test for a regular file comes before the
  test for a directory, so the queue of subdirectories \<open>vecSubDir\<close> is as the loop found
  it. A file is opened for writing only after its name has been checked.
\<close>

fun deal_entries :: "os \<Rightarrow> byte \<Rightarrow> string \<Rightarrow> string list \<Rightarrow> string list \<Rightarrow> secret \<Rightarrow>
    (int \<times> string list \<times> secret) res" where
  "deal_entries os key sPath [] vecSubDir s = Inr (0, vecSubDir, s)"
| "deal_entries os key sPath (d # ds) vecSubDir s =
     (if d = ''..'' \<or> d = ''.'' then deal_entries os key sPath ds vecSubDir s
      else bindE (buffer (sPath @ ''/'' @ d)) (\<lambda>sFilename.
        case files s sFilename of
          None \<Rightarrow> deal_entries os key sPath ds vecSubDir s
        | Some n \<Rightarrow>
            if (case n of Regular _ \<Rightarrow> False | _ \<Rightarrow> True)
            then deal_entries os key sPath ds vecSubDir s
            else if n = Directory
            then deal_entries os key sPath ds (vecSubDir @ [sFilename]) s
            else bindE (DoSecret os key sPath d
                    (say (''start deal file['' @ sPath @ ''/'' @ d @ '']'' @ endl) s)) (\<lambda>(iRet, s1).
              if iRet \<noteq> 0
              then Inr (iRet, vecSubDir, say (''Exec Dosecret failed!'' @ endl) s1)
              else deal_entries os key sPath ds vecSubDir s1)))"

partial_function (option) deal_dirs :: "os \<Rightarrow> byte \<Rightarrow> string \<Rightarrow> string list \<Rightarrow> string list \<Rightarrow>
    secret \<Rightarrow> (int \<times> secret) res option" where
  "deal_dirs os key sPath ds vecSubDir s =
     bindO (Some (deal_entries os key sPath ds vecSubDir s)) (\<lambda>(iRet, subs, s1).
       if iRet \<noteq> 0 then Some (Inr (iRet, s1))
       else case subs of
         [] \<Rightarrow> Some (Inr (0, s1))
       | d # subs' \<Rightarrow>
           (case opendir os (files s1) d of
              None \<Rightarrow> Some (Inr (- 1, say (''opendir failed:'' @ d @ '','' @ strerror os @ endl) s1))
            | Some es \<Rightarrow> deal_dirs os key d es subs' s1))"

definition DealDirent :: "os \<Rightarrow> byte \<Rightarrow> secret \<Rightarrow> (int \<times> secret) res option" where
  "DealDirent os key s =
     (case opendir os (files s) (g_sPath s) of
        None \<Rightarrow> Some (Inr (- 1, say (''open dir is not SUCCESS'' @ g_sPath s @ endl) s))
      | Some ds \<Rightarrow> deal_dirs os key (g_sPath s) ds [] s)"

text \<open>The message behind the number of files, in the bytes of the source (GBK).\<close>

definition files_done :: string where
  "files_done = [CHR 0xB8, CHR 0xF6, CHR 0xCE, CHR 0xC4, CHR 0xBC, CHR 0xFE, CHR 0xB1,
     CHR 0xBB, CHR 0xB4, CHR 0xA6, CHR 0xC0, CHR 0xED, CHR 0xA3, CHR 0xA1]"

definition secret_main :: "os \<Rightarrow> byte \<Rightarrow> string list \<Rightarrow> fsys \<Rightarrow> (int \<times> secret) res option" where
  "secret_main os key argv fs =
     bindO (Some (ParasCmd argv (say (''start!'' @ endl) (secret_init fs)))) (\<lambda>(iRet, s).
       if iRet \<noteq> 0 then Some (Inr (iRet, ShowUse (say (''ParamCmd error!'' @ endl) s)))
       else bindO (DealDirent os key s) (\<lambda>(iRet, s1).
         if iRet \<noteq> 0 then Some (Inr (iRet, say (''DealDirent error!'' @ endl) s1))
         else Some (Inr (0, say (show_int (g_iCnt s1) @ files_done @ endl @ ''end!'' @ endl) s1))))"


section \<open>What is written\<close>

lemma copy_loop_eq:
  "copy_loop key bs c = map (\<lambda>b. b XOR key) bs @ [if bs = [] then c XOR key else last bs]"
proof (induction bs arbitrary: c)
  case (Cons b bs)
  then show ?case by (auto simp: xor.assoc)
qed simp

lemma copy_loop_0: "copy_loop key bs 0 = map (\<lambda>b. b XOR key) bs @ [if bs = [] then key else last bs]"
  by (simp add: copy_loop_eq)

lemma copy_loop_twice:
  "copy_loop key (copy_loop key bs 0) 0 =
     (if bs = [] then [0, key] else bs @ [last bs XOR key, last bs])"
  by (simp add: copy_loop_eq xor.assoc comp_def)

lemma say_simps [simp]: "files (say t s) = files s" "g_iCnt (say t s) = g_iCnt s"
  "g_sPath (say t s) = g_sPath s"
  by (simp_all add: say_def)

lemma buffer_ok [simp]: "length t < MAX_SIZE \<Longrightarrow> buffer t = Inr t"
  by (simp add: buffer_def)

definition new_path :: "string \<Rightarrow> string \<Rightarrow> string" where
  "new_path p d = p @ ''_new'' @ ''/'' @ d"

lemma new_path_neq [simp]:
  "new_path p d \<noteq> p @ CHR ''/'' # d'" "p @ CHR ''/'' # d' \<noteq> new_path p d"
  "p @ ''_new'' \<noteq> new_path p d" "new_path p d \<noteq> p @ ''_new''"
  "new_path p d = new_path p d' \<longleftrightarrow> d = d'"
  by (auto simp: new_path_def)

text \<open>The name of the new directory, the one of the copy, and the buffers, are long enough.\<close>

definition fits :: "string \<Rightarrow> string \<Rightarrow> bool" where
  "fits p d \<longleftrightarrow> length p + length d + 5 < MAX_SIZE"

definition reg_bytes :: "fsys \<Rightarrow> string \<Rightarrow> byte list option" where
  "reg_bytes fs path = (case fs path of Some (Regular bs) \<Rightarrow> Some bs | _ \<Rightarrow> None)"

lemma DoSecret_ok:
  assumes "fits p d" "reg_bytes (files s) (p @ ''/'' @ d) = Some bs"
    and "files s (p @ ''_new'') \<noteq> None \<or> mkdir_ok os (p @ ''_new'')" "writable os (new_path p d)"
  shows "\<exists>s'. DoSecret os key p d s = Inr (0, s') \<and> g_iCnt s' = g_iCnt s + 1 \<and>
    files s' (new_path p d) = Some (Regular (copy_loop key bs 0)) \<and>
    files s' (p @ ''_new'') \<noteq> None \<and>
    (\<forall>path. path \<noteq> p @ ''_new'' \<longrightarrow> path \<noteq> new_path p d \<longrightarrow> files s' path = files s path)"
  using assms
  by (auto simp: DoSecret_def fits_def reg_bytes_def Let_def new_path_def split: option.splits inode.splits)

text \<open>The regular files among the entries of a directory.\<close>

definition is_reg :: "fsys \<Rightarrow> string \<Rightarrow> string \<Rightarrow> bool" where
  "is_reg fs p d \<longleftrightarrow> d \<noteq> ''.'' \<and> d \<noteq> ''..'' \<and> reg_bytes fs (p @ ''/'' @ d) \<noteq> None"

lemma deal_entries_ok:
  assumes "\<forall>d \<in> set ds. fits p d \<and> writable os (new_path p d)" "mkdir_ok os (p @ ''_new'')"
  shows "\<exists>s'. deal_entries os key p ds subs s = Inr (0, subs, s') \<and>
    g_iCnt s' = g_iCnt s + int (length (filter (is_reg (files s) p) ds)) \<and>
    (\<forall>d \<in> set ds. is_reg (files s) p d \<longrightarrow> files s' (new_path p d) =
       map_option (\<lambda>bs. Regular (copy_loop key bs 0)) (reg_bytes (files s) (p @ ''/'' @ d))) \<and>
    (\<forall>path. path \<noteq> p @ ''_new'' \<longrightarrow> path \<notin> new_path p ` {d \<in> set ds. is_reg (files s) p d} \<longrightarrow>
       files s' path = files s path)"
  using assms
proof (induction ds arbitrary: s)
  case (Cons d ds)
  show ?case
  proof (cases "is_reg (files s) p d")
    case True
    then obtain bs where bs: "d \<noteq> ''.''" "d \<noteq> ''..''" "reg_bytes (files s) (p @ ''/'' @ d) = Some bs"
      by (auto simp: is_reg_def)
    let ?t = "say (''start deal file['' @ p @ ''/'' @ d @ '']'' @ endl) s"
    obtain s1 where s1: "DoSecret os key p d ?t = Inr (0, s1)" "g_iCnt s1 = g_iCnt s + 1"
      "files s1 (new_path p d) = Some (Regular (copy_loop key bs 0))"
      "\<And>path. path \<noteq> p @ ''_new'' \<Longrightarrow> path \<noteq> new_path p d \<Longrightarrow> files s1 path = files s path"
      using DoSecret_ok [of p d ?t bs os key] Cons.prems bs by auto
    have same: "reg_bytes (files s1) (p @ ''/'' @ e) = reg_bytes (files s) (p @ ''/'' @ e)"
      "is_reg (files s1) p e = is_reg (files s) p e" for e
      using s1(4) [of "p @ ''/'' @ e"] by (simp_all add: reg_bytes_def is_reg_def)
    obtain s' where s': "deal_entries os key p ds subs s1 = Inr (0, subs, s')"
      "g_iCnt s' = g_iCnt s1 + int (length (filter (is_reg (files s1) p) ds))"
      "\<forall>e \<in> set ds. is_reg (files s1) p e \<longrightarrow> files s' (new_path p e) =
         map_option (\<lambda>bs. Regular (copy_loop key bs 0)) (reg_bytes (files s1) (p @ ''/'' @ e))"
      "\<forall>path. path \<noteq> p @ ''_new'' \<longrightarrow> path \<notin> new_path p ` {e \<in> set ds. is_reg (files s1) p e} \<longrightarrow>
         files s' path = files s1 path"
      using Cons.IH [of s1] Cons.prems by auto
    have "files s (p @ ''/'' @ d) = Some (Regular bs)"
      using bs(3) by (auto simp: reg_bytes_def split: option.splits inode.splits)
    then have run: "deal_entries os key p (d # ds) subs s = Inr (0, subs, s')"
      using bs s1(1) s'(1) Cons.prems(1) by (simp add: fits_def)
    have here: "files s' (new_path p d) = Some (Regular (copy_loop key bs 0))"
    proof (cases "d \<in> set ds")
      case True
      then show ?thesis using s'(3) bs \<open>is_reg (files s) p d\<close> same [of d] by simp
    next
      case False
      then have "new_path p d \<notin> new_path p ` {e \<in> set ds. is_reg (files s1) p e}" by auto
      then show ?thesis using s'(4) s1(3) by simp
    qed
    have frame: "\<forall>path. path \<noteq> p @ ''_new'' \<longrightarrow>
        path \<notin> new_path p ` {e \<in> set (d # ds). is_reg (files s) p e} \<longrightarrow> files s' path = files s path"
      using s'(4) s1(4) True unfolding same by fastforce
    have "g_iCnt s' = g_iCnt s + int (length (filter (is_reg (files s) p) (d # ds)))"
      using s'(2) s1(2) True unfolding same by simp
    then show ?thesis
      using run s'(3) here bs(3) frame unfolding same
      by (intro exI [of _ s'] conjI) (simp_all del: deal_entries.simps)
  next
    case False
    have "deal_entries os key p (d # ds) subs s = deal_entries os key p ds subs s"
      using False Cons.prems(1)
      by (auto simp: is_reg_def reg_bytes_def fits_def split: option.splits inode.splits)
    moreover have "{e \<in> set (d # ds). is_reg (files s) p e} = {e \<in> set ds. is_reg (files s) p e}"
      using False by auto
    moreover obtain s' where "deal_entries os key p ds subs s = Inr (0, subs, s')"
      "g_iCnt s' = g_iCnt s + int (length (filter (is_reg (files s) p) ds))"
      "\<forall>e \<in> set ds. is_reg (files s) p e \<longrightarrow> files s' (new_path p e) =
         map_option (\<lambda>bs. Regular (copy_loop key bs 0)) (reg_bytes (files s) (p @ ''/'' @ e))"
      "\<forall>path. path \<noteq> p @ ''_new'' \<longrightarrow> path \<notin> new_path p ` {e \<in> set ds. is_reg (files s) p e} \<longrightarrow>
         files s' path = files s path"
      using Cons.IH [of s] Cons.prems by auto
    ultimately show ?thesis
      using False by (intro exI [of _ s']) (simp del: deal_entries.simps)
  qed
qed simp


section \<open>Properties\<close>


text \<open>A directory with two files, one of them empty, and a subdirectory.\<close>

definition demo_files :: fsys where
  "demo_files = [''d'' \<mapsto> Directory, ''d/a'' \<mapsto> Regular [1, 2, 3], ''d/e'' \<mapsto> Regular [],
     ''d/sub'' \<mapsto> Directory, ''d/sub/x'' \<mapsto> Regular [9]]"

definition demo_os :: os where
  "demo_os = \<lparr>opendir = (\<lambda>fs p. if p = ''d'' then Some [''.'', ''..'', ''a'', ''sub'', ''e''] else None),
     mkdir_ok = (\<lambda>p. True), writable = (\<lambda>p. True), strerror = []\<rparr>"

definition demo_state :: secret where
  "demo_state = (secret_init demo_files)\<lparr>g_sPath := ''d'', g_iKey := 1\<rparr>"


text \<open>
  Encrypting twice does not give the file back. The copy of the copy is the original
  with two more bytes behind it, the first of them combined with the key; so the last byte
  of every non-empty encrypted file is the last byte of the original in clear.
\<close>

theorem secret_not_inverse:
  assumes "fits p d" and "fits (p @ ''_new'') d"
    and "reg_bytes (files s) (p @ ''/'' @ d) = Some bs" and "bs \<noteq> []"
    and "\<forall>path. mkdir_ok os path \<and> writable os path"
  shows "\<exists>s1 s2. DoSecret os key p d s = Inr (0, s1) \<and> DoSecret os key (p @ ''_new'') d s1 = Inr (0, s2) \<and>
    reg_bytes (files s1) (p @ ''_new/'' @ d) = Some (map (\<lambda>b. b XOR key) bs @ [last bs]) \<and>
    reg_bytes (files s2) (p @ ''_new_new/'' @ d) = Some (bs @ [last bs XOR key, last bs])"
proof -
  obtain s1 where s1: "DoSecret os key p d s = Inr (0, s1)"
    "files s1 (new_path p d) = Some (Regular (copy_loop key bs 0))"
    using DoSecret_ok [OF assms(1,3), of os key] assms(5) by auto
  then have r1: "reg_bytes (files s1) ((p @ ''_new'') @ ''/'' @ d) = Some (copy_loop key bs 0)"
    by (simp add: reg_bytes_def new_path_def)
  obtain s2 where s2: "DoSecret os key (p @ ''_new'') d s1 = Inr (0, s2)"
    "files s2 (new_path (p @ ''_new'') d) = Some (Regular (copy_loop key (copy_loop key bs 0) 0))"
    using DoSecret_ok [OF assms(2) r1, of os key] assms(5) by auto
  have "reg_bytes (files s2) (p @ ''_new_new/'' @ d) = Some (bs @ [last bs XOR key, last bs])"
    using s2(2) assms(4) unfolding copy_loop_twice by (simp add: reg_bytes_def new_path_def)
  moreover have "reg_bytes (files s1) (p @ ''_new/'' @ d) = Some (map (\<lambda>b. b XOR key) bs @ [last bs])"
    using r1 assms(4) by (simp add: copy_loop_0)
  ultimately show ?thesis using s1(1) s2(1) by blast
qed

theorem secret_not_inverse_witness:
  "\<exists>s1 s2. DoSecret demo_os 5 ''d'' ''a'' demo_state = Inr (0, s1) \<and>
     DoSecret demo_os 5 ''d_new'' ''a'' s1 = Inr (0, s2) \<and>
     reg_bytes (files s2) ''d_new_new/a'' = Some [1, 2, 3, 6, 3]"
proof -
  have "reg_bytes (files demo_state) (''d'' @ ''/'' @ ''a'') = Some [1, 2, 3]" by code_simp
  then show ?thesis
    using secret_not_inverse [of "''d''" "''a''" demo_state "[1, 2, 3]" demo_os 5]
    by (auto simp: fits_def MAX_SIZE_def demo_os_def)
qed

end
