(* ===== verification/MrFields.thy ===== *)
theory MrFields
  imports CString
begin

text \<open>
  The data of \<^verbatim>\<open>src/temp/dealMROandMRE.cpp\<close>: the records of a measurement report, the
  order in which \<open>sscanf\<close> fills their fields from the words of a line, and the order in
  which \<open>fprintf\<close> writes them as a line of a CSV file. A field is an array of
  \<open>USE_SIZE\<close> characters; it stands here for the string in it.
\<close>

definition USE_SIZE :: nat where "USE_SIZE = 100"

section \<open>The records\<close>

record MREfile =
  strNoUse1 :: string
  strNoUse2 :: string
  objectId1 :: string
  strNoUse3 :: string
  MmeUeS1apId2 :: string
  strNoUse4 :: string
  MmeGroupId3 :: string
  strNoUse5 :: string
  MmeCode4 :: string
  strNoUse6 :: string
  TimeStamp5 :: string
  strNoUse7 :: string
  EventType6 :: string
  strNoUse8 :: string
  MR_LteScRSRP1 :: string
  MR_LteScRSRQ2 :: string
  MR_LteScEarfcn3 :: string
  MR_LteScPci4 :: string
  MR_LteNcRSRP5 :: string
  MR_LteNcRSRQ6 :: string
  MR_LteNcEarfcn7 :: string
  MR_LteNcPci8 :: string
  MR_TdsPccpchRSCP9 :: string
  MR_TdsNcellUarfcn10 :: string
  MR_TdsCellParameterId11 :: string
  MR_GsmNcellBcch12 :: string
  MR_GsmNcellCarrierRSSI13 :: string
  MR_GsmNcellNcc14 :: string
  MR_GsmNcellBcc15 :: string
  strNoUse9 :: string

record MROfile =
  strNouse1 :: string
  strNouse2 :: string
  objectid :: string
  strNouse3 :: string
  MmeUeS1apId :: string
  strNouse4 :: string
  MmeGroupId :: string
  strNouse5 :: string
  MmeCode :: string
  strNouse6 :: string
  TimeStamp :: string
  strNouse7 :: string
  LteScRSRP :: string
  LteScRSRQ :: string
  LteScTadv :: string
  LteSceNBRxTxTimeDiff :: string
  LteScPHR :: string
  LteScAOA :: string
  LteScSinrUL :: string
  LteScEarfcn :: string
  LteScPci :: string
  LteNcRSRP :: string
  LteNcRSRQ :: string
  LteNcEarfcn :: string
  LteNcPci :: string
  TdsPccpchRSCP :: string
  TdsNcellUarfcn :: string
  TdsCellParameterId :: string
  GsmNcellBcch :: string
  GsmNcellCarrierRSSI :: string
  GsmNcellNcc :: string
  GsmNcellBcc :: string
  LteScPUSCHPRBNum :: string
  LteScPDSCHPRBNum :: string
  LteScBSR :: string
  LteScRI1 :: string
  LteScRI2 :: string
  LteScRI4 :: string
  LteScRI8 :: string
  strNouse8 :: string
  OVERLAPP_COVERAGE :: int
  MOD3_NCELLS :: int
  OVERSHOOT_AOA :: int

text \<open>After \<open>memset\<close>.\<close>

definition MREfile_zero :: MREfile where
  "MREfile_zero = \<lparr>
     strNoUse1 = [], strNoUse2 = [], objectId1 = [], strNoUse3 = [], MmeUeS1apId2 = [],
     strNoUse4 = [], MmeGroupId3 = [], strNoUse5 = [], MmeCode4 = [], strNoUse6 = [],
     TimeStamp5 = [], strNoUse7 = [], EventType6 = [], strNoUse8 = [], MR_LteScRSRP1 = [],
     MR_LteScRSRQ2 = [], MR_LteScEarfcn3 = [], MR_LteScPci4 = [], MR_LteNcRSRP5 = [],
     MR_LteNcRSRQ6 = [], MR_LteNcEarfcn7 = [], MR_LteNcPci8 = [], MR_TdsPccpchRSCP9 = [],
     MR_TdsNcellUarfcn10 = [], MR_TdsCellParameterId11 = [], MR_GsmNcellBcch12 = [],
     MR_GsmNcellCarrierRSSI13 = [], MR_GsmNcellNcc14 = [], MR_GsmNcellBcc15 = [], strNoUse9 = []\<rparr>"

definition MROfile_zero :: MROfile where
  "MROfile_zero = \<lparr>
     strNouse1 = [], strNouse2 = [], objectid = [], strNouse3 = [], MmeUeS1apId = [],
     strNouse4 = [], MmeGroupId = [], strNouse5 = [], MmeCode = [], strNouse6 = [],
     TimeStamp = [], strNouse7 = [], LteScRSRP = [], LteScRSRQ = [], LteScTadv = [],
     LteSceNBRxTxTimeDiff = [], LteScPHR = [], LteScAOA = [], LteScSinrUL = [], LteScEarfcn = [],
     LteScPci = [], LteNcRSRP = [], LteNcRSRQ = [], LteNcEarfcn = [], LteNcPci = [],
     TdsPccpchRSCP = [], TdsNcellUarfcn = [], TdsCellParameterId = [], GsmNcellBcch = [],
     GsmNcellCarrierRSSI = [], GsmNcellNcc = [], GsmNcellBcc = [], LteScPUSCHPRBNum = [],
     LteScPDSCHPRBNum = [], LteScBSR = [], LteScRI1 = [], LteScRI2 = [], LteScRI4 = [],
     LteScRI8 = [], strNouse8 = [], OVERLAPP_COVERAGE = 0, MOD3_NCELLS = 0, OVERSHOOT_AOA = 0\<rparr>"


section \<open>Reading a line\<close>

text \<open>The words of a line, as a sequence of \<open>%s\<close> conversions reads them.\<close>

function words :: "string \<Rightarrow> string list" where
  "words s =
     (let t = dropWhile isspace s in
      if t = [] then []
      else takeWhile (\<lambda>c. \<not> isspace c) t # words (dropWhile (\<lambda>c. \<not> isspace c) t))"
  by pat_completeness auto
termination
proof (relation "measure length")
  fix s t :: string
  assume t: "t = dropWhile isspace s" "t \<noteq> []"
  then have "\<not> isspace (hd t)" using hd_dropWhile by metis
  then have "length (dropWhile (\<lambda>c. \<not> isspace c) t) < length t"
    using t(2) by (cases t) (auto simp: le_imp_less_Suc length_dropWhile_le)
  also have "length t \<le> length s" unfolding t(1) by (rule length_dropWhile_le)
  finally show "(dropWhile (\<lambda>c. \<not> isspace c) t, s) \<in> measure length" by simp
qed simp

declare words.simps [simp del]

text \<open>
  \<open>sscanf\<close> with \<open>%s\<close> conversions only: each word goes to the next field. There is no
  width, so a word that does not fit overruns its field. Fields without a word stay as
  they are.
\<close>

fun scan_words :: "string list \<Rightarrow> (string \<Rightarrow> 'r \<Rightarrow> 'r) list \<Rightarrow> 'r \<Rightarrow> 'r res" where
  "scan_words [] fs r = Inr r"
| "scan_words (w # ws) [] r = Inr r"
| "scan_words (w # ws) (f # fs) r =
     (if length w < USE_SIZE then scan_words ws fs (f w r) else Inl OutOfBounds)"

definition sscanf_s :: "string \<Rightarrow> (string \<Rightarrow> 'r \<Rightarrow> 'r) list \<Rightarrow> 'r \<Rightarrow> 'r res" where
  "sscanf_s buf fs r = scan_words (words buf) fs r"

definition mre_object_fields :: "(string \<Rightarrow> MREfile \<Rightarrow> MREfile) list" where
  "mre_object_fields = [
     \<lambda>v r. r\<lparr>strNoUse1 := v\<rparr>,
     \<lambda>v r. r\<lparr>strNoUse2 := v\<rparr>,
     \<lambda>v r. r\<lparr>objectId1 := v\<rparr>,
     \<lambda>v r. r\<lparr>strNoUse3 := v\<rparr>,
     \<lambda>v r. r\<lparr>MmeUeS1apId2 := v\<rparr>,
     \<lambda>v r. r\<lparr>strNoUse4 := v\<rparr>,
     \<lambda>v r. r\<lparr>MmeGroupId3 := v\<rparr>,
     \<lambda>v r. r\<lparr>strNoUse5 := v\<rparr>, \<lambda>v r. r\<lparr>MmeCode4 := v\<rparr>,
     \<lambda>v r. r\<lparr>strNoUse6 := v\<rparr>,
     \<lambda>v r. r\<lparr>TimeStamp5 := v\<rparr>,
     \<lambda>v r. r\<lparr>strNoUse7 := v\<rparr>, \<lambda>v r. r\<lparr>EventType6 := v\<rparr>]"

definition mre_value_fields :: "(string \<Rightarrow> MREfile \<Rightarrow> MREfile) list" where
  "mre_value_fields = [
     \<lambda>v r. r\<lparr>strNoUse8 := v\<rparr>,
     \<lambda>v r. r\<lparr>MR_LteScRSRP1 := v\<rparr>,
     \<lambda>v r. r\<lparr>MR_LteScRSRQ2 := v\<rparr>,
     \<lambda>v r. r\<lparr>MR_LteScEarfcn3 := v\<rparr>,
     \<lambda>v r. r\<lparr>MR_LteScPci4 := v\<rparr>,
     \<lambda>v r. r\<lparr>MR_LteNcRSRP5 := v\<rparr>,
     \<lambda>v r. r\<lparr>MR_LteNcRSRQ6 := v\<rparr>,
     \<lambda>v r. r\<lparr>MR_LteNcEarfcn7 := v\<rparr>,
     \<lambda>v r. r\<lparr>MR_LteNcPci8 := v\<rparr>,
     \<lambda>v r. r\<lparr>MR_TdsPccpchRSCP9 := v\<rparr>,
     \<lambda>v r. r\<lparr>MR_TdsNcellUarfcn10 := v\<rparr>,
     \<lambda>v r. r\<lparr>MR_TdsCellParameterId11 := v\<rparr>,
     \<lambda>v r. r\<lparr>MR_GsmNcellBcch12 := v\<rparr>,
     \<lambda>v r. r\<lparr>MR_GsmNcellCarrierRSSI13 := v\<rparr>,
     \<lambda>v r. r\<lparr>MR_GsmNcellNcc14 := v\<rparr>,
     \<lambda>v r. r\<lparr>MR_GsmNcellBcc15 := v\<rparr>,
     \<lambda>v r. r\<lparr>strNoUse9 := v\<rparr>]"

definition mro_object_fields :: "(string \<Rightarrow> MROfile \<Rightarrow> MROfile) list" where
  "mro_object_fields = [
     \<lambda>v r. r\<lparr>strNouse1 := v\<rparr>,
     \<lambda>v r. r\<lparr>strNouse2 := v\<rparr>, \<lambda>v r. r\<lparr>objectid := v\<rparr>,
     \<lambda>v r. r\<lparr>strNouse3 := v\<rparr>,
     \<lambda>v r. r\<lparr>MmeUeS1apId := v\<rparr>,
     \<lambda>v r. r\<lparr>strNouse4 := v\<rparr>,
     \<lambda>v r. r\<lparr>MmeGroupId := v\<rparr>,
     \<lambda>v r. r\<lparr>strNouse5 := v\<rparr>, \<lambda>v r. r\<lparr>MmeCode := v\<rparr>,
     \<lambda>v r. r\<lparr>strNouse6 := v\<rparr>, \<lambda>v r. r\<lparr>TimeStamp := v\<rparr>]"

definition mro_value_fields :: "(string \<Rightarrow> MROfile \<Rightarrow> MROfile) list" where
  "mro_value_fields = [
     \<lambda>v r. r\<lparr>strNouse7 := v\<rparr>,
     \<lambda>v r. r\<lparr>LteScRSRP := v\<rparr>,
     \<lambda>v r. r\<lparr>LteScRSRQ := v\<rparr>,
     \<lambda>v r. r\<lparr>LteScTadv := v\<rparr>,
     \<lambda>v r. r\<lparr>LteSceNBRxTxTimeDiff := v\<rparr>,
     \<lambda>v r. r\<lparr>LteScPHR := v\<rparr>, \<lambda>v r. r\<lparr>LteScAOA := v\<rparr>,
     \<lambda>v r. r\<lparr>LteScSinrUL := v\<rparr>,
     \<lambda>v r. r\<lparr>LteScEarfcn := v\<rparr>,
     \<lambda>v r. r\<lparr>LteScPci := v\<rparr>, \<lambda>v r. r\<lparr>LteNcRSRP := v\<rparr>,
     \<lambda>v r. r\<lparr>LteNcRSRQ := v\<rparr>,
     \<lambda>v r. r\<lparr>LteNcEarfcn := v\<rparr>,
     \<lambda>v r. r\<lparr>LteNcPci := v\<rparr>,
     \<lambda>v r. r\<lparr>TdsPccpchRSCP := v\<rparr>,
     \<lambda>v r. r\<lparr>TdsNcellUarfcn := v\<rparr>,
     \<lambda>v r. r\<lparr>TdsCellParameterId := v\<rparr>,
     \<lambda>v r. r\<lparr>GsmNcellBcch := v\<rparr>,
     \<lambda>v r. r\<lparr>GsmNcellCarrierRSSI := v\<rparr>,
     \<lambda>v r. r\<lparr>GsmNcellNcc := v\<rparr>,
     \<lambda>v r. r\<lparr>GsmNcellBcc := v\<rparr>,
     \<lambda>v r. r\<lparr>LteScPUSCHPRBNum := v\<rparr>,
     \<lambda>v r. r\<lparr>LteScPDSCHPRBNum := v\<rparr>,
     \<lambda>v r. r\<lparr>LteScBSR := v\<rparr>, \<lambda>v r. r\<lparr>LteScRI1 := v\<rparr>,
     \<lambda>v r. r\<lparr>LteScRI2 := v\<rparr>, \<lambda>v r. r\<lparr>LteScRI4 := v\<rparr>,
     \<lambda>v r. r\<lparr>LteScRI8 := v\<rparr>, \<lambda>v r. r\<lparr>strNouse8 := v\<rparr>]"


section \<open>Writing a line\<close>

fun commas :: "string list \<Rightarrow> string" where
  "commas [] = []"
| "commas [x] = x"
| "commas (x # y # ys) = x @ CHR '','' # commas (y # ys)"

definition MRETableHead :: string where
  "MRETableHead =
     ''objectid,MmeUeS1apId,MmeGroupId,MmeCode,TimeStamp,EventType,MR.LteScRSRP,'' @
     ''MR.LteScRSRQ,MR.LteScEarfcn,MR.LteScPci,MR.LteNcRSRP,MR.LteNcRSRQ,'' @
     ''MR.LteNcEarfcn,MR.LteNcPci,MR.TdsPccpchRSCP,MR.TdsNcellUarfcn,'' @
     ''MR.TdsCellParameterId,MR.GsmNcellBcch,MR.GsmNcellCarrierRSSI,MR.GsmNcellNcc,'' @
     ''MR.GsmNcellBcc''"

definition MROTableHead :: string where
  "MROTableHead =
     ''objectid,MmeUeS1apId,MmeGroupId,MmeCode,TimeStamp,MR.LteScRSRP,MR.LteScRSRQ,'' @
     ''MR.LteScTadv,MR.LteSceNBRxTxTimeDiff,MR.LteScPHR,MR.LteScAOA,MR.LteScSinrUL,'' @
     ''MR.LteScEarfcn,MR.LteScPci,MR.LteNcRSRP,MR.LteNcRSRQ,MR.LteNcEarfcn,MR.LteNcPci,'' @
     ''MR.TdsPccpchRSCP,MR.TdsNcellUarfcn,MR.TdsCellParameterId,MR.GsmNcellBcch,'' @
     ''MR.GsmNcellCarrierRSSI,MR.GsmNcellNcc,MR.GsmNcellBcc,MR.LteScPUSCHPRBNum,'' @
     ''MR.LteScPDSCHPRBNum,MR.LteScBSR,MR.LteScRI1,MR.LteScRI2,MR.LteScRI4,MR.LteScRI8,'' @
     ''OVERLAPP_COVERAGE,MOD3_NCELLS,OVERSHOOT_AOA''"

definition mre_row :: "MREfile \<Rightarrow> string list" where
  "mre_row r = [
     objectId1 r, MmeUeS1apId2 r, MmeGroupId3 r, MmeCode4 r, TimeStamp5 r, EventType6 r,
     MR_LteScRSRP1 r, MR_LteScRSRQ2 r, MR_LteScEarfcn3 r, MR_LteScPci4 r, MR_LteNcRSRP5 r,
     MR_LteNcRSRQ6 r, MR_LteNcEarfcn7 r, MR_LteNcPci8 r, MR_TdsPccpchRSCP9 r,
     MR_TdsNcellUarfcn10 r, MR_TdsCellParameterId11 r, MR_GsmNcellBcch12 r,
     MR_GsmNcellCarrierRSSI13 r, MR_GsmNcellNcc14 r, MR_GsmNcellBcc15 r]"

definition mro_row :: "MROfile \<Rightarrow> string list" where
  "mro_row r = [
     objectid r, MmeUeS1apId r, MmeGroupId r, MmeCode r, TimeStamp r, LteScRSRP r, LteScRSRQ r,
     LteScTadv r, LteSceNBRxTxTimeDiff r, LteScPHR r, LteScAOA r, LteScSinrUL r, LteScEarfcn r,
     LteScPci r, LteNcRSRP r, LteNcRSRQ r, LteNcEarfcn r, LteNcPci r, TdsPccpchRSCP r,
     TdsNcellUarfcn r, TdsCellParameterId r, GsmNcellBcch r, GsmNcellCarrierRSSI r,
     GsmNcellNcc r, GsmNcellBcc r, LteScPUSCHPRBNum r, LteScPDSCHPRBNum r, LteScBSR r,
     LteScRI1 r, LteScRI2 r, LteScRI4 r, LteScRI8 r, show_int (OVERLAPP_COVERAGE r),
     show_int (MOD3_NCELLS r), show_int (OVERSHOOT_AOA r)]"


section \<open>Words\<close>

text \<open>A word is not empty and has no blank in it.\<close>

definition is_word :: "string \<Rightarrow> bool" where
  "is_word w \<longleftrightarrow> w \<noteq> [] \<and> (\<forall>c \<in> set w. \<not> isspace c)"

lemma words_blank [simp]: "\<forall>c \<in> set s. isspace c \<Longrightarrow> words s = []"
  by (simp add: words.simps [of s] dropWhile_eq_Nil_conv Let_def)

lemma words_Cons:
  assumes "is_word w" "isspace c"
  shows "words (w @ c # s) = w # words s"
proof -
  have "dropWhile isspace (w @ c # s) = w @ c # s"
    using assms(1) by (cases w) (auto simp: is_word_def)
  moreover have "takeWhile (\<lambda>c. \<not> isspace c) (w @ c # s) = w"
    "dropWhile (\<lambda>c. \<not> isspace c) (w @ c # s) = c # s"
    using assms by (auto simp: is_word_def takeWhile_append2 dropWhile_append2 split: if_splits)
  moreover have "words (c # s) = words s"
    using assms(2) by (simp add: words.simps [of "c # s"] words.simps [of s])
  ultimately show ?thesis
    using assms(1) by (simp add: words.simps [of "w @ c # s"] is_word_def)
qed

text \<open>A line made of words, each followed by a blank.\<close>

definition line_of :: "string list \<Rightarrow> string" where
  "line_of ws = concat (map (\<lambda>w. w @ '' '') ws) @ [newline]"

lemma words_line_of: "\<forall>w \<in> set ws. is_word w \<Longrightarrow> words (line_of ws) = ws"
proof (induction ws)
  case Nil
  have "isspace newline" by (simp add: isspace_def)
  then show ?case by (simp add: line_of_def)
next
  case (Cons w ws)
  have "isspace (CHR '' '')" by (simp add: isspace_def)
  then show ?case using Cons by (simp add: line_of_def words_Cons)
qed

text \<open>
  Words that are as many as the fields and fit are stored one by one; a word that does not
  fit is an access outside the array.
\<close>

lemma scan_words_ok:
  "length ws = length fs \<Longrightarrow> \<forall>w \<in> set ws. length w < USE_SIZE \<Longrightarrow>
   scan_words ws fs r = Inr (fold (\<lambda>(f, w). f w) (zip fs ws) r)"
  by (induction ws fs r rule: scan_words.induct) auto

lemma scan_words_overrun:
  "i < length ws \<Longrightarrow> i < length fs \<Longrightarrow> USE_SIZE \<le> length (ws ! i) \<Longrightarrow>
   scan_words ws fs r = Inl OutOfBounds"
proof (induction ws fs r arbitrary: i rule: scan_words.induct)
  case (3 w ws f fs r)
  then show ?case by (cases i) auto
qed auto

end
