(* ===== verification/MrConvert.thy ===== *)
theory MrConvert
  imports MrFields
begin

text \<open>
  The program \<^verbatim>\<open>src/temp/dealMROandMRE.cpp\<close>: it copies measurement reports to
  \<^verbatim>\<open>/home/hu_file\<close>, unpacks them, and turns each MRE and MRO file into a CSV file under
  \<^verbatim>\<open>/home/saveFile\<close>. The commands it runs are recorded; what they do to the files is the
  environment's: it answers from the list of commands so far what a directory lists and
  what a file contains. The functions of the source that end without a \<open>return\<close> have no
  value here; no caller uses one.
\<close>

section \<open>State\<close>

definition MAX_SIZE :: nat where "MAX_SIZE = 1024"

definition FILE_PATH :: string where "FILE_PATH = ''/home/hu_file''"

definition SAVE_FILE_PATH :: string where "SAVE_FILE_PATH = ''/home/saveFile''"

definition MRE :: int where "MRE = 0"

definition MRO :: int where "MRO = 1"

record mr_env =
  list_dir :: "string list \<Rightarrow> string list option"
  read_file :: "string list \<Rightarrow> string \<Rightarrow> string option"
  can_create :: "string \<Rightarrow> bool"

record mr =
  OVERLAPP :: int
  MOD3 :: int
  OVERSHOOT :: int
  vecMRE :: "MREfile list"
  vecMRO :: "MROfile list"
  commands :: "string list"
  written :: "(string \<times> string) list"
  out :: string

definition mr_init :: mr where
  "mr_init = \<lparr>OVERLAPP = 0, MOD3 = 0, OVERSHOOT = 0, vecMRE = [], vecMRO = [], commands = [],
     written = [], out = []\<rparr>"

text \<open>A string built in a buffer of \<open>MAX_SIZE\<close> characters; a command built and run.\<close>

definition buffer :: "string \<Rightarrow> string res" where
  "buffer t = (if length t < MAX_SIZE then Inr t else Inl OutOfBounds)"

definition run :: "string \<Rightarrow> mr \<Rightarrow> mr res" where
  "run cmd s = bindE (buffer cmd) (\<lambda>c. Inr (s\<lparr>commands := commands s @ [c]\<rparr>))"

definition say :: "string \<Rightarrow> mr \<Rightarrow> mr" where
  "say t s = s\<lparr>out := out s @ t\<rparr>"


section \<open>Files and names\<close>

definition gunZipFile :: "mr \<Rightarrow> mr res" where
  "gunZipFile s = run (''gunzip '' @ FILE_PATH @ ''/*.gz'') s"

text \<open>\<open>getDirectoryList\<close>; when it cannot open the directory the program exits.\<close>

definition getDirectoryList :: "mr_env \<Rightarrow> mr \<Rightarrow> string list option \<times> mr" where
  "getDirectoryList env s =
     (case list_dir env (commands s) of
        None \<Rightarrow> (None, say (''open dir is not SUCCESS'' @ FILE_PATH @ endl) s)
      | Some ds \<Rightarrow> (Some ds, s))"

text \<open>The walk to the first \<open>R\<close> does not look for the end of the name.\<close>

fun judgeFileType :: "string \<Rightarrow> int res" where
  "judgeFileType [] = Inl OutOfBounds"
| "judgeFileType (c # s) =
     (if c \<noteq> CHR ''R'' then judgeFileType s
      else Inr (case s of [] \<Rightarrow> - 1
                | d # _ \<Rightarrow> if d = CHR ''E'' then MRE else if d = CHR ''O'' then MRO else - 1))"

definition quote_char :: char where "quote_char = CHR 0x22"

definition deleteSomething :: "string \<Rightarrow> mr \<Rightarrow> mr res" where
  "deleteSomething sFilename s =
     bindE (run (''sed -i 's#'' @ [quote_char] @ ''# #g' '' @ sFilename) s) (\<lambda>s1.
     bindE (run (''sed -i 's#^[[:space:]]*##g' '' @ sFilename) s1) (\<lambda>s2.
     bindE (run (''sed -i 's#=# #g' '' @ sFilename) s2) (\<lambda>s3.
       run (''sed -i 's#># #g' '' @ sFilename) s3)))"

text \<open>
  The name of the CSV file: from the first \<open>T\<close> behind a slash up to the first dot. Both
  walks run past the end of the name when there is no such place.
\<close>

fun from_T :: "string \<Rightarrow> string res" where
  "from_T (c # d # s) =
     (if c = CHR ''/'' \<and> d = CHR ''T'' then Inr (d # s) else from_T (d # s))"
| "from_T _ = Inl OutOfBounds"

definition upto_dot :: "string \<Rightarrow> string res" where
  "upto_dot s =
     (if CHR ''.'' \<in> set s then Inr (takeWhile (\<lambda>c. c \<noteq> CHR ''.'') s) else Inl OutOfBounds)"

definition csv_path :: "string \<Rightarrow> string res" where
  "csv_path sFilename =
     bindE (from_T sFilename) (\<lambda>p2. bindE (upto_dot p2) (\<lambda>n.
     bindE (buffer (n @ ''.csv'')) (\<lambda>csvName.
       buffer (SAVE_FILE_PATH @ ''/'' @ csvName))))"

definition csv_text :: "string \<Rightarrow> string list list \<Rightarrow> string" where
  "csv_text head rows = head @ endl @ concat (map (\<lambda>r. commas r @ endl) rows)"

definition createCsvFile :: "mr_env \<Rightarrow> int \<Rightarrow> string \<Rightarrow> mr \<Rightarrow> mr res" where
  "createCsvFile env flag sFilename s =
     bindE (csv_path sFilename) (\<lambda>path.
       if \<not> can_create env path then Inr (say (''create '' @ path @ ''err'' @ endl) s)
       else bindE (buffer (if flag = MRE then MRETableHead else MROTableHead)) (\<lambda>head.
         Inr (s\<lparr>written := written s @ [(path, csv_text head
            (if flag = MRE then map mre_row (vecMRE s) else map mro_row (vecMRO s)))]\<rparr>)))"


section \<open>The two formats\<close>

text \<open>
  What \<open>fgets\<close> puts into \<open>sBuff\<close>, as a string: the line up to a NUL in it, if any. The
  line buffers of the loops below; the buffer of the current object is \<open>None\<close> while it has
  not been assigned.
\<close>

definition sBuff_of :: "string \<Rightarrow> string" where
  "sBuff_of l = takeWhile (\<lambda>c. c \<noteq> NUL) l"

fun file_lines :: "nat \<Rightarrow> string \<Rightarrow> string list" where
  "file_lines 0 t = []"
| "file_lines (Suc n) t =
     (if t = [] then []
      else let (l, r) = fgets (MAX_SIZE - 1) t in sBuff_of l # file_lines n r)"

fun mre_loop :: "string list \<Rightarrow> MREfile option \<Rightarrow> MREfile list \<Rightarrow> MREfile list res" where
  "mre_loop [] obj vec = Inr vec"
| "mre_loop (sBuff # ls) obj vec =
     (if strstr sBuff ''<object'' \<noteq> None
      then bindE (sscanf_s sBuff mre_object_fields MREfile_zero) (\<lambda>r. mre_loop ls (Some r) vec)
      else if strstr sBuff ''<v'' \<noteq> None
      then (case obj of
              None \<Rightarrow> Inl Uninitialised
            | Some r \<Rightarrow> bindE (sscanf_s sBuff mre_value_fields r) (\<lambda>p. mre_loop ls obj (vec @ [p])))
      else mre_loop ls obj vec)"

text \<open>
  The counters of an MRO row: an overlapping neighbour (power within 6 of the serving
  cell on the same frequency), one with the same remainder modulo 3, and the angle.
\<close>

definition overlaps :: "MROfile \<Rightarrow> bool res" where
  "overlaps p =
     bindE (atoi (LteScRSRP p)) (\<lambda>a. bindE (atoi (LteNcRSRP p)) (\<lambda>b.
     bindE (ck (a - b)) (\<lambda>d.
       if d < 6
       then bindE (atoi (LteScEarfcn p)) (\<lambda>e. bindE (atoi (LteNcEarfcn p)) (\<lambda>f. Inr (e = f)))
       else Inr False)))"

definition same_mod3 :: "MROfile \<Rightarrow> bool res" where
  "same_mod3 p =
     bindE (atoi (LteScPci p)) (\<lambda>a. bindE (atoi (LteNcPci p)) (\<lambda>b. Inr (crem a 3 = crem b 3)))"

definition overshoot :: "MROfile \<Rightarrow> int res" where
  "overshoot p =
     bindE (atoi (LteScAOA p)) (\<lambda>a.
       Inr (if cdiv a 2 < - 45 \<or> cdiv a 2 > 45 then 0 else 1))"

definition mro_count :: "MROfile \<Rightarrow> mr \<Rightarrow> mr res" where
  "mro_count p s =
     bindE (overlaps p) (\<lambda>ov.
     bindE (if ov then bindE (ck (OVERLAPP s + 1)) (\<lambda>n.
              bindE (same_mod3 p) (\<lambda>m3.
                if m3 then bindE (ck (MOD3 s + 1)) (\<lambda>k. Inr (s\<lparr>OVERLAPP := n, MOD3 := k\<rparr>))
                else Inr (s\<lparr>OVERLAPP := n\<rparr>)))
            else Inr s) (\<lambda>s1.
     bindE (overshoot p) (\<lambda>o1. Inr (s1\<lparr>OVERSHOOT := o1\<rparr>))))"

fun mro_loop :: "string list \<Rightarrow> MROfile option \<Rightarrow> mr \<Rightarrow> mr res" where
  "mro_loop [] obj s = Inr s"
| "mro_loop (sBuff # ls) obj s =
     (if strstr sBuff ''<object'' \<noteq> None
      then bindE (sscanf_s sBuff mro_object_fields MROfile_zero) (\<lambda>r.
             mro_loop ls (Some r) (s\<lparr>OVERLAPP := 0, MOD3 := 0\<rparr>))
      else if strstr sBuff ''<v'' \<noteq> None
      then (case obj of
              None \<Rightarrow> Inl Uninitialised
            | Some r \<Rightarrow>
                bindE (sscanf_s sBuff mro_value_fields r) (\<lambda>p.
                bindE (mro_count p s) (\<lambda>s1.
                  mro_loop ls obj (s1\<lparr>vecMRO := vecMRO s1 @
                    [p\<lparr>OVERLAPP_COVERAGE := OVERLAPP s1, MOD3_NCELLS := MOD3 s1,
                       OVERSHOOT_AOA := OVERSHOOT s1\<rparr>]\<rparr>))))
      else if strstr sBuff ''</measurement'' \<noteq> None then Inr s
      else mro_loop ls obj s)"

definition dealingFile :: "mr_env \<Rightarrow> string \<Rightarrow> int \<Rightarrow> mr \<Rightarrow> mr res" where
  "dealingFile env sFilename flag s =
     (if flag = - 1
      then Inr (say (''the file's type '' @ sFilename @ '' is not needed deal'' @ endl) s)
      else bindE (deleteSomething sFilename s) (\<lambda>s1.
        case read_file env (commands s1) sFilename of
          None \<Rightarrow> Inr (say (''fopen error '' @ sFilename @ endl) s1)
        | Some t \<Rightarrow>
            let lines = file_lines (length t) t in
            if flag = MRE
            then bindE (mre_loop lines None (vecMRE s1)) (\<lambda>v.
                   createCsvFile env MRE sFilename (s1\<lparr>vecMRE := v\<rparr>))
            else bindE (mro_loop lines None s1) (\<lambda>s2. createCsvFile env MRO sFilename s2)))"


section \<open>The main program\<close>

text \<open>The loop over the directory. Where \<open>main\<close> calls \<open>exit(0)\<close> the run ends there.\<close>

fun deal_names :: "mr_env \<Rightarrow> string list \<Rightarrow> mr \<Rightarrow> mr res" where
  "deal_names env [] s = Inr (say (''have dealed all files '' @ endl) s)"
| "deal_names env (d # ds) s =
     (if d = ''..'' \<or> d = ''.'' then deal_names env ds s
      else bindE (buffer (FILE_PATH @ ''/'' @ d)) (\<lambda>sFilename.
           bindE (judgeFileType d) (\<lambda>fileType.
           bindE (dealingFile env sFilename fileType s) (\<lambda>s1. deal_names env ds s1))))"

definition mr_main :: "mr_env \<Rightarrow> string list \<Rightarrow> mr res" where
  "mr_main env argv =
     (if length argv \<noteq> 2
      then Inr (say (''Paramter err!!'' @ endl @ '' The format is ./dealFile filePath'' @ endl) mr_init)
      else let arg = argv ! 1 in
        bindE (run (''mkdir -p '' @ FILE_PATH) mr_init) (\<lambda>s1.
        bindE (run (''mkdir -p '' @ SAVE_FILE_PATH) s1) (\<lambda>s2.
        bindE (if arg = [] then Inl OutOfBounds else Inr (last arg)) (\<lambda>c.
        bindE (run (''rm -rf '' @ FILE_PATH) s2) (\<lambda>s3.
        bindE (run (''cp '' @ arg @ (if c = CHR ''/'' then ''* '' else ''/* '') @ FILE_PATH) s3) (\<lambda>s4.
        bindE (gunZipFile s4) (\<lambda>s5.
          case getDirectoryList env s5 of
            (None, s6) \<Rightarrow> Inr s6
          | (Some ds, s5') \<Rightarrow>
              bindE (deal_names env ds s5') (\<lambda>s6.
              bindE (run ''cd /home'' (say (''delete hu_file.........'' @ endl) s6)) (\<lambda>s7.
                run ''rm -rf hu_file'' s7)))))))))"


section \<open>Lines\<close>

lemma strstr_skip:
  "c \<notin> set xs \<Longrightarrow> strstr (xs @ s) (c # p) = map_option ((+) (length xs)) (strstr s (c # p))"
proof (induction xs)
  case (Cons x xs)
  then show ?case
    by (simp add: strstr.simps [of "x # xs @ s"] option.map_comp comp_def)
qed (cases "strstr s (c # p)"; simp)

lemma strstr_none: "c \<notin> set s \<Longrightarrow> strstr s (c # p) = None"
  using strstr_skip [of c s "[]" p] by (simp add: strstr.simps [of "[]"])

lemma strstr_prefix: "strstr (p @ s) p = Some 0"
  by (simp add: strstr.simps [of "p @ s"])

lemma file_lines_Cons:
  assumes "newline \<notin> set l" "NUL \<notin> set l" "length l < MAX_SIZE - 1" "n \<ge> Suc (length t)"
  shows "file_lines n (l @ newline # t) = (l @ [newline]) # file_lines (n - 1) t"
proof -
  have "takeWhile (\<lambda>c. c \<noteq> NUL) (l @ [newline]) = l @ [newline]"
    using assms(2) by (subst takeWhile_eq_all_conv) auto
  then show ?thesis
    using assms fgets_line [OF assms(1,3), of t] by (cases n) (simp_all add: sBuff_of_def)
qed

text \<open>A text of lines that fit into the buffer is read line by line.\<close>

definition fitting :: "string \<Rightarrow> bool" where
  "fitting l \<longleftrightarrow> newline \<notin> set l \<and> NUL \<notin> set l \<and> length l < MAX_SIZE - 1"

lemma file_lines_ok:
  "\<forall>l \<in> set ls. fitting l \<Longrightarrow> length (concat (map (\<lambda>l. l @ [newline]) ls)) \<le> n \<Longrightarrow>
   file_lines n (concat (map (\<lambda>l. l @ [newline]) ls)) = map (\<lambda>l. l @ [newline]) ls"
proof (induction ls arbitrary: n)
  case Nil
  then show ?case by (cases n) simp_all
next
  case (Cons l ls)
  then show ?case
    using file_lines_Cons [of l "concat (map (\<lambda>l. l @ [newline]) ls)" n] by (auto simp: fitting_def)
qed


section \<open>MRE files\<close>

lemma mre_loop_vec: "mre_loop ls obj vec = bindE (mre_loop ls obj []) (\<lambda>v. Inr (vec @ v))"
proof (induction ls arbitrary: obj vec)
  case (Cons l ls)
  have push: "mre_loop ls obj (vec @ [p]) =
      bindE (mre_loop ls obj [p]) (\<lambda>v. Inr (vec @ v))" for obj p
    using Cons.IH [of obj "vec @ [p]"] Cons.IH [of obj "[p]"] by (simp add: bindE_assoc)
  show ?case
    using Cons.IH [of _ vec] push
    by (cases obj) (auto simp: bindE_assoc intro!: bindE_cong)
qed simp

text \<open>The rows of one MRE file, read by itself.\<close>

definition mre_rows :: "string \<Rightarrow> MREfile list res" where
  "mre_rows t = mre_loop (file_lines (length t) t) None []"

lemma deleteSomething_ok:
  assumes "length f < 900"
  shows "\<exists>cs. deleteSomething f s = Inr (s\<lparr>commands := commands s @ cs\<rparr>)"
proof
  show "deleteSomething f s = Inr (s\<lparr>commands := commands s @
      [''sed -i 's#'' @ [quote_char] @ ''# #g' '' @ f, ''sed -i 's#^[[:space:]]*##g' '' @ f,
       ''sed -i 's#=# #g' '' @ f, ''sed -i 's#># #g' '' @ f]\<rparr>)"
    using assms by (simp add: deleteSomething_def run_def buffer_def MAX_SIZE_def)
qed

lemma length_heads: "length MRETableHead < MAX_SIZE" "length MROTableHead < MAX_SIZE"
  by code_simp+

lemma dealingFile_MRE:
  assumes "length f < 900" "\<forall>cs. read_file env cs f = Some t" "mre_rows t = Inr R"
    and "csv_path f = Inr path" "can_create env path"
  shows "\<exists>cs. dealingFile env f MRE s = Inr (s\<lparr>commands := commands s @ cs, vecMRE := vecMRE s @ R,
    written := written s @ [(path, csv_text MRETableHead (map mre_row (vecMRE s @ R)))]\<rparr>)"
proof -
  obtain cs where cs: "deleteSomething f s = Inr (s\<lparr>commands := commands s @ cs\<rparr>)"
    using deleteSomething_ok [OF assms(1)] by blast
  have "mre_loop (file_lines (length t) t) None (vecMRE s) = Inr (vecMRE s @ R)"
    using assms(3) mre_loop_vec [of _ None "vecMRE s"] by (simp add: mre_rows_def)
  then show ?thesis
    using assms cs length_heads
    by (auto simp: dealingFile_def MRE_def createCsvFile_def buffer_def Let_def intro!: exI [of _ cs])
qed

text \<open>A directory of MRE files: their names, their texts, the rows in each, the CSV paths.\<close>

definition mre_dir :: "mr_env \<Rightarrow> (string \<Rightarrow> MREfile list) \<Rightarrow> (string \<Rightarrow> string) \<Rightarrow> string list \<Rightarrow> bool" where
  "mre_dir env R path ds \<longleftrightarrow> (\<forall>d \<in> set ds. d \<noteq> ''.'' \<and> d \<noteq> ''..'' \<and> length d < 800 \<and>
     judgeFileType d = Inr MRE \<and>
     (\<exists>t. (\<forall>cs. read_file env cs (FILE_PATH @ ''/'' @ d) = Some t) \<and> mre_rows t = Inr (R d)) \<and>
     csv_path (FILE_PATH @ ''/'' @ d) = Inr (path d) \<and> can_create env (path d))"

lemma deal_names_MRE:
  "mre_dir env R path ds \<Longrightarrow>
   \<exists>s'. deal_names env ds s = Inr s' \<and> vecMRE s' = vecMRE s @ concat (map R ds) \<and>
     written s' = written s @ map (\<lambda>k. (path (ds ! k),
       csv_text MRETableHead (map mre_row (vecMRE s @ concat (map R (take (Suc k) ds)))))) [0..<length ds]"
proof (induction ds arbitrary: s)
  case Nil
  then show ?case by (simp add: say_def)
next
  case (Cons d ds)
  let ?f = "FILE_PATH @ ''/'' @ d"
  obtain t where d: "d \<noteq> ''.''" "d \<noteq> ''..''" "length d < 800" "judgeFileType d = Inr MRE"
    "\<forall>cs. read_file env cs ?f = Some t" "mre_rows t = Inr (R d)" "csv_path ?f = Inr (path d)"
    "can_create env (path d)"
    using Cons.prems by (auto simp: mre_dir_def)
  have len: "length ?f < 900" using d(3) by (simp add: FILE_PATH_def)
  obtain cs where cs: "dealingFile env ?f MRE s = Inr (s\<lparr>commands := commands s @ cs,
      vecMRE := vecMRE s @ R d, written := written s @
        [(path d, csv_text MRETableHead (map mre_row (vecMRE s @ R d)))]\<rparr>)" (is "_ = Inr ?s1")
    using dealingFile_MRE [OF len d(5-8)] by blast
  obtain s' where s': "deal_names env ds ?s1 = Inr s'" "vecMRE s' = vecMRE ?s1 @ concat (map R ds)"
    "written s' = written ?s1 @ map (\<lambda>k. (path (ds ! k),
       csv_text MRETableHead (map mre_row (vecMRE ?s1 @ concat (map R (take (Suc k) ds)))))) [0..<length ds]"
    using Cons.IH [of ?s1] Cons.prems by (auto simp: mre_dir_def)
  have "deal_names env (d # ds) s = Inr s'"
    using d(1-4) len cs s'(1) by (simp add: buffer_def MAX_SIZE_def)
  moreover have "[0..<length (d # ds)] = 0 # map Suc [0..<length ds]"
    by (simp add: upt_conv_Cons map_Suc_upt del: upt_Suc)
  ultimately show ?case
    using s'(2,3) by (intro exI [of _ s']) (simp add: comp_def)
qed

subsection \<open>A well-formed block\<close>

text \<open>
  The lines of a measurement block as \<open>deleteSomething\<close> leaves them: one line with the six
  attributes of the object, then lines with fifteen values each.
\<close>

definition spaced :: "string list \<Rightarrow> string" where
  "spaced ws = concat (map (\<lambda>w. w @ '' '') ws)"

definition object_words :: "string list \<Rightarrow> string list" where
  "object_words c = [''<object'', ''id'', c ! 0, ''MmeUeS1apId'', c ! 1, ''MmeGroupId'', c ! 2,
     ''MmeCode'', c ! 3, ''TimeStamp'', c ! 4, ''EventType'', c ! 5]"

definition value_words :: "string list \<Rightarrow> string list" where
  "value_words v = ''<v'' # v @ [''</v'']"

definition mre_text :: "string list \<Rightarrow> string list list \<Rightarrow> string" where
  "mre_text c vs = concat (map (\<lambda>l. l @ [newline])
     (spaced (object_words c) # map (\<lambda>v. spaced (value_words v)) vs))"

definition column :: "string \<Rightarrow> bool" where
  "column w \<longleftrightarrow> is_word w \<and> length w < USE_SIZE \<and> CHR ''<'' \<notin> set w \<and> NUL \<notin> set w"

lemma line_of_spaced: "line_of ws = spaced ws @ [newline]"
  by (simp add: line_of_def spaced_def)

lemma spaced_simps [simp]: "spaced [] = []" "spaced (w # ws) = w @ '' '' @ spaced ws"
  "spaced (ws @ us) = spaced ws @ spaced us"
  by (simp_all add: spaced_def)

lemma column_newline: "column w \<Longrightarrow> newline \<notin> set w"
proof -
  have "isspace newline" by (simp add: isspace_def)
  then show "column w \<Longrightarrow> newline \<notin> set w" unfolding column_def is_word_def by blast
qed

lemma spaced_set:
  "\<forall>w \<in> set ws. column w \<Longrightarrow> newline \<notin> set (spaced ws) \<and> NUL \<notin> set (spaced ws) \<and> CHR ''<'' \<notin> set (spaced ws)"
  using column_newline by (induction ws) (auto simp: column_def)

lemma is_word_labels [simp]:
  "is_word ''<object''" "is_word ''id''" "is_word ''MmeUeS1apId''" "is_word ''MmeGroupId''"
  "is_word ''MmeCode''" "is_word ''TimeStamp''" "is_word ''EventType''" "is_word ''<v''" "is_word ''</v''"
  by code_simp+

lemma object_line_scan:
  assumes "length c = 6" "\<forall>w \<in> set c. column w"
  shows "sscanf_s (spaced (object_words c) @ [newline]) mre_object_fields MREfile_zero =
    Inr (fold (\<lambda>(f, w). f w) (zip mre_object_fields (object_words c)) MREfile_zero)"
proof -
  have "\<forall>w \<in> set (object_words c). is_word w"
    using assms by (simp add: object_words_def column_def)
  then have "words (spaced (object_words c) @ [newline]) = object_words c"
    using words_line_of by (simp add: line_of_spaced)
  moreover have "\<forall>w \<in> set (object_words c). length w < USE_SIZE"
    using assms by (simp add: object_words_def column_def USE_SIZE_def)
  ultimately show ?thesis
    unfolding sscanf_s_def by (simp add: scan_words_ok object_words_def mre_object_fields_def)
qed

lemma value_line_scan:
  assumes "length v = 15" "\<forall>w \<in> set v. column w"
  shows "sscanf_s (spaced (value_words v) @ [newline]) mre_value_fields r =
    Inr (fold (\<lambda>(f, w). f w) (zip mre_value_fields (value_words v)) r)"
proof -
  have "\<forall>w \<in> set (value_words v). is_word w" "\<forall>w \<in> set (value_words v). length w < USE_SIZE"
    using assms by (auto simp: value_words_def column_def USE_SIZE_def)
  moreover from this have "words (spaced (value_words v) @ [newline]) = value_words v"
    using words_line_of by (simp add: line_of_spaced)
  moreover have "length (value_words v) = length mre_value_fields"
    using assms(1) by (simp add: value_words_def mre_value_fields_def)
  ultimately show ?thesis
    unfolding sscanf_s_def by (simp add: scan_words_ok)
qed

lemma object_line_is_object: "strstr (spaced (object_words c) @ x) ''<object'' \<noteq> None"
  using strstr_prefix [of "''<object''"] by (simp add: object_words_def)

lemma value_line_is_value:
  assumes "\<forall>w \<in> set v. column w"
  shows "strstr (spaced (value_words v) @ [newline]) ''<object'' = None"
    "strstr (spaced (value_words v) @ [newline]) ''<v'' \<noteq> None"
proof -
  let ?rest = "''</v '' @ [newline]"
  have line: "spaced (value_words v) @ [newline] = CHR ''<'' # (''v '' @ spaced v) @ ?rest"
    by (simp add: value_words_def)
  have "CHR ''<'' \<notin> set (''v '' @ spaced v)" using spaced_set [OF assms] by simp
  then have "strstr ((''v '' @ spaced v) @ ?rest) ''<object'' = None"
    using strstr_skip [of "CHR ''<''" "''v '' @ spaced v" ?rest "''object''"]
    by (simp add: strstr.simps [of "_ # _"] strstr.simps [of "[]"])
  then show "strstr (spaced (value_words v) @ [newline]) ''<object'' = None"
    unfolding line by (subst strstr.simps) simp
  show "strstr (spaced (value_words v) @ [newline]) ''<v'' \<noteq> None"
    using strstr_prefix [of "''<v''"] by (simp add: value_words_def)
qed

lemma row_of_scan:
  assumes "length c = 6" "length v = 15"
  shows "mre_row (fold (\<lambda>(f, w). f w) (zip mre_value_fields (value_words v))
    (fold (\<lambda>(f, w). f w) (zip mre_object_fields (object_words c)) MREfile_zero)) = c @ v"
proof -
  obtain c1 c2 c3 c4 c5 c6 where c: "c = [c1, c2, c3, c4, c5, c6]"
    using assms(1) by (auto simp: eval_nat_numeral length_Suc_conv)
  obtain v1 v2 v3 v4 v5 v6 v7 v8 v9 v10 v11 v12 v13 v14 v15 where
    v: "v = [v1, v2, v3, v4, v5, v6, v7, v8, v9, v10, v11, v12, v13, v14, v15]"
    using assms(2) by (auto simp: eval_nat_numeral length_Suc_conv)
  show ?thesis
    by (simp add: c v object_words_def value_words_def mre_object_fields_def mre_value_fields_def
        mre_row_def)
qed

definition good_block :: "string list \<Rightarrow> string list list \<Rightarrow> bool" where
  "good_block c vs \<longleftrightarrow> length c = 6 \<and> (\<forall>w \<in> set c. column w) \<and>
     length (spaced (object_words c)) < MAX_SIZE - 1 \<and>
     (\<forall>v \<in> set vs. length v = 15 \<and> (\<forall>w \<in> set v. column w) \<and>
        length (spaced (value_words v)) < MAX_SIZE - 1)"

lemma mre_loop_values:
  assumes "length c = 6" "\<forall>v \<in> set vs. length v = 15 \<and> (\<forall>w \<in> set v. column w)"
    and "r = fold (\<lambda>(f, w). f w) (zip mre_object_fields (object_words c)) MREfile_zero"
  shows "\<exists>R. mre_loop (map (\<lambda>v. spaced (value_words v) @ [newline]) vs) (Some r) vec = Inr (vec @ R) \<and>
    map mre_row R = map (\<lambda>v. c @ v) vs"
  using assms(2)
proof (induction vs arbitrary: vec)
  case (Cons v vs)
  let ?p = "fold (\<lambda>(f, w). f w) (zip mre_value_fields (value_words v)) r"
  have v: "length v = 15" "\<forall>w \<in> set v. column w" using Cons.prems by simp_all
  obtain R where R: "mre_loop (map (\<lambda>v. spaced (value_words v) @ [newline]) vs) (Some r) (vec @ [?p]) =
      Inr ((vec @ [?p]) @ R)" "map mre_row R = map (\<lambda>v. c @ v) vs"
    using Cons.IH [of "vec @ [?p]"] Cons.prems by auto
  have "mre_row ?p = c @ v" unfolding assms(3) by (rule row_of_scan [OF assms(1) v(1)])
  then show ?case
    using R value_line_is_value [OF v(2)] value_line_scan [OF v]
    by (intro exI [of _ "?p # R"]) simp
qed simp

lemma object_words_clean:
  assumes "length c = 6" "\<forall>w \<in> set c. column w"
  shows "newline \<notin> set (spaced (object_words c)) \<and> NUL \<notin> set (spaced (object_words c))"
proof -
  have "newline \<notin> set (c ! i) \<and> NUL \<notin> set (c ! i)" if "i < 6" for i
    using assms that column_newline by (auto simp: column_def)
  then show ?thesis by (simp add: object_words_def)
qed

lemma mre_rows_block:
  assumes "good_block c vs"
  shows "\<exists>R. mre_rows (mre_text c vs) = Inr R \<and> map mre_row R = map (\<lambda>v. c @ v) vs"
proof -
  let ?ls = "spaced (object_words c) # map (\<lambda>v. spaced (value_words v)) vs"
  have fit: "fitting l" if "l \<in> set ?ls" for l
  proof -
    have "newline \<notin> set (spaced (object_words c)) \<and> NUL \<notin> set (spaced (object_words c))"
      using assms object_words_clean by (simp add: good_block_def)
    moreover have "newline \<notin> set (spaced (value_words v)) \<and> NUL \<notin> set (spaced (value_words v))"
      if "v \<in> set vs" for v
      using assms that spaced_set [of v] by (auto simp: good_block_def value_words_def)
    ultimately show ?thesis
      using that assms by (auto simp: fitting_def good_block_def)
  qed
  have lines: "file_lines (length (mre_text c vs)) (mre_text c vs) =
      (spaced (object_words c) @ [newline]) # map (\<lambda>v. spaced (value_words v) @ [newline]) vs"
    using file_lines_ok [of ?ls "length (mre_text c vs)"] fit by (simp add: mre_text_def comp_def)
  have c: "length c = 6" "\<forall>w \<in> set c. column w" using assms by (simp_all add: good_block_def)
  obtain R where "mre_loop (map (\<lambda>v. spaced (value_words v) @ [newline]) vs)
      (Some (fold (\<lambda>(f, w). f w) (zip mre_object_fields (object_words c)) MREfile_zero)) [] = Inr ([] @ R)"
    "map mre_row R = map (\<lambda>v. c @ v) vs"
    using mre_loop_values [OF c(1) _ refl] assms unfolding good_block_def by blast
  then show ?thesis
    unfolding mre_rows_def lines using object_line_scan [OF c] object_line_is_object [of c "[newline]"]
    by auto
qed


section \<open>The counters of MRO files\<close>

definition row_ok :: "nat \<Rightarrow> MROfile \<Rightarrow> bool" where
  "row_ok n r \<longleftrightarrow> 0 \<le> MOD3_NCELLS r \<and> MOD3_NCELLS r \<le> OVERLAPP_COVERAGE r \<and>
     OVERLAPP_COVERAGE r \<le> int n \<and> OVERSHOOT_AOA r \<in> {0, 1}"

definition counters_ok :: "mr \<Rightarrow> bool" where
  "counters_ok s \<longleftrightarrow> 0 \<le> MOD3 s \<and> MOD3 s \<le> OVERLAPP s \<and> OVERLAPP s \<le> int (length (vecMRO s)) \<and>
     (\<forall>r \<in> set (vecMRO s). row_ok (length (vecMRO s)) r)"

lemma row_ok_Suc: "row_ok n r \<Longrightarrow> row_ok (Suc n) r"
  by (simp add: row_ok_def)

lemma mro_count_ok:
  "mro_count p s = Inr s1 \<Longrightarrow> 0 \<le> MOD3 s \<Longrightarrow> MOD3 s \<le> OVERLAPP s \<Longrightarrow>
   vecMRO s1 = vecMRO s \<and> 0 \<le> MOD3 s1 \<and> MOD3 s1 \<le> OVERLAPP s1 \<and> OVERLAPP s1 \<le> OVERLAPP s + 1 \<and>
   OVERSHOOT s1 \<in> {0, 1}"
  by (auto simp: mro_count_def overshoot_def ck_def bindE_eq_Inr split: if_splits)

lemma mro_loop_counters: "mro_loop ls obj s = Inr s' \<Longrightarrow> counters_ok s \<Longrightarrow> counters_ok s'"
proof (induction ls obj s rule: mro_loop.induct)
  case (2 l ls obj s)
  consider (object) "strstr l ''<object'' \<noteq> None"
    | (v) "strstr l ''<object'' = None" "strstr l ''<v'' \<noteq> None"
    | (other) "strstr l ''<object'' = None" "strstr l ''<v'' = None" by blast
  then show ?case
  proof cases
    case object
    then obtain r where "sscanf_s l mro_object_fields MROfile_zero = Inr r"
      "mro_loop ls (Some r) (s\<lparr>OVERLAPP := 0, MOD3 := 0\<rparr>) = Inr s'"
      using "2.prems"(1) by (auto simp: bindE_eq_Inr)
    moreover have "counters_ok (s\<lparr>OVERLAPP := 0, MOD3 := 0\<rparr>)"
      using "2.prems"(2) by (simp add: counters_ok_def)
    ultimately show ?thesis using "2.IH"(1) object by blast
  next
    case v
    let ?push = "\<lambda>p s1. s1\<lparr>vecMRO := vecMRO s1 @
      [p\<lparr>OVERLAPP_COVERAGE := OVERLAPP s1, MOD3_NCELLS := MOD3 s1, OVERSHOOT_AOA := OVERSHOOT s1\<rparr>]\<rparr>"
    obtain r p s1 where run: "obj = Some r" "sscanf_s l mro_value_fields r = Inr p"
      "mro_count p s = Inr s1" "mro_loop ls obj (?push p s1) = Inr s'"
      using v "2.prems"(1) by (auto simp: bindE_eq_Inr split: option.splits)
    have "counters_ok (?push p s1)"
      using mro_count_ok [OF run(3)] "2.prems"(2) row_ok_Suc
      by (auto simp: counters_ok_def) (auto simp: row_ok_def)
    then show ?thesis using "2.IH"(2) v run by blast
  next
    case other
    then show ?thesis using "2.IH"(3) "2.prems" by (auto split: if_splits)
  qed
qed simp

lemma counters_ok_fields [simp]:
  "counters_ok (s\<lparr>commands := c\<rparr>) = counters_ok s" "counters_ok (s\<lparr>written := w\<rparr>) = counters_ok s"
  "counters_ok (s\<lparr>vecMRE := v\<rparr>) = counters_ok s" "counters_ok (say t s) = counters_ok s"
  by (simp_all add: counters_ok_def say_def)

lemma run_counters: "run c s = Inr s' \<Longrightarrow> counters_ok s \<Longrightarrow> counters_ok s'"
  by (auto simp: run_def bindE_eq_Inr)

lemma dealingFile_counters: "dealingFile env f flag s = Inr s' \<Longrightarrow> counters_ok s \<Longrightarrow> counters_ok s'"
proof -
  assume run: "dealingFile env f flag s = Inr s'" and ok: "counters_ok s"
  have del: "counters_ok s1" if "deleteSomething f s = Inr s1" for s1
    using that ok by (auto simp: deleteSomething_def bindE_eq_Inr dest!: run_counters)
  have csv: "counters_ok t'" if "createCsvFile env g f t = Inr t'" "counters_ok t" for g t t'
    using that by (auto simp: createCsvFile_def bindE_eq_Inr split: if_splits)
  show ?thesis
    using run ok del csv mro_loop_counters
    by (auto simp: dealingFile_def bindE_eq_Inr Let_def split: if_splits option.splits)
qed

lemma deal_names_counters: "deal_names env ds s = Inr s' \<Longrightarrow> counters_ok s \<Longrightarrow> counters_ok s'"
proof (induction ds arbitrary: s)
  case (Cons d ds)
  then show ?case
    using dealingFile_counters by (auto simp: bindE_eq_Inr split: if_splits)
qed auto

lemma mr_main_counters: "mr_main env argv = Inr s \<Longrightarrow> counters_ok s"
proof -
  have init: "counters_ok mr_init" by (simp add: counters_ok_def mr_init_def)
  assume "mr_main env argv = Inr s"
  then show ?thesis
    using init unfolding mr_main_def gunZipFile_def getDirectoryList_def
    by (auto simp: bindE_eq_Inr Let_def split: if_splits option.splits
        dest!: run_counters deal_names_counters)
qed


section \<open>Errors\<close>

text \<open>A name without an \<open>R\<close> makes the program read behind it: it never becomes a message.\<close>

lemma judgeFileType_no_R: "CHR ''R'' \<notin> set d \<Longrightarrow> judgeFileType d = Inl OutOfBounds"
  by (induction d) auto

lemma deal_names_no_R:
  assumes "CHR ''R'' \<notin> set d" "d \<noteq> ''.''" "d \<noteq> ''..''"
  shows "deal_names env (d # ds) s = Inl OutOfBounds"
  using judgeFileType_no_R [OF assms(1)] assms(2,3) by (simp add: buffer_def)

text \<open>So does a path without a component that starts with \<open>T\<close>.\<close>

lemma from_T_none: "\<forall>i. Suc i < length s \<longrightarrow> \<not> (s ! i = CHR ''/'' \<and> s ! Suc i = CHR ''T'') \<Longrightarrow>
  from_T s = Inl OutOfBounds"
proof (induction s rule: from_T.induct)
  case (1 c d s)
  have "\<not> (c = CHR ''/'' \<and> d = CHR ''T'')" using 1(2) by (auto dest: spec [of _ 0])
  moreover have "\<forall>i. Suc i < length (d # s) \<longrightarrow>
      \<not> ((d # s) ! i = CHR ''/'' \<and> (d # s) ! Suc i = CHR ''T'')"
    using 1(2) by (metis Suc_less_eq length_Cons nth_Cons_Suc)
  ultimately show ?case using 1(1) by auto
qed simp_all


section \<open>Properties\<close>


text \<open>A well-formed block that serves the examples: one object with two lines of values.\<close>

definition demo_cols :: "string list" where
  "demo_cols = [''1'', ''2'', ''3'', ''4'', ''t'', ''A3'']"

definition demo_vals :: "string list list" where
  "demo_vals = [replicate 15 ''7'', replicate 15 ''-12'']"

lemma demo_block: "good_block demo_cols demo_vals"
  by code_simp

definition demo_env :: mr_env where
  "demo_env = \<lparr>list_dir = (\<lambda>cs. Some [''T_MRE.a'', ''T_MRE.b'']),
     read_file = (\<lambda>cs f. Some (mre_text demo_cols demo_vals)), can_create = (\<lambda>p. True)\<rparr>"


text \<open>
  C24: a well-formed block of an MRE file becomes the rows it describes: each row is the six
  attributes of the object followed by the fifteen values of its line, in the order of the
  CSV heading.
\<close>

theorem mre_block_roundtrip:
  assumes "good_block c vs"
  shows "\<exists>R. mre_rows (mre_text c vs) = Inr R \<and> map mre_row R = map (\<lambda>v. c @ v) vs"
  using assms by (rule mre_rows_block)

theorem mre_block_roundtrip_witness:
  "\<exists>R. mre_rows (mre_text demo_cols demo_vals) = Inr R \<and>
     map mre_row R = [demo_cols @ replicate 15 ''7'', demo_cols @ replicate 15 ''-12'']"
  using mre_block_roundtrip [OF demo_block] by (simp add: demo_vals_def)


definition mro_demo_env :: mr_env where
  "mro_demo_env = \<lparr>list_dir = (\<lambda>cs. Some [''T_MRO.x'']),
     read_file = (\<lambda>cs f. Some (
       ''<object id 1 MmeUeS1apId 2 MmeGroupId 3 MmeCode 4 TimeStamp t'' @ endl @
       ''<v 40 1 1 1 1 100 1 77 4 38 1 77 7'' @ endl @
       ''<v 40 1 1 1 1 9 1 77 4 20 1 77 7'' @ endl)),
     can_create = (\<lambda>p. True)\<rparr>"

lemma mro_demo_run:
  "case mr_main mro_demo_env [''dealFile'', ''/data''] of Inl _ \<Rightarrow> False
   | Inr s \<Rightarrow> map (\<lambda>r. (OVERLAPP_COVERAGE r, MOD3_NCELLS r, OVERSHOOT_AOA r)) (vecMRO s) =
       [(1, 1, 0), (1, 1, 1)]"
  by code_simp


end
