(* ===== verification/Wtmp.thy ===== *)
theory Wtmp
  imports CString
begin

text \<open>
  \<^verbatim>\<open>src/temp/wtmp.cpp\<close>: it reads lists of users, hosts and a day from a configuration file
  and rewrites the login records of \<^verbatim>\<open>/var/log/wtmp\<close>: the listed records are deleted, user
  and host names are replaced. The character arrays of \<open>struct utmp\<close> are lists of their
  size (32, 4, 32 and 256 characters). \<open>mktime\<close> depends on the time zone and is a parameter.
\<close>

section \<open>Data\<close>

record utmp =
  ut_type :: int
  ut_pid :: int
  ut_line :: "char list"
  ut_id :: "char list"
  ut_user :: "char list"
  ut_host :: "char list"
  tv_sec :: int
  tv_usec :: int

definition u32 :: "int \<Rightarrow> int" where "u32 x = x mod 4294967296"

record TwoString =
  str1 :: string
  str2 :: string

record conf =
  vUsersDelete :: "string list"
  vIpsDelete :: "string list"
  timeDelete :: int
  vUsersReplace :: "TwoString list"
  vIpsReplace :: "TwoString list"

definition conf_init :: conf where
  "conf_init = \<lparr>vUsersDelete = [], vIpsDelete = [], timeDelete = 0, vUsersReplace = [], vIpsReplace = []\<rparr>"

definition printUtmp :: "utmp \<Rightarrow> string res" where
  "printUtmp c =
     bindE (c_string (ut_line c)) (\<lambda>line. bindE (c_string (ut_id c)) (\<lambda>ident.
     bindE (c_string (ut_user c)) (\<lambda>user. bindE (c_string (ut_host c)) (\<lambda>host.
       Inr (''-------------------------------'' @ endl @
            ''ut_type = '' @ show_int (u32 (ut_type c)) @ endl @
            ''ut_pid = '' @ show_int (u32 (ut_pid c)) @ endl @
            ''ut_line = '' @ line @ endl @ ''ut_id = '' @ ident @ endl @
            ''ut_user = '' @ user @ endl @ ''ut_host = '' @ host @ endl @
            ''tv_sec = '' @ show_int (u32 (tv_sec c)) @ endl @
            ''tv_usec = '' @ show_int (u32 (tv_usec c)) @ endl)))))"


section \<open>The configuration file\<close>

text \<open>
  The tokens \<open>strtok\<close> finds with a comma as the only delimiter: the pieces between commas
  that are not empty. The loops write NULs into the current token only.
\<close>

fun tokens :: "string \<Rightarrow> string \<Rightarrow> string list" where
  "tokens [] cur = (if cur = [] then [] else [cur])"
| "tokens (c # s) cur =
     (if c = CHR '','' then (if cur = [] then tokens s [] else cur # tokens s [])
      else tokens s (cur @ [c]))"

definition strtok_all :: "string \<Rightarrow> string list" where
  "strtok_all s = tokens s []"

text \<open>What follows a key in a line, wherever the key stands in it.\<close>

definition after_key :: "string \<Rightarrow> string \<Rightarrow> string option" where
  "after_key line key = map_option (\<lambda>i. drop (i + length key) line) (strstr line key)"

text \<open>\<open>strtoul(ptr, NULL, 10)\<close>, stored into a \<open>uint32_t\<close>.\<close>

definition strtoul :: "string \<Rightarrow> int" where
  "strtoul s = (let v = int_value s in
     if 18446744073709551616 \<le> \<bar>v\<bar> then 18446744073709551615 else v mod 18446744073709551616)"

definition parse_day :: "(int \<Rightarrow> int \<Rightarrow> int \<Rightarrow> int) \<Rightarrow> string \<Rightarrow> int" where
  "parse_day mktime s =
     (let t = u32 (strtoul s);
          day = t mod 100;
          t1 = t div 100;
          month = t1 mod 100;
          year = t1 div 100
      in u32 (mktime (year - 1900) (month - 1) day))"

definition cut_star :: "string \<Rightarrow> string" where
  "cut_star t = takeWhile (\<lambda>c. c \<noteq> CHR ''*'') t"

definition split_equal :: "string \<Rightarrow> TwoString option" where
  "split_equal t =
     (if CHR ''='' \<in> set t
      then Some \<lparr>str1 = takeWhile (\<lambda>c. c \<noteq> CHR ''='') t, str2 = tl (dropWhile (\<lambda>c. c \<noteq> CHR ''='') t)\<rparr>
      else None)"

text \<open>
  One line, without its newline. The test \<open>ptr != '\0'\<close> compares a pointer and always
  holds; \<open>push_back\<close> of the NULL that \<open>strtok\<close> returns for an empty list constructs a
  string from NULL.
\<close>

definition conf_line :: "(int \<Rightarrow> int \<Rightarrow> int \<Rightarrow> int) \<Rightarrow> string \<Rightarrow> conf \<Rightarrow> conf res" where
  "conf_line mktime line c =
     (case after_key line ''USER_DELETE_LIST='' of
        Some s \<Rightarrow> (case strtok_all s of
            [] \<Rightarrow> Inl NullDeref
          | ts \<Rightarrow> Inr (c\<lparr>vUsersDelete := vUsersDelete c @ ts\<rparr>))
      | None \<Rightarrow>
     (case after_key line ''IP_DELETE_LIST='' of
        Some s \<Rightarrow> Inr (c\<lparr>vIpsDelete := vIpsDelete c @ map cut_star (strtok_all s)\<rparr>)
      | None \<Rightarrow>
     (case after_key line ''TIME_DELETE='' of
        Some s \<Rightarrow> Inr (c\<lparr>timeDelete := parse_day mktime s\<rparr>)
      | None \<Rightarrow>
     (case after_key line ''USER_REPLACE_LIST='' of
        Some s \<Rightarrow> Inr (c\<lparr>vUsersReplace := vUsersReplace c @ List.map_filter split_equal (strtok_all s)\<rparr>)
      | None \<Rightarrow>
     (case after_key line ''IP_REPLACE_LIST='' of
        Some s \<Rightarrow> Inr (c\<lparr>vIpsReplace := vIpsReplace c @ List.map_filter split_equal (strtok_all s)\<rparr>)
      | None \<Rightarrow> Inr c)))))"

text \<open>
  The loop of \<open>readConf\<close>: it looks at a line only if reading it has not met the end of the
  file. \<open>fgets\<close> meets it when it returns less than 1023 characters and no newline.
\<close>

definition hit_eof :: "string \<Rightarrow> bool" where
  "hit_eof l \<longleftrightarrow> length l < 1023 \<and> (l = [] \<or> last l \<noteq> newline)"

fun conf_loop :: "nat \<Rightarrow> (int \<Rightarrow> int \<Rightarrow> int \<Rightarrow> int) \<Rightarrow> string \<Rightarrow> conf \<Rightarrow> conf res" where
  "conf_loop 0 mktime rest c = Inr c"
| "conf_loop (Suc n) mktime rest c =
     (let (l, rest') = fgets 1023 rest in
      if hit_eof l then Inr c
      else if l \<noteq> [] \<and> hd l = CHR ''#'' then conf_loop n mktime rest' c
      else
        let buff = takeWhile (\<lambda>x. x \<noteq> NUL) l in
        if buff = [] then Inl OutOfBounds
        else bindE (conf_line mktime (if last buff = newline then butlast buff else buff) c)
               (conf_loop n mktime rest'))"

text \<open>Every round takes a character at least, so one round more than there are is enough.\<close>

definition readConf :: "(int \<Rightarrow> int \<Rightarrow> int \<Rightarrow> int) \<Rightarrow> string \<Rightarrow> conf res" where
  "readConf mktime t = conf_loop (length t + 1) mktime t conf_init"


section \<open>The records\<close>

text \<open>\<open>strncmp(host, ip, ip.size()) == 0\<close>.\<close>

fun has_prefix :: "char list \<Rightarrow> string \<Rightarrow> bool res" where
  "has_prefix buf [] = Inr True"
| "has_prefix [] (c # s) = Inl OutOfBounds"
| "has_prefix (b # buf) (c # s) = (if b = c then has_prefix buf s else Inr False)"

fun host_listed :: "char list \<Rightarrow> string list \<Rightarrow> bool res" where
  "host_listed buf [] = Inr False"
| "host_listed buf (ip # ips) =
     bindE (has_prefix buf ip) (\<lambda>m. if m then Inr True else host_listed buf ips)"

fun replace_all :: "TwoString list \<Rightarrow> char list \<Rightarrow> char list res" where
  "replace_all [] buf = Inr buf"
| "replace_all (p # ps) buf =
     bindE (c_string buf) (\<lambda>str.
     bindE (if str1 p = str then strcpy buf (str2 p) else Inr buf) (replace_all ps))"

text \<open>
  One record: \<open>None\<close> when it is erased. \<open>tv_sec\<close> is signed and is compared with an
  unsigned number.
\<close>

definition edit_record :: "conf \<Rightarrow> utmp \<Rightarrow> utmp option res" where
  "edit_record c r =
     (if u32 (tv_sec r) < timeDelete c then Inr None
      else bindE (c_string (ut_user r)) (\<lambda>str.
        if str \<in> set (vUsersDelete c) then Inr None
        else bindE (host_listed (ut_host r) (vIpsDelete c)) (\<lambda>m.
          if m then Inr None
          else bindE (replace_all (vUsersReplace c) (ut_user r)) (\<lambda>user.
               bindE (replace_all (vIpsReplace c) (ut_host r)) (\<lambda>host.
                 Inr (Some (r\<lparr>ut_user := user, ut_host := host\<rparr>)))))))"

fun edit_records :: "conf \<Rightarrow> utmp list \<Rightarrow> utmp list res" where
  "edit_records c [] = Inr []"
| "edit_records c (r # rs) =
     bindE (edit_record c r) (\<lambda>x. bindE (edit_records c rs) (\<lambda>xs.
       Inr (case x of None \<Rightarrow> xs | Some r' \<Rightarrow> r' # xs)))"

text \<open>
  \<open>main\<close>: the configuration file and the records are \<open>None\<close> when they cannot be opened.
  The result is the exit status and the records \<^verbatim>\<open>/var/log/wtmp\<close> holds afterwards, when it
  has been written. A last record that is cut short is not read. Messages are left out.
\<close>

definition wtmp_main :: "(int \<Rightarrow> int \<Rightarrow> int \<Rightarrow> int) \<Rightarrow> string option \<Rightarrow> utmp list option \<Rightarrow> bool \<Rightarrow>
    (int \<times> utmp list option) res" where
  "wtmp_main mktime conf log can_write =
     (case conf of
        None \<Rightarrow> Inr (1, None)
      | Some t \<Rightarrow>
          bindE (readConf mktime t) (\<lambda>c.
            case log of
              None \<Rightarrow> Inr (0, None)
            | Some rs \<Rightarrow>
                bindE (edit_records c rs) (\<lambda>rs'.
                  Inr (if can_write then (0, Some rs') else (1, None)))))"


section \<open>What the program does to the records\<close>

definition no_nul :: "string \<Rightarrow> bool" where "no_nul s \<longleftrightarrow> NUL \<notin> set s"

text \<open>The strings of the lists were found in a C string: they contain no NUL.\<close>

definition conf_ok :: "conf \<Rightarrow> bool" where
  "conf_ok c \<longleftrightarrow> list_all no_nul (vUsersDelete c) \<and> list_all no_nul (vIpsDelete c)
     \<and> list_all (\<lambda>p. no_nul (str1 p) \<and> no_nul (str2 p)) (vUsersReplace c)
     \<and> list_all (\<lambda>p. no_nul (str1 p) \<and> no_nul (str2 p)) (vIpsReplace c)"

lemma tokens_no_nul: "no_nul s \<Longrightarrow> no_nul cur \<Longrightarrow> list_all no_nul (tokens s cur)"
  by (induction s cur rule: tokens.induct) (auto simp: no_nul_def)

lemma strtok_no_nul: "no_nul s \<Longrightarrow> list_all no_nul (strtok_all s)"
  unfolding strtok_all_def by (rule tokens_no_nul) (simp_all add: no_nul_def)

lemma after_key_no_nul: "after_key l k = Some s \<Longrightarrow> no_nul l \<Longrightarrow> no_nul s"
  by (auto simp: after_key_def no_nul_def dest: in_set_dropD)

lemma cut_star_no_nul: "no_nul t \<Longrightarrow> no_nul (cut_star t)"
  by (auto simp: cut_star_def no_nul_def dest: set_takeWhileD)

lemma in_set_tl: "x \<in> set (tl xs) \<Longrightarrow> x \<in> set xs"
  by (cases xs) simp_all

lemma split_equal_no_nul:
  "no_nul t \<Longrightarrow> split_equal t = Some p \<Longrightarrow> no_nul (str1 p) \<and> no_nul (str2 p)"
  by (auto simp: split_equal_def no_nul_def split: if_splits
      dest: set_takeWhileD set_dropWhileD intro: list.set_sel(2) dest!: in_set_tl)

lemma split_all_no_nul:
  "list_all no_nul ts \<Longrightarrow>
   list_all (\<lambda>p. no_nul (str1 p) \<and> no_nul (str2 p)) (List.map_filter split_equal ts)"
  by (induction ts) (auto simp: List.map_filter_simps split_equal_no_nul split: option.splits)

lemma key_tokens_no_nul: "no_nul l \<Longrightarrow> after_key l k = Some s \<Longrightarrow> list_all no_nul (strtok_all s)"
  using after_key_no_nul strtok_no_nul by blast

lemma conf_line_ok:
  assumes "conf_line mktime l c = Inr c'" "no_nul l" "conf_ok c"
  shows "conf_ok c'"
proof -
  have star: "list_all no_nul (map cut_star ts)" if "list_all no_nul ts" for ts
    using that by (induction ts) (simp_all add: cut_star_no_nul)
  note tok = key_tokens_no_nul [OF assms(2)]
  show ?thesis
    using assms(1,3) unfolding conf_line_def
    by (auto simp: conf_ok_def split: option.splits list.splits dest!: tok
        intro: split_all_no_nul star)
qed

lemma conf_loop_ok:
  "conf_loop n mktime t c = Inr c' \<Longrightarrow> conf_ok c \<Longrightarrow> conf_ok c'"
proof (induction n mktime t c rule: conf_loop.induct)
  case (2 n mktime t c)
  obtain l r where l: "fgets 1023 t = (l, r)" by fastforce
  define b where "b = takeWhile (\<lambda>x. x \<noteq> NUL) l"
  have *: "no_nul (if last b = newline then butlast b else b)"
    by (auto simp: b_def no_nul_def dest: set_takeWhileD in_set_butlastD)
  show ?case
  proof (cases "hit_eof l \<or> (l \<noteq> [] \<and> hd l = CHR ''#'')")
    case True
    then show ?thesis using 2 l by (auto split: if_splits)
  next
    case False
    then obtain d where d: "conf_line mktime (if last b = newline then butlast b else b) c = Inr d"
      and n: "conf_loop n mktime r d = Inr c'" and "b \<noteq> []"
      using "2.prems"(1) l by (auto simp: Let_def b_def bindE_eq_Inr split: if_splits)
    then show ?thesis
      using "2.IH"(2) [OF l [symmetric] refl _ _ b_def] False conf_line_ok [OF d * "2.prems"(2)]
      by auto
  qed
qed simp

lemma readConf_ok: "readConf mktime t = Inr c \<Longrightarrow> conf_ok c"
  unfolding readConf_def by (erule conf_loop_ok) (simp add: conf_ok_def conf_init_def)


subsection \<open>Names in character arrays\<close>

definition name_of :: "char list \<Rightarrow> string" where
  "name_of buf = takeWhile (\<lambda>c. c \<noteq> NUL) buf"

lemma c_string_name_of: "NUL \<in> set buf \<Longrightarrow> c_string buf = Inr (name_of buf)"
  by (simp add: c_string_def name_of_def)

lemma name_of_append_NUL: "no_nul s \<Longrightarrow> name_of (s @ NUL # r) = s"
  by (induction s) (auto simp: name_of_def no_nul_def)

lemma strcpy_name:
  "strcpy buf s = Inr buf' \<Longrightarrow> no_nul s \<Longrightarrow>
   name_of buf' = s \<and> NUL \<in> set buf' \<and> length buf' = length buf"
  by (auto simp: strcpy_def name_of_append_NUL split: if_splits)

lemma has_prefix_eq:
  "NUL \<in> set buf \<Longrightarrow> no_nul s \<Longrightarrow> has_prefix buf s = Inr (prefix s (name_of buf))"
  by (induction buf s rule: has_prefix.induct) (auto simp: no_nul_def name_of_def)

lemma host_listed_eq:
  "NUL \<in> set buf \<Longrightarrow> list_all no_nul ips \<Longrightarrow>
   host_listed buf ips = Inr (\<exists>ip\<in>set ips. prefix ip (name_of buf))"
  by (induction ips) (auto simp: has_prefix_eq)

text \<open>The name that the pairs of a replacement list make of a name, one after the other.\<close>

definition replaced :: "TwoString list \<Rightarrow> string \<Rightarrow> string" where
  "replaced ps n = fold (\<lambda>p m. if str1 p = m then str2 p else m) ps n"

lemma replaced_simps [simp]:
  "replaced [] n = n"
  "replaced (p # ps) n = replaced ps (if str1 p = n then str2 p else n)"
  by (simp_all add: replaced_def)

text \<open>The array can hold every replacement: only then is the \<open>strcpy\<close> inside its bounds.\<close>

definition fits :: "nat \<Rightarrow> TwoString list \<Rightarrow> bool" where
  "fits n ps = list_all (\<lambda>p. length (str2 p) < n) ps"

lemma replace_all_eq:
  "NUL \<in> set buf \<Longrightarrow> fits (length buf) ps \<Longrightarrow>
   list_all (\<lambda>p. no_nul (str1 p) \<and> no_nul (str2 p)) ps \<Longrightarrow>
   \<exists>buf'. replace_all ps buf = Inr buf' \<and> name_of buf' = replaced ps (name_of buf)
     \<and> NUL \<in> set buf' \<and> length buf' = length buf"
proof (induction ps arbitrary: buf)
  case (Cons p ps)
  show ?case
  proof (cases "str1 p = name_of buf")
    case True
    obtain buf1 where b: "strcpy buf (str2 p) = Inr buf1"
      using Cons.prems by (simp add: strcpy_def fits_def)
    then have "name_of buf1 = str2 p" "NUL \<in> set buf1" "length buf1 = length buf"
      using strcpy_name Cons.prems by auto
    then show ?thesis
      using Cons.IH [of buf1] Cons.prems b True by (simp add: c_string_name_of fits_def)
  next
    case False
    then show ?thesis using Cons by (auto simp: c_string_name_of fits_def)
  qed
qed simp

text \<open>
  A pair that matches and does not fit writes past the array.
\<close>

lemma replace_overflow:
  "NUL \<in> set buf \<Longrightarrow> str1 p = name_of buf \<Longrightarrow> length buf \<le> length (str2 p) \<Longrightarrow>
   replace_all (p # ps) buf = Inl OutOfBounds"
  by (simp add: c_string_name_of strcpy_def)

subsection \<open>The records that stay\<close>

definition record_ok :: "utmp \<Rightarrow> bool" where
  "record_ok r \<longleftrightarrow> length (ut_user r) = 32 \<and> NUL \<in> set (ut_user r)
     \<and> length (ut_host r) = 256 \<and> NUL \<in> set (ut_host r)"

definition kept :: "conf \<Rightarrow> utmp \<Rightarrow> bool" where
  "kept c r \<longleftrightarrow> timeDelete c \<le> u32 (tv_sec r)
     \<and> name_of (ut_user r) \<notin> set (vUsersDelete c)
     \<and> \<not> (\<exists>ip\<in>set (vIpsDelete c). prefix ip (name_of (ut_host r)))"

text \<open>The record \<open>r'\<close> is \<open>r\<close> with the names replaced and nothing else changed.\<close>

definition edited :: "conf \<Rightarrow> utmp \<Rightarrow> utmp \<Rightarrow> bool" where
  "edited c r r' \<longleftrightarrow> record_ok r'
     \<and> name_of (ut_user r') = replaced (vUsersReplace c) (name_of (ut_user r))
     \<and> name_of (ut_host r') = replaced (vIpsReplace c) (name_of (ut_host r))
     \<and> r' = r\<lparr>ut_user := ut_user r', ut_host := ut_host r'\<rparr>"

lemma edit_record_ok:
  assumes "record_ok r" "conf_ok c" "fits 32 (vUsersReplace c)" "fits 256 (vIpsReplace c)"
  shows "if kept c r then \<exists>r'. edit_record c r = Inr (Some r') \<and> edited c r r'
         else edit_record c r = Inr None"
proof (cases "kept c r")
  case True
  obtain u where u: "replace_all (vUsersReplace c) (ut_user r) = Inr u"
    "name_of u = replaced (vUsersReplace c) (name_of (ut_user r))" "NUL \<in> set u" "length u = 32"
    using replace_all_eq [of "ut_user r" "vUsersReplace c"] assms
    by (auto simp: record_ok_def conf_ok_def)
  obtain h where h: "replace_all (vIpsReplace c) (ut_host r) = Inr h"
    "name_of h = replaced (vIpsReplace c) (name_of (ut_host r))" "NUL \<in> set h" "length h = 256"
    using replace_all_eq [of "ut_host r" "vIpsReplace c"] assms
    by (auto simp: record_ok_def conf_ok_def)
  have "edit_record c r = Inr (Some (r\<lparr>ut_user := u, ut_host := h\<rparr>))"
    using True assms u(1) h(1)
    by (auto simp: edit_record_def kept_def record_ok_def conf_ok_def c_string_name_of host_listed_eq)
  then show ?thesis
    using True u h by (auto simp: edited_def record_ok_def)
next
  case False
  then show ?thesis
    using assms
    by (auto simp: edit_record_def kept_def record_ok_def conf_ok_def c_string_name_of host_listed_eq)
qed

lemma edit_records_ok:
  assumes "conf_ok c" "fits 32 (vUsersReplace c)" "fits 256 (vIpsReplace c)"
  shows "list_all record_ok rs \<Longrightarrow>
    \<exists>rs'. edit_records c rs = Inr rs' \<and> list_all2 (edited c) (filter (kept c) rs) rs'"
proof (induction rs)
  case (Cons r rs)
  then show ?case
    using edit_record_ok [OF _ assms, of r] by (auto split: if_splits)
qed simp

text \<open>
  C13: The edit of the log. When the configuration is read as \<open>c\<close>, its replacements fit the
  arrays and the names of the log are terminated, the program writes back, in their order, exactly the
  records it has to keep (not older than the day, the user not listed, no listed prefix of the
  host), with the user and the host replaced and every other field as it was.
\<close>

theorem wtmp_edits_the_log:
  assumes "readConf mktime t = Inr c" "fits 32 (vUsersReplace c)" "fits 256 (vIpsReplace c)"
    and "list_all record_ok rs"
  shows "\<exists>rs'. wtmp_main mktime (Some t) (Some rs) True = Inr (0, Some rs')
    \<and> list_all2 (edited c) (filter (kept c) rs) rs'"
proof -
  obtain rs' where "edit_records c rs = Inr rs'" "list_all2 (edited c) (filter (kept c) rs) rs'"
    using edit_records_ok [OF readConf_ok [OF assms(1)] assms(2,3,4)] by blast
  then show ?thesis using assms(1) by (simp add: wtmp_main_def)
qed

subsection \<open>The lines of the configuration\<close>

definition config_line :: "string \<Rightarrow> bool" where
  "config_line l \<longleftrightarrow> newline \<notin> set l \<and> no_nul l \<and> length l < 1023"

fun conf_lines :: "(int \<Rightarrow> int \<Rightarrow> int \<Rightarrow> int) \<Rightarrow> string list \<Rightarrow> conf \<Rightarrow> conf res" where
  "conf_lines mktime [] c = Inr c"
| "conf_lines mktime (l # ls) c =
     (if l \<noteq> [] \<and> hd l = CHR ''#'' then conf_lines mktime ls c
      else bindE (conf_line mktime l c) (conf_lines mktime ls))"

lemma takeWhile_no_nul: "no_nul l \<Longrightarrow> takeWhile (\<lambda>x. x \<noteq> NUL) (l @ [newline]) = l @ [newline]"
  by (auto simp: no_nul_def takeWhile_eq_all_conv)

lemma fgets_short: "newline \<notin> set l \<Longrightarrow> length l < n \<Longrightarrow> fgets n l = (l, [])"
proof (induction l arbitrary: n)
  case Nil
  then show ?case by (cases n) simp_all
next
  case (Cons a l)
  then show ?case by (cases n) auto
qed

lemma conf_loop_step:
  assumes "config_line l"
  shows "conf_loop (Suc n) mktime (l @ newline # s) c =
    (if l \<noteq> [] \<and> hd l = CHR ''#'' then conf_loop n mktime s c
     else bindE (conf_line mktime l c) (conf_loop n mktime s))"
proof -
  have f: "fgets 1023 (l @ newline # s) = (l @ [newline], s)"
    using assms by (intro fgets_line) (auto simp: config_line_def)
  have h: "hd (l @ [newline]) = CHR ''#'' \<longleftrightarrow> l \<noteq> [] \<and> hd l = CHR ''#''"
    by (cases l) simp_all
  show ?thesis
    using assms
    by (simp add: f h hit_eof_def takeWhile_no_nul config_line_def Let_def)
qed

lemma conf_loop_lines:
  assumes "newline \<notin> set rest" "length rest < 1023"
  shows "list_all config_line ls \<Longrightarrow> length ls < n \<Longrightarrow>
    conf_loop n mktime (concat (map (\<lambda>l. l @ [newline]) ls) @ rest) c = conf_lines mktime ls c"
proof (induction ls arbitrary: n c)
  case Nil
  have "hit_eof rest"
    using assms by (cases rest rule: rev_cases) (auto simp: hit_eof_def)
  then show ?case
    using Nil fgets_short [OF assms] by (cases n) simp_all
next
  case (Cons l ls)
  then obtain m where n: "n = Suc m" "length ls < m" by (cases n) auto
  show ?case
    using Cons n conf_loop_step [of l m mktime "concat (map (\<lambda>l. l @ [newline]) ls) @ rest" c]
    by (auto intro!: bindE_cong)
qed

lemma length_lines: "length ls \<le> length (concat (map (\<lambda>l. l @ [newline]) ls))"
  by (induction ls) simp_all

text \<open>
  What \<open>readConf\<close> makes of a file: it handles the lines one after the other, comments
  left out, except that what follows the last newline is ignored: the last line of a
  file that does not end in a newline has no effect.
\<close>

theorem readConf_ignores_unterminated_line:
  assumes "list_all config_line ls" "newline \<notin> set rest" "length rest < 1023"
  shows "readConf mktime (concat (map (\<lambda>l. l @ [newline]) ls) @ rest) = conf_lines mktime ls conf_init"
  unfolding readConf_def
  using length_lines [of ls] by (intro conf_loop_lines [OF assms(2,3,1)]) simp

text \<open>An empty list of users makes the program construct a string from NULL.\<close>

lemma empty_user_list_null:
  "conf_line mktime ''USER_DELETE_LIST='' c = Inl NullDeref"
  by (simp add: conf_line_def after_key_def strstr.simps strtok_all_def)

subsection \<open>An example\<close>

definition demo_mktime :: "int \<Rightarrow> int \<Rightarrow> int \<Rightarrow> int" where
  "demo_mktime y m d = 86400 * (365 * (y - 70) + 30 * m + d - 1)"

definition demo_lines :: "string list" where
  "demo_lines = [''# accounts'', ''USER_DELETE_LIST=bob'', ''IP_DELETE_LIST=10.0.*,fe80'', ''TIME_DELETE=19700102'',
     ''USER_REPLACE_LIST=al=carol'']"

definition demo_conf :: conf where
  "demo_conf = \<lparr>vUsersDelete = [''bob''], vIpsDelete = [''10.0.'', ''fe80''], timeDelete = 86400,
     vUsersReplace = [\<lparr>str1 = ''al'', str2 = ''carol''\<rparr>], vIpsReplace = []\<rparr>"

definition demo_record :: "string \<Rightarrow> string \<Rightarrow> int \<Rightarrow> utmp" where
  "demo_record u h s = \<lparr>ut_type = 7, ut_pid = 1, ut_line = replicate 32 NUL, ut_id = replicate 4 NUL,
     ut_user = u @ replicate (32 - length u) NUL, ut_host = h @ replicate (256 - length h) NUL,
     tv_sec = s, tv_usec = 0\<rparr>"

definition demo_log :: "utmp list" where
  "demo_log = [demo_record ''bob'' ''h'' 90000, demo_record ''al'' ''h'' 90000,
     demo_record ''al'' ''10.0.0.7'' 90000, demo_record ''al'' ''h'' 80000]"

lemma demo_lines_ok: "list_all config_line demo_lines"
  by code_simp

lemma demo_day: "parse_day demo_mktime ''19700102'' = 86400"
proof -
  have "strtoul ''19700102'' = 19700102"
    by (simp add: strtoul_def int_value_def digits_val_def isspace_def isdigit_def Let_def)
  then show ?thesis by (simp add: parse_day_def u32_def demo_mktime_def)
qed

lemma demo_keys:
  "after_key ''USER_DELETE_LIST=bob'' ''USER_DELETE_LIST='' = Some ''bob''"
  "after_key ''IP_DELETE_LIST=10.0.*,fe80'' ''USER_DELETE_LIST='' = None"
  "after_key ''IP_DELETE_LIST=10.0.*,fe80'' ''IP_DELETE_LIST='' = Some ''10.0.*,fe80''"
  "after_key ''TIME_DELETE=19700102'' ''USER_DELETE_LIST='' = None"
  "after_key ''TIME_DELETE=19700102'' ''IP_DELETE_LIST='' = None"
  "after_key ''TIME_DELETE=19700102'' ''TIME_DELETE='' = Some ''19700102''"
  "after_key ''USER_REPLACE_LIST=al=carol'' ''USER_DELETE_LIST='' = None"
  "after_key ''USER_REPLACE_LIST=al=carol'' ''IP_DELETE_LIST='' = None"
  "after_key ''USER_REPLACE_LIST=al=carol'' ''TIME_DELETE='' = None"
  "after_key ''USER_REPLACE_LIST=al=carol'' ''USER_REPLACE_LIST='' = Some ''al=carol''"
  by code_simp+

lemma demo_conf_lines: "conf_lines demo_mktime demo_lines conf_init = Inr demo_conf"
  by (simp add: demo_lines_def conf_line_def demo_keys demo_day demo_conf_def conf_init_def
      strtok_all_def cut_star_def split_equal_def List.map_filter_simps)

lemma demo_log_ok:
  "fits 32 (vUsersReplace demo_conf) \<and> fits 256 (vIpsReplace demo_conf) \<and> list_all record_ok demo_log"
  by code_simp

lemma demo_readConf:
  "readConf demo_mktime (concat (map (\<lambda>l. l @ [newline]) demo_lines)) = Inr demo_conf"
  unfolding readConf_def
  using conf_loop_lines [OF _ _ demo_lines_ok, of "[]" _ demo_mktime conf_init]
    length_lines [of demo_lines] demo_conf_lines
  by (simp del: conf_loop.simps)

lemma readConf_ignores_unterminated_line_witness:
  "readConf demo_mktime (concat (map (\<lambda>l. l @ [newline]) demo_lines) @ ''USER_DELETE_LIST=root'') = Inr demo_conf"
  by (subst readConf_ignores_unterminated_line) (simp_all add: demo_lines_ok demo_conf_lines)

lemma wtmp_edits_the_log_witness:
  "\<exists>rs'. wtmp_main demo_mktime (Some (concat (map (\<lambda>l. l @ [newline]) demo_lines))) (Some demo_log) True = Inr (0, Some rs')
    \<and> list_all2 (edited demo_conf) (filter (kept demo_conf) demo_log) rs'"
  using wtmp_edits_the_log [OF demo_readConf] demo_log_ok by blast

end
