(* ===== verification/Posix.thy ===== *)
theory Posix
  imports CString Bytes "HOL-Library.State_Monad"
begin

text \<open>
  System calls: a program is a state-monad computation on the trace of the calls it has made
  with their replies (newest first). What a call returns is the environment's choice, a
  parameter that sees the whole trace. Descriptors that were obtained and not closed are
  counted on the trace.
\<close>

datatype call =
    Socket
  | Bind int string int
  | Listen int int
  | Accept int
  | Connect int string int
  | Write int string
  | Read int nat
  | Close int
  | Select "int list"
  | System string
  | Popen string
  | Fgets nat
  | Pclose
  | Sleep int
  | Usleep int
  | EpollCreate int
  | EpollAdd int int
  | EpollDel int int
  | EpollWait int
  | Poll "(int \<times> nat) list"
  | Fcntl int
  | SetSockOpt int
  | GetSockOpt int
  | Pipe
  | Splice int int nat
  | Getpid
  | Dispatch
  | EventNew int
  | EventAdd int
  | EventFree int
  | BevNew int
  | BevConnect int string int
  | BevRead int nat
  | BevWrite int string
  | BevFree int
  | ListenerNew int

text \<open>
  A reply: the returned integer (a failing call returns a negative number, minus the error
  code), the bytes that were read, and the descriptors that are ready with their event bits.
\<close>

record reply =
  ret :: int
  data :: string
  evs :: "(int \<times> nat) list"

type_synonym trace = "(call \<times> reply) list"

type_synonym env = "trace \<Rightarrow> call \<Rightarrow> reply"

type_synonym 'a io = "(trace, 'a) state"

text \<open>\<open>FD_SET\<close> has room for 1024 descriptors.\<close>

definition fd_set :: "int \<Rightarrow> unit res" where
  "fd_set d = (if 0 \<le> d \<and> d < 1024 then Inr () else Inl OutOfBounds)"

text \<open>The local time of a call of \<open>time\<close> and \<open>localtime\<close>; a number padded with zeros.\<close>

record tm =
  tm_year :: nat
  tm_mon :: nat
  tm_mday :: nat
  tm_hour :: nat
  tm_min :: nat
  tm_sec :: nat

definition pad0 :: "nat \<Rightarrow> nat \<Rightarrow> string" where
  "pad0 w n = (let s = show_nat n in replicate (w - length s) (CHR ''0'') @ s)"

definition sys :: "env \<Rightarrow> call \<Rightarrow> reply io" where
  "sys env c = State (\<lambda>t. (env t c, (c, env t c) # t))"

lemma run_sys [simp]: "run_state (sys env c) t = (env t c, (c, env t c) # t)"
  by (simp add: sys_def)

abbreviation return :: "'a \<Rightarrow> 'a io" where "return \<equiv> State_Monad.return"

definition call_ret :: "env \<Rightarrow> call \<Rightarrow> int io" where
  "call_ret env c = do { r \<leftarrow> sys env c; return (ret r) }"

lemma run_call_ret [simp]: "run_state (call_ret env c) t = (ret (env t c), (c, env t c) # t)"
  by (simp add: call_ret_def)

text \<open>The descriptors a trace leaves open.\<close>

fun open_fds :: "trace \<Rightarrow> int multiset" where
  "open_fds [] = {#}"
| "open_fds ((c, r) # t) =
     (case c of
        Socket \<Rightarrow> (if ret r < 0 then open_fds t else add_mset (ret r) (open_fds t))
      | Accept _ \<Rightarrow> (if ret r < 0 then open_fds t else add_mset (ret r) (open_fds t))
      | EpollCreate _ \<Rightarrow> (if ret r < 0 then open_fds t else add_mset (ret r) (open_fds t))
      | Close fd \<Rightarrow> open_fds t - {#fd#}
      | _ \<Rightarrow> open_fds t)"

text \<open>The same as sets, and the descriptors an epoll instance watches.\<close>

fun open_set :: "trace \<Rightarrow> int set" where
  "open_set [] = {}"
| "open_set ((c, r) # t) =
     (case c of
        Socket \<Rightarrow> (if ret r < 0 then open_set t else insert (ret r) (open_set t))
      | Accept _ \<Rightarrow> (if ret r < 0 then open_set t else insert (ret r) (open_set t))
      | EpollCreate _ \<Rightarrow> (if ret r < 0 then open_set t else insert (ret r) (open_set t))
      | Close fd \<Rightarrow> open_set t - {fd}
      | _ \<Rightarrow> open_set t)"

fun watched :: "trace \<Rightarrow> int set" where
  "watched [] = {}"
| "watched ((c, r) # t) =
     (case c of
        EpollAdd _ fd \<Rightarrow> insert fd (watched t)
      | EpollDel _ fd \<Rightarrow> watched t - {fd}
      | Close fd \<Rightarrow> watched t - {fd}
      | _ \<Rightarrow> watched t)"

text \<open>What a trace sent and slept, oldest first.\<close>

fun writes :: "trace \<Rightarrow> (int \<times> string) list" where
  "writes [] = []"
| "writes ((c, r) # t) = (case c of Write fd s \<Rightarrow> writes t @ [(fd, s)] | _ \<Rightarrow> writes t)"

fun sleeps :: "trace \<Rightarrow> int list" where
  "sleeps [] = []"
| "sleeps ((c, r) # t) = (case c of Sleep s \<Rightarrow> sleeps t @ [s] | _ \<Rightarrow> sleeps t)"

fun commands :: "trace \<Rightarrow> string list" where
  "commands [] = []"
| "commands ((c, r) # t) = (case c of System s \<Rightarrow> commands t @ [s] | _ \<Rightarrow> commands t)"

text \<open>
  A property of traces that a program keeps, whatever the environment answers: rules along the
  structure of the program.
\<close>

definition keeps_trace :: "(trace \<Rightarrow> bool) \<Rightarrow> 'a io \<Rightarrow> bool" where
  "keeps_trace P m \<longleftrightarrow> (\<forall>t. P t \<longrightarrow> P (snd (run_state m t)))"

lemma keeps_traceD: "keeps_trace P m \<Longrightarrow> run_state m t = (x, t') \<Longrightarrow> P t \<Longrightarrow> P t'"
  by (auto simp: keeps_trace_def dest: spec [of _ t])

named_theorems keeps_trace_intros \<open>rules for properties of traces\<close>

lemma keeps_trace_return [keeps_trace_intros]: "keeps_trace P (return x)"
  by (simp add: keeps_trace_def)

lemma keeps_trace_bind [keeps_trace_intros]:
  "keeps_trace P m \<Longrightarrow> (\<And>x. keeps_trace P (f x)) \<Longrightarrow> keeps_trace P (m \<bind> f)"
  by (simp add: keeps_trace_def split: prod.splits) (metis snd_conv)

lemma keeps_trace_sys: "(\<And>t r. P t \<Longrightarrow> P ((c, r) # t)) \<Longrightarrow> keeps_trace P (sys env c)"
  by (simp add: keeps_trace_def)

lemma keeps_trace_call: "(\<And>t r. P t \<Longrightarrow> P ((c, r) # t)) \<Longrightarrow> keeps_trace P (call_ret env c)"
  by (simp add: keeps_trace_def)

lemma keeps_trace_if [keeps_trace_intros]:
  "(b \<Longrightarrow> keeps_trace P m) \<Longrightarrow> (\<not> b \<Longrightarrow> keeps_trace P n) \<Longrightarrow> keeps_trace P (if b then m else n)"
  by simp

end
