(* ===== verification/PollChat.thy ===== *)
theory PollChat
  imports Posix "HOL-Library.Sublist"
begin

unbundle bit_operations_syntax

text \<open>
  The chat server \<^verbatim>\<open>src/socket/network/poll_chat_server.cpp\<close>: one \<open>poll\<close> loop over the
  listening socket and at most five clients; what one client sends is handed to the others by
  a pointer into its receive buffer. The state holds the two arrays, the number of users and
  the trace of the system calls. The address of a client is stored and never read; it and the
  messages on standard output are left out.
\<close>

section \<open>Data\<close>

definition POLLIN :: "16 word" where "POLLIN = 1"
definition POLLOUT :: "16 word" where "POLLOUT = 4"
definition POLLERR :: "16 word" where "POLLERR = 8"
definition POLLRDHUP :: "16 word" where "POLLRDHUP = 0x2000"

text \<open>What \<open>poll\<close> may report without being asked: \<open>POLLERR\<close>, \<open>POLLHUP\<close>, \<open>POLLNVAL\<close>.\<close>

definition POLL_ALWAYS :: "16 word" where "POLL_ALWAYS = 0x38"

definition USER_LIMIT :: int where "USER_LIMIT = 5"

definition FD_LIMIT :: int where "FD_LIMIT = 65535"

definition BUFFER_SIZE_MAX :: nat where "BUFFER_SIZE_MAX = 1024"

text \<open>A pointer to a receive buffer: never assigned, NULL, or the buffer of a descriptor.\<close>

datatype buf_ptr = Unset | Null | BufOf int

record client_data =
  write_buf :: buf_ptr
  buf :: "char list option"

record pollfd =
  fd :: int
  events :: "16 word"
  revents :: "16 word"

record chat =
  users :: "int \<Rightarrow> client_data"
  fds :: "pollfd list"
  user_counter :: int
  tr :: trace

text \<open>\<open>new client_data[FD_LIMIT]\<close> leaves the elements as they are.\<close>

definition fresh_user :: client_data where
  "fresh_user = \<lparr>write_buf = Unset, buf = None\<rparr>"

definition chat_init :: "int \<Rightarrow> trace \<Rightarrow> chat" where
  "chat_init sockfd t = \<lparr>users = (\<lambda>_. fresh_user),
     fds = \<lparr>fd = sockfd, events = POLLIN OR POLLERR, revents = 0\<rparr> #
           replicate 5 \<lparr>fd = - 1, events = 0, revents = 0\<rparr>,
     user_counter = 0, tr = t\<rparr>"

section \<open>Access\<close>

definition do_call :: "env \<Rightarrow> call \<Rightarrow> chat \<Rightarrow> reply \<times> chat" where
  "do_call env c s = (env (tr s) c, s\<lparr>tr := (c, env (tr s) c) # tr s\<rparr>)"

definition get_fd :: "chat \<Rightarrow> int \<Rightarrow> pollfd res" where
  "get_fd s i = (if 0 \<le> i \<and> i < int (length (fds s)) then Inr (fds s ! nat i) else Inl OutOfBounds)"

definition set_fd :: "chat \<Rightarrow> int \<Rightarrow> pollfd \<Rightarrow> chat res" where
  "set_fd s i f = (if 0 \<le> i \<and> i < int (length (fds s)) then Inr (s\<lparr>fds := (fds s)[nat i := f]\<rparr>)
     else Inl OutOfBounds)"

definition get_user :: "chat \<Rightarrow> int \<Rightarrow> client_data res" where
  "get_user s k = (if 0 \<le> k \<and> k < FD_LIMIT then Inr (users s k) else Inl OutOfBounds)"

definition set_user :: "chat \<Rightarrow> int \<Rightarrow> client_data \<Rightarrow> chat res" where
  "set_user s k u = (if 0 \<le> k \<and> k < FD_LIMIT then Inr (s\<lparr>users := (users s)(k := u)\<rparr>)
     else Inl OutOfBounds)"

definition text_at :: "chat \<Rightarrow> int \<Rightarrow> string res" where
  "text_at s k = bindE (get_user s k) (\<lambda>u. case buf u of None \<Rightarrow> Inl Uninitialised | Some b \<Rightarrow> c_string b)"

section \<open>The handlers of one entry\<close>

text \<open>A new connection; \<open>setnonblocking\<close> calls \<open>fcntl\<close> twice.\<close>

definition setnonblocking :: "env \<Rightarrow> int \<Rightarrow> chat \<Rightarrow> int \<times> chat" where
  "setnonblocking env k s =
     (let (r, s1) = do_call env (Fcntl k) s; (_, s2) = do_call env (Fcntl k) s1 in (ret r, s2))"

definition new_user :: "env \<Rightarrow> int \<Rightarrow> chat \<Rightarrow> chat res" where
  "new_user env sockfd s =
     (let (r, s1) = do_call env (Accept sockfd) s; connfd = ret r in
      if connfd < 0 then Inr s1
      else if user_counter s1 \<ge> USER_LIMIT then
        (let (_, s2) = do_call env (Write connfd ''too many users'') s1;
             (_, s3) = do_call env (Close connfd) s2
         in Inr s3)
      else
        (let s2 = s1\<lparr>user_counter := user_counter s1 + 1\<rparr> in
         bindE (get_user s2 connfd) (\<lambda>u. bindE (set_user s2 connfd u) (\<lambda>s3.
         let (_, s4) = setnonblocking env connfd s3 in
         set_fd s4 (user_counter s4)
           \<lparr>fd = connfd, events = POLLIN OR POLLRDHUP OR POLLERR, revents = 0\<rparr>))))"

text \<open>\<open>users[fds[i].fd] = users[fds[user_counter].fd]\<close>.\<close>

definition copy_user :: "int \<Rightarrow> chat \<Rightarrow> chat res" where
  "copy_user i s =
     bindE (get_fd s i) (\<lambda>f. bindE (get_fd s (user_counter s)) (\<lambda>l.
     bindE (get_user s (fd l)) (\<lambda>u. set_user s (fd f) u)))"

text \<open>\<open>fds[i] = fds[user_counter]; user_counter--\<close>.\<close>

definition drop_entry :: "int \<Rightarrow> chat \<Rightarrow> chat res" where
  "drop_entry i s =
     bindE (get_fd s (user_counter s)) (\<lambda>l. bindE (set_fd s i l) (\<lambda>s1.
       Inr (s1\<lparr>user_counter := user_counter s1 - 1\<rparr>)))"

definition user_left :: "env \<Rightarrow> int \<Rightarrow> chat \<Rightarrow> chat res" where
  "user_left env i s =
     bindE (copy_user i s) (\<lambda>s1. bindE (get_fd s1 i) (\<lambda>f.
     let (_, s2) = do_call env (Close (fd f)) s1 in drop_entry i s2))"

text \<open>The message of \<open>connfd\<close> is for every other user: from entry \<open>j\<close> on, \<open>n\<close> entries.\<close>

fun broadcast :: "nat \<Rightarrow> int \<Rightarrow> int \<Rightarrow> chat \<Rightarrow> chat res" where
  "broadcast 0 j connfd s = Inr s"
| "broadcast (Suc n) j connfd s =
     bindE (get_fd s j) (\<lambda>f.
     if fd f = connfd then broadcast n (j + 1) connfd s
     else
       bindE (set_fd s j (f\<lparr>events := (events f OR NOT POLLIN) OR POLLOUT\<rparr>)) (\<lambda>s1.
       bindE (get_user s1 (fd f)) (\<lambda>u.
       bindE (set_user s1 (fd f) (u\<lparr>write_buf := BufOf connfd\<rparr>)) (broadcast n (j + 1) connfd))))"

definition recv_buffer :: "string \<Rightarrow> char list" where
  "recv_buffer d = (let d' = take (BUFFER_SIZE_MAX - 1) d in d' @ replicate (BUFFER_SIZE_MAX - length d') NUL)"

text \<open>
  A readable client, after \<open>recv\<close> returned \<open>n\<close>. The result says whether the entry was taken
  out (then its place is looked at again).
\<close>

definition received :: "env \<Rightarrow> int \<Rightarrow> int \<Rightarrow> int \<Rightarrow> chat \<Rightarrow> (bool \<times> chat) res" where
  "received env i connfd n s =
     (if n < 0 then
        (if n \<noteq> - 11 then
           (let (_, s1) = do_call env (Close connfd) s in
            bindE (copy_user i s1) (\<lambda>s2. bindE (drop_entry i s2) (\<lambda>s3. Inr (True, s3))))
         else Inr (False, s))
      else if n = 0 then Inr (False, s)
      else bindE (broadcast (nat (user_counter s)) 1 connfd s) (\<lambda>s1. Inr (False, s1)))"

definition user_message :: "env \<Rightarrow> int \<Rightarrow> chat \<Rightarrow> (bool \<times> chat) res" where
  "user_message env i s =
     bindE (get_fd s i) (\<lambda>f. bindE (get_user s (fd f)) (\<lambda>u.
     let (r, s1) = do_call env (Read (fd f) (BUFFER_SIZE_MAX - 1)) s;
         got = (if ret r > 0 then data r else [])
     in
     bindE (set_user s1 (fd f) (u\<lparr>buf := Some (recv_buffer got)\<rparr>)) (\<lambda>s2.
       received env i (fd f) (ret r) s2)))"

text \<open>A writable client.\<close>

definition user_writable :: "env \<Rightarrow> int \<Rightarrow> chat \<Rightarrow> chat res" where
  "user_writable env i s =
     bindE (get_fd s i) (\<lambda>f. bindE (get_user s (fd f)) (\<lambda>u.
     case write_buf u of
       Unset \<Rightarrow> Inl Uninitialised
     | Null \<Rightarrow> Inr s
     | BufOf k \<Rightarrow>
         bindE (text_at s k) (\<lambda>msg.
         let (_, s1) = do_call env (Write (fd f) msg) s in
         bindE (get_user s1 (fd f)) (\<lambda>u1.
         bindE (set_user s1 (fd f) (u1\<lparr>write_buf := Null\<rparr>)) (\<lambda>s2.
         set_fd s2 i (f\<lparr>events := (events f OR NOT POLLOUT) OR POLLIN\<rparr>))))))"

section \<open>The loops\<close>

text \<open>One entry: the next index and the state.\<close>

definition has :: "16 word \<Rightarrow> 16 word \<Rightarrow> bool" where
  "has w m \<longleftrightarrow> w AND m \<noteq> 0"

definition poll_one :: "env \<Rightarrow> int \<Rightarrow> int \<Rightarrow> chat \<Rightarrow> (int \<times> chat) res" where
  "poll_one env sockfd i s =
     bindE (get_fd s i) (\<lambda>f.
     if fd f = sockfd \<and> has (revents f) POLLIN then
       bindE (new_user env sockfd s) (\<lambda>s'. Inr (i + 1, s'))
     else if has (revents f) POLLERR then
       (let (_, s') = do_call env (GetSockOpt (fd f)) s in Inr (i + 1, s'))
     else if has (revents f) POLLRDHUP then
       bindE (user_left env i s) (\<lambda>s'. Inr (i, s'))
     else if has (revents f) POLLIN then
       bindE (user_message env i s) (\<lambda>(gone, s'). Inr (if gone then i else i + 1, s'))
     else if has (revents f) POLLOUT then
       bindE (user_writable env i s) (\<lambda>s'. Inr (i + 1, s'))
     else Inr (i + 1, s))"


subsection \<open>How the counter moves\<close>

lemma do_call_simps [simp]:
  "fst (do_call env c s) = env (tr s) c"
  "do_call env c s = (env (tr s) c, s\<lparr>tr := (c, env (tr s) c) # tr s\<rparr>)"
  by (simp_all add: do_call_def)

text \<open>Updates of different fields, in one order.\<close>

lemma chat_order [simp]:
  "s\<lparr>tr := t, user_counter := c\<rparr> = s\<lparr>user_counter := c, tr := t\<rparr>"
  "s\<lparr>tr := t, fds := f\<rparr> = s\<lparr>fds := f, tr := t\<rparr>"
  "s\<lparr>tr := t, users := u\<rparr> = s\<lparr>users := u, tr := t\<rparr>"
  "s\<lparr>user_counter := c, fds := f\<rparr> = s\<lparr>fds := f, user_counter := c\<rparr>"
  "s\<lparr>user_counter := c, users := u\<rparr> = s\<lparr>users := u, user_counter := c\<rparr>"
  "s\<lparr>fds := f, users := u\<rparr> = s\<lparr>users := u, fds := f\<rparr>"
  by (cases s; simp)+

text \<open>When an access succeeds, and what it then is.\<close>

lemma access_iff:
  "get_fd s i = Inr f \<longleftrightarrow> 0 \<le> i \<and> i < int (length (fds s)) \<and> f = fds s ! nat i"
  "set_fd s i f = Inr s' \<longleftrightarrow> 0 \<le> i \<and> i < int (length (fds s)) \<and> s' = s\<lparr>fds := (fds s)[nat i := f]\<rparr>"
  "get_user s k = Inr u \<longleftrightarrow> 0 \<le> k \<and> k < FD_LIMIT \<and> u = users s k"
  "set_user s k u = Inr s' \<longleftrightarrow> 0 \<le> k \<and> k < FD_LIMIT \<and> s' = s\<lparr>users := (users s)(k := u)\<rparr>"
  by (auto simp: get_fd_def set_fd_def get_user_def set_user_def)

lemmas access = access_iff bindE_eq_Inr

lemma copy_user_counter: "copy_user i s = Inr s' \<Longrightarrow> user_counter s' = user_counter s"
  by (auto simp: copy_user_def access)

lemma drop_entry_counter: "drop_entry i s = Inr s' \<Longrightarrow> user_counter s' = user_counter s - 1"
  by (auto simp: drop_entry_def access)

lemma user_left_counter: "user_left env i s = Inr s' \<Longrightarrow> user_counter s' = user_counter s - 1"
  by (auto simp: user_left_def access dest!: copy_user_counter drop_entry_counter)

lemma new_user_counter:
  "new_user env sockfd s = Inr s' \<Longrightarrow>
   user_counter s' = user_counter s \<or> user_counter s < 5 \<and> user_counter s' = user_counter s + 1"
  by (auto simp: new_user_def Let_def setnonblocking_def access USER_LIMIT_def split: if_splits)

lemma broadcast_counter: "broadcast n j k s = Inr s' \<Longrightarrow> user_counter s' = user_counter s"
proof (induction n arbitrary: j s)
  case (Suc n)
  then show ?case by (fastforce simp: access split: if_splits)
qed simp

lemma user_message_counter:
  "user_message env i s = Inr (gone, s') \<Longrightarrow>
   user_counter s' = (if gone then user_counter s - 1 else user_counter s)"
  by (auto simp: user_message_def received_def Let_def access split: if_splits
      dest!: copy_user_counter drop_entry_counter broadcast_counter)

lemma user_writable_counter: "user_writable env i s = Inr s' \<Longrightarrow> user_counter s' = user_counter s"
  unfolding user_writable_def
  by (cases "write_buf (users s (fd (fds s ! nat i)))") (auto simp: Let_def access)

text \<open>
  Every step of the inner loop goes to the next entry or takes one out; an entry is added at
  most while there are less than five users.
\<close>

definition pass_measure :: "int \<times> chat \<Rightarrow> nat" where
  "pass_measure = (\<lambda>(i, s). nat (2 * (max 5 (user_counter s) + 1 - i) + user_counter s + 1))"

lemma poll_one_decreases:
  assumes "poll_one env sockfd i s = Inr (i', s')" "0 \<le> i" "i < user_counter s + 1"
  shows "pass_measure (i', s') < pass_measure (i, s)" "0 \<le> i'"
proof -
  have "i' = i + 1 \<and> user_counter s' = user_counter s \<or>
    i' = i + 1 \<and> user_counter s < 5 \<and> user_counter s' = user_counter s + 1 \<or>
    i' = i \<and> user_counter s' = user_counter s - 1"
    using assms(1)
    by (auto simp: poll_one_def bindE_eq_Inr split: if_splits prod.splits
        dest: new_user_counter user_left_counter user_message_counter user_writable_counter)
  then show "pass_measure (i', s') < pass_measure (i, s)" "0 \<le> i'"
    using assms(2,3) by (auto simp: pass_measure_def max_def)
qed

text \<open>An entry below 0 is outside the array; the source never gets there.\<close>

function poll_pass :: "env \<Rightarrow> int \<Rightarrow> int \<Rightarrow> chat \<Rightarrow> chat res" where
  "poll_pass env sockfd i s =
     (if i < user_counter s + 1 then
        if i < 0 then Inl OutOfBounds
        else bindE (poll_one env sockfd i s) (\<lambda>(i', s'). poll_pass env sockfd i' s')
      else Inr s)"
  by pat_completeness auto
termination
  by (relation "measure (\<lambda>(env, sockfd, i, s). pass_measure (i, s))")
     (auto dest: poll_one_decreases(1) [OF _ leI])

declare poll_pass.simps [simp del]

text \<open>What \<open>poll\<close> reports: \<open>evs\<close> of the reply gives the bits by the index of the entry.\<close>

definition polled :: "reply \<Rightarrow> int \<Rightarrow> pollfd \<Rightarrow> pollfd" where
  "polled r i f = f\<lparr>revents := (case map_of (evs r) i of None \<Rightarrow> 0 | Some b \<Rightarrow> of_nat b)\<rparr>"

definition poll_call :: "chat \<Rightarrow> call" where
  "poll_call s = Poll (map (\<lambda>f. (fd f, unat (events f))) (take (nat (user_counter s + 1)) (fds s)))"

definition set_polled :: "reply \<Rightarrow> chat \<Rightarrow> chat" where
  "set_polled r s = s\<lparr>fds := map2 (\<lambda>i f. if i < user_counter s + 1 then polled r i f else f)
     [0..int (length (fds s)) - 1] (fds s)\<rparr>"

datatype chat_end = Exit int | Aborted | Serving chat

text \<open>The first \<open>n\<close> rounds; the program leaves the loop only when \<open>poll\<close> fails.\<close>

fun chat_rounds :: "env \<Rightarrow> int \<Rightarrow> nat \<Rightarrow> chat \<Rightarrow> (bool \<times> chat) res" where
  "chat_rounds env sockfd 0 s = Inr (True, s)"
| "chat_rounds env sockfd (Suc n) s =
     (let (r, s1) = do_call env (poll_call s) s in
      if ret r < 0 then Inr (False, s1)
      else bindE (poll_pass env sockfd 0 (set_polled r s1)) (chat_rounds env sockfd n))"

definition chat_main :: "env \<Rightarrow> nat \<Rightarrow> string list \<Rightarrow> chat_end res" where
  "chat_main env n args = (case args of
     ip # p # _ \<Rightarrow>
       bindE (atoi p) (\<lambda>port.
       let t0 = [];
           (sockfd, t1) = run_state (call_ret env Socket) t0 in
       if sockfd \<le> 0 then Inr Aborted
       else let (b, t2) = run_state (call_ret env (Bind sockfd ip port)) t1 in
       if b < 0 then Inr Aborted
       else let (l, t3) = run_state (call_ret env (Listen sockfd 5)) t2 in
       if l < 0 then Inr Aborted
       else bindE (chat_rounds env sockfd n (chat_init sockfd t3)) (\<lambda>(go, s).
         if go then Inr (Serving s)
         else let (_, s') = do_call env (Close sockfd) s in Inr (Exit 0)))
   | _ \<Rightarrow> Inr (Exit (- 1)))"


section \<open>Descriptors and buffers\<close>

text \<open>The entries in use: the listening socket and the users.\<close>

definition entries :: "chat \<Rightarrow> pollfd list" where
  "entries s = take (nat (user_counter s + 1)) (fds s)"

text \<open>Every bit of \<open>a\<close> is in \<open>b\<close>.\<close>

definition subbits :: "16 word \<Rightarrow> 16 word \<Rightarrow> bool" where
  "subbits a b \<longleftrightarrow> a AND NOT b = 0"

definition entry_ok :: "int \<Rightarrow> (int \<Rightarrow> client_data) \<Rightarrow> pollfd \<Rightarrow> bool" where
  "entry_ok sockfd us f \<longleftrightarrow> 0 \<le> fd f \<and> fd f < FD_LIMIT
     \<and> subbits (revents f) (events f OR POLL_ALWAYS)
     \<and> (has (events f) POLLOUT \<longrightarrow> write_buf (us (fd f)) \<noteq> Unset)
     \<and> (fd f = sockfd \<longrightarrow> events f = POLLIN OR POLLERR)"

definition user_ok :: "client_data \<Rightarrow> bool" where
  "user_ok u \<longleftrightarrow> (\<forall>b. buf u = Some b \<longrightarrow> NUL \<in> set b) \<and>
     (\<forall>k. write_buf u = BufOf k \<longrightarrow> 0 \<le> k \<and> k < FD_LIMIT)"

definition chat_ok :: "int \<Rightarrow> chat \<Rightarrow> bool" where
  "chat_ok sockfd s \<longleftrightarrow> length (fds s) = 6 \<and> 0 \<le> user_counter s \<and> user_counter s \<le> 5
     \<and> fd (fds s ! 0) = sockfd
     \<and> open_fds (tr s) = mset (map fd (entries s)) \<and> distinct (map fd (entries s))
     \<and> (\<forall>f\<in>set (entries s). entry_ok sockfd (users s) f) \<and> (\<forall>k. user_ok (users s k))"

text \<open>
  The kernel: descriptors are below the limit, \<open>accept\<close> gives one that is not open, \<open>poll\<close> reports
  what it was asked for, errors and hang-ups.
\<close>

definition chat_env :: "env \<Rightarrow> bool" where
  "chat_env env \<longleftrightarrow> (\<forall>t. ret (env t Socket) < FD_LIMIT) \<and>
     (\<forall>t k. 0 \<le> ret (env t (Accept k)) \<longrightarrow>
        ret (env t (Accept k)) \<notin># open_fds t \<and> ret (env t (Accept k)) < FD_LIMIT) \<and>
     (\<forall>t l i b. (i, b) \<in> set (evs (env t (Poll l))) \<longrightarrow> 0 \<le> i \<longrightarrow> i < int (length l) \<longrightarrow>
        subbits (of_nat b) (of_nat (snd (l ! nat i)) OR POLL_ALWAYS))"

text \<open>A computation that can only go wrong by a read of an uninitialised variable.\<close>

definition safe :: "('a \<Rightarrow> bool) \<Rightarrow> 'a res \<Rightarrow> bool" where
  "safe P m = (case m of Inl e \<Rightarrow> e = Uninitialised | Inr x \<Rightarrow> P x)"

lemma safe_simps [simp]: "safe P (Inr x) = P x" "safe P (Inl e) = (e = Uninitialised)"
  by (simp_all add: safe_def)

lemma safe_bindE: "safe P m \<Longrightarrow> (\<And>x. P x \<Longrightarrow> safe Q (f x)) \<Longrightarrow> safe Q (bindE m f)"
  by (cases m) auto

lemma bits_of_consts [simp]:
  "has POLLIN POLLIN" "\<not> has (POLLIN OR POLLERR) POLLOUT"
  "\<not> has (POLLIN OR POLLRDHUP OR POLLERR) POLLOUT"
  by (simp_all add: has_def POLLIN_def POLLERR_def POLLOUT_def POLLRDHUP_def)

lemma subbits_refl [simp]: "subbits a a" "subbits 0 a" "subbits a (a OR b)" "subbits a ((a OR c) OR b)"
  by (simp_all add: subbits_def bit_eq_iff bit_simps)

lemma subbits_trans: "subbits a b \<Longrightarrow> subbits b c \<Longrightarrow> subbits a c"
  by (auto simp: subbits_def bit_eq_iff bit_simps)

lemma subbits_widen: "subbits a (b OR c) \<Longrightarrow> subbits a (((b OR d) OR e) OR c)"
  by (auto simp: subbits_def bit_eq_iff bit_simps)

lemma has_subbits: "has a m \<Longrightarrow> subbits a b \<Longrightarrow> has b m"
  by (auto simp: has_def subbits_def bit_eq_iff bit_simps)

text \<open>The listening socket is never asked to report a leaving client or room to write.\<close>

lemma listening_bits:
  assumes "subbits r ((POLLIN OR POLLERR) OR POLL_ALWAYS)"
  shows "\<not> has r POLLRDHUP" "\<not> has r POLLOUT"
  using has_subbits [OF _ assms, of POLLRDHUP] has_subbits [OF _ assms, of POLLOUT]
  by (auto simp: has_def POLLIN_def POLLERR_def POLLOUT_def POLLRDHUP_def POLL_ALWAYS_def)

text \<open>The last entry takes the place of entry \<open>i\<close>.\<close>

lemma mset_drop_at:
  assumes "i \<le> n" "n < length xs"
  shows "mset (take n (xs[i := xs ! n])) = mset (take (Suc n) xs) - {#xs ! i#}"
proof (cases "i = n")
  case True
  then show ?thesis using assms by (simp add: take_Suc_conv_app_nth)
next
  case False
  then have "mset (take n (xs[i := xs ! n])) = add_mset (xs ! n) (mset (take n xs) - {#xs ! i#})"
    using assms by (simp add: take_update_swap mset_update)
  moreover have "xs ! i \<in># mset (take n xs)"
    using False assms by (auto simp: in_set_conv_nth intro!: exI [of _ i])
  ultimately show ?thesis using assms by (simp add: take_Suc_conv_app_nth)
qed

lemma chat_init_ok:
  assumes "open_fds t = {#sockfd#}" "0 \<le> sockfd" "sockfd < FD_LIMIT"
  shows "chat_ok sockfd (chat_init sockfd t)"
  using assms by (simp add: chat_ok_def chat_init_def entries_def entry_ok_def user_ok_def fresh_user_def)


subsection \<open>Every handler keeps the invariant\<close>

lemma entry_index:
  assumes "chat_ok sockfd s" "0 \<le> i" "i \<le> user_counter s"
  shows "nat i < length (entries s)" "nat i < length (fds s)" "entries s ! nat i = fds s ! nat i"
proof -
  have "length (fds s) = 6" "user_counter s \<le> 5" using assms(1) by (simp_all add: chat_ok_def)
  moreover from this have "nat i < nat (user_counter s + 1)" "nat i < 6" using assms(2,3) by linarith+
  ultimately show "nat i < length (entries s)" "nat i < length (fds s)" "entries s ! nat i = fds s ! nat i"
    by (simp_all add: entries_def)
qed

lemma entry_in:
  "chat_ok sockfd s \<Longrightarrow> 0 \<le> i \<Longrightarrow> i \<le> user_counter s \<Longrightarrow> fds s ! nat i \<in> set (entries s)"
  using entry_index [of sockfd s i] by (metis nth_mem)

lemma distinct_count: "distinct xs \<longleftrightarrow> (\<forall>a. count (mset xs) a \<le> 1)"
proof -
  have "(count (mset xs) a = (if a \<in> set xs then 1 else 0)) \<longleftrightarrow> count (mset xs) a \<le> 1" for a
    by (auto simp: le_Suc_eq count_mset_0_iff)
  then show ?thesis by (simp add: distinct_count_atmost_1)
qed

lemma entry_facts:
  assumes "chat_ok sockfd s" "0 \<le> i" "i \<le> user_counter s"
  shows "i < int (length (fds s))" "0 \<le> fd (fds s ! nat i)" "fd (fds s ! nat i) < FD_LIMIT"
    "entry_ok sockfd (users s) (fds s ! nat i)" "user_ok (users s k)"
  using assms entry_in [OF assms] by (auto simp: chat_ok_def entry_ok_def)

lemma fd_distinct:
  assumes "chat_ok sockfd s" "0 \<le> i" "i \<le> user_counter s" "0 \<le> j" "j \<le> user_counter s"
  shows "fd (fds s ! nat i) = fd (fds s ! nat j) \<longleftrightarrow> i = j"
proof -
  have *: "fd (fds s ! nat k) = map fd (entries s) ! nat k \<and> nat k < length (map fd (entries s))"
    if "0 \<le> k" "k \<le> user_counter s" for k
    using entry_index [OF assms(1) that] by simp
  have "distinct (map fd (entries s))" using assms(1) by (simp add: chat_ok_def)
  then show ?thesis
    using * [OF assms(2,3)] * [OF assms(4,5)] assms(2,4) by (metis nth_eq_iff_index_eq eq_nat_nat_iff)
qed

lemma user_not_listening:
  "chat_ok sockfd s \<Longrightarrow> 1 \<le> i \<Longrightarrow> i \<le> user_counter s \<Longrightarrow> fd (fds s ! nat i) \<noteq> sockfd"
  using fd_distinct [of sockfd s i 0] by (auto simp: chat_ok_def)

lemma update_entry:
  assumes ok: "chat_ok sockfd s" and j: "1 \<le> j" "j \<le> user_counter s"
    and f: "fd f' = fd (fds s ! nat j)" "subbits (revents f') (events f' OR POLL_ALWAYS)"
    and us: "\<And>k. k \<noteq> fd f' \<Longrightarrow> us k = users s k" "\<And>k. user_ok (us k)"
      "has (events f') POLLOUT \<Longrightarrow> write_buf (us (fd f')) \<noteq> Unset"
    and t: "open_fds t = open_fds (tr s)"
  shows "chat_ok sockfd (s\<lparr>users := us, fds := (fds s)[nat j := f'], tr := t\<rparr>)"
proof -
  let ?s = "s\<lparr>users := us, fds := (fds s)[nat j := f'], tr := t\<rparr>"
  have e: "entries ?s = (entries s)[nat j := f']"
    by (simp add: entries_def take_update_swap)
  have nj: "nat j < length (entries s)" "entries s ! nat j = fds s ! nat j"
    using entry_index [OF ok _ j(2)] j(1) by simp_all
  have m: "map fd (entries ?s) = map fd (entries s)"
    using nj f(1) by (simp add: e map_update list_update_same_conv)
  have "entry_ok sockfd us g" if g: "g \<in> set (entries ?s)" for g
  proof -
    consider "g = f'" | k where "k < length (entries s)" "k \<noteq> nat j" "g = entries s ! k"
      using g nj by (auto simp: e in_set_conv_nth nth_list_update split: if_splits)
    then show ?thesis
    proof cases
      case 1
      then show ?thesis
        using f us(3) entry_facts [OF ok _ j(2)] user_not_listening [OF ok j] j(1)
        by (simp add: entry_ok_def)
    next
      case (2 k)
      have "g \<in> set (entries s)" "fd g \<noteq> fd f'"
        using 2 nj f(1) ok nth_eq_iff_index_eq [of "map fd (entries s)" k "nat j"]
        by (auto simp: chat_ok_def)
      then show ?thesis using ok us(1) by (simp add: chat_ok_def entry_ok_def)
    qed
  qed
  then show ?thesis
    using ok us(2) t m j by (simp add: chat_ok_def)
qed

lemma take_out:
  assumes ok: "chat_ok sockfd s" and i: "1 \<le> i" "i \<le> user_counter s"
    and us: "\<And>k. k \<noteq> fd (fds s ! nat i) \<Longrightarrow> us k = users s k" "\<And>k. user_ok (us k)"
    and t: "open_fds t = open_fds (tr s) - {#fd (fds s ! nat i)#}"
  shows "chat_ok sockfd (s\<lparr>users := us, fds := (fds s)[nat i := fds s ! nat (user_counter s)],
    user_counter := user_counter s - 1, tr := t\<rparr>)" (is "chat_ok _ ?s")
proof -
  let ?uc = "nat (user_counter s)"
  have uc: "nat (user_counter s + 1) = Suc ?uc" "?uc < length (fds s)" "nat i \<le> ?uc"
    "fds s ! nat i \<in># mset (entries s)"
    using ok i entry_in [OF ok _ i(2)] by (auto simp: chat_ok_def)
  have e: "mset (entries ?s) = mset (entries s) - {#fds s ! nat i#}"
    using mset_drop_at [OF uc(3,2)] uc(1) by (simp add: entries_def)
  then have m: "mset (map fd (entries ?s)) = mset (map fd (entries s)) - {#fd (fds s ! nat i)#}"
    using uc(4) by (simp add: image_mset_Diff)
  have d: "distinct (map fd (entries s))" using ok by (simp add: chat_ok_def)
  then have n: "fd (fds s ! nat i) \<notin># mset (map fd (entries ?s))"
    unfolding m distinct_count not_in_iff by (simp add: le_diff_conv)
  have d': "distinct (map fd (entries ?s))"
    using d unfolding distinct_count m by (auto intro: le_trans [OF diff_le_self])
  have "entry_ok sockfd us g" if g: "g \<in> set (entries ?s)" for g
  proof -
    have "g \<in># mset (entries s)" using g e by (metis in_diffD set_mset_mset)
    moreover have "fd g \<noteq> fd (fds s ! nat i)"
      using n imageI [OF g, of fd] by (metis list.set_map set_mset_mset)
    ultimately show ?thesis using ok us(1) by (simp add: chat_ok_def entry_ok_def)
  qed
  then show ?thesis
    using ok us(2) t i m d' by (simp add: chat_ok_def)
qed


text \<open>With the invariant every access of an entry in use is inside its array.\<close>

lemma access_ok:
  assumes "chat_ok sockfd s" "0 \<le> i" "i \<le> user_counter s"
  shows "get_fd s i = Inr (fds s ! nat i)"
    "set_fd s i f = Inr (s\<lparr>fds := (fds s)[nat i := f]\<rparr>)"
    "get_user s (fd (fds s ! nat i)) = Inr (users s (fd (fds s ! nat i)))"
    "set_user s (fd (fds s ! nat i)) u = Inr (s\<lparr>users := (users s)(fd (fds s ! nat i) := u)\<rparr>)"
  using entry_facts [OF assms] assms(2) by (simp_all add: access_iff)

text \<open>Accesses look at their own array only.\<close>

lemma access_frame [simp]:
  "get_fd (s\<lparr>users := us\<rparr>) i = get_fd s i" "get_fd (s\<lparr>tr := t\<rparr>) i = get_fd s i"
  "get_user (s\<lparr>fds := fs\<rparr>) k = get_user s k" "get_user (s\<lparr>tr := t\<rparr>) k = get_user s k"
  by (simp_all add: get_fd_def get_user_def)

lemma user_left_ok:
  assumes ok: "chat_ok sockfd s" and i: "1 \<le> i" "i \<le> user_counter s"
  shows "safe (chat_ok sockfd) (user_left env i s)"
proof -
  let ?f = "fds s ! nat i" and ?l = "fds s ! nat (user_counter s)"
  have i0: "0 \<le> i" "0 \<le> user_counter s" "user_counter s \<le> user_counter s" using i by simp_all
  note a = access_ok [OF ok i0(1) i(2)] access_ok [OF ok i0(2,3)]
  have "chat_ok sockfd (s\<lparr>users := (users s)(fd ?f := users s (fd ?l)), fds := (fds s)[nat i := ?l],
     user_counter := user_counter s - 1, tr := (Close (fd ?f), env (tr s) (Close (fd ?f))) # tr s\<rparr>)"
    using i entry_facts(5) [OF ok i0(1) i(2)] by (intro take_out [OF ok i]) auto
  then show ?thesis
    using entry_facts(1) [OF ok i0(1) i(2)] i0
    by (simp add: user_left_def copy_user_def drop_entry_def a access_iff set_fd_def)
qed

lemma broadcast_ok:
  "chat_ok sockfd s \<Longrightarrow> 1 \<le> j \<Longrightarrow> j + int n \<le> user_counter s + 1 \<Longrightarrow> 0 \<le> k \<Longrightarrow> k < FD_LIMIT \<Longrightarrow>
   safe (chat_ok sockfd) (broadcast n j k s)"
proof (induction n arbitrary: j s)
  case (Suc n)
  let ?f = "fds s ! nat j"
  let ?f' = "?f\<lparr>events := (events ?f OR NOT POLLIN) OR POLLOUT\<rparr>"
  let ?s = "s\<lparr>users := (users s)(fd ?f := (users s (fd ?f))\<lparr>write_buf := BufOf k\<rparr>),
    fds := (fds s)[nat j := ?f'], tr := tr s\<rparr>"
  have j: "0 \<le> j" "j \<le> user_counter s" using Suc.prems by simp_all
  note a = access_ok [OF Suc.prems(1) j]
  have "subbits (revents ?f) (events ?f' OR POLL_ALWAYS)"
    using entry_facts(4) [OF Suc.prems(1) j]
    by (simp add: entry_ok_def subbits_widen)
  moreover have "user_ok ((users s (fd ?f))\<lparr>write_buf := BufOf k\<rparr>)"
    using entry_facts(5) [OF Suc.prems(1) j] Suc.prems(4,5) by (simp add: user_ok_def)
  ultimately have "chat_ok sockfd ?s"
    using entry_facts(5) [OF Suc.prems(1) j]
    by (intro update_entry [OF Suc.prems(1,2) j(2)]) auto
  then have "safe (chat_ok sockfd) (broadcast n (j + 1) k ?s)"
    using Suc.prems by (intro Suc.IH) simp_all
  then show ?case
    using Suc.IH [of s "j + 1"] Suc.prems a by (simp add: set_user_def entry_facts [OF Suc.prems(1) j])
qed simp


lemma recv_buffer_NUL: "NUL \<in> set (recv_buffer d)"
  by (simp add: recv_buffer_def Let_def BUFFER_SIZE_MAX_def)

lemma user_message_ok:
  assumes ok: "chat_ok sockfd s" and i: "1 \<le> i" "i \<le> user_counter s"
  shows "safe (\<lambda>(_, s'). chat_ok sockfd s') (user_message env i s)"
proof -
  let ?f = "fds s ! nat i" and ?l = "fds s ! nat (user_counter s)"
  let ?c = "Read (fd ?f) (BUFFER_SIZE_MAX - 1)"
  let ?r = "env (tr s) ?c"
  define us where "us = (users s)(fd ?f := (users s (fd ?f))\<lparr>buf := Some (recv_buffer (if ret ?r > 0 then data ?r else []))\<rparr>)"
  let ?t = "(?c, ?r) # tr s"
  let ?s2 = "s\<lparr>users := us, tr := ?t\<rparr>"
  have i0: "0 \<le> i" "0 \<le> user_counter s" "user_counter s \<le> user_counter s" using i by simp_all
  note a = access_ok [OF ok i0(1) i(2)] and u = entry_facts [OF ok i0(1) i(2)]
  have ok_us: "user_ok (us k)" for k
    using u(5) [of k] u(5) [of "fd ?f"] by (auto simp: us_def user_ok_def recv_buffer_NUL)
  have 2: "chat_ok sockfd ?s2"
    using update_entry [OF ok i refl, of us ?t] u(4) ok_us by (simp add: us_def entry_ok_def list_update_id)
  have 0: "user_message env i s = (if ret ?r < 0 then
      (if ret ?r \<noteq> - 11 then
        bindE (copy_user i (?s2\<lparr>tr := (Close (fd ?f), env ?t (Close (fd ?f))) # ?t\<rparr>))
          (\<lambda>s4. bindE (drop_entry i s4) (\<lambda>s5. Inr (True, s5)))
       else Inr (False, ?s2))
     else if ret ?r = 0 then Inr (False, ?s2)
     else bindE (broadcast (nat (user_counter s)) 1 (fd ?f) ?s2) (\<lambda>s3. Inr (False, s3)))"
    using u(2,3) by (simp add: user_message_def received_def a Let_def set_user_def us_def)
  have 3: "safe (\<lambda>(_, s'). chat_ok sockfd s')
      (bindE (copy_user i (?s2\<lparr>tr := (Close (fd ?f), env ?t (Close (fd ?f))) # ?t\<rparr>))
          (\<lambda>s4. bindE (drop_entry i s4) (\<lambda>s5. Inr (True, s5))))"
  proof -
    let ?s3 = "?s2\<lparr>tr := (Close (fd ?f), env ?t (Close (fd ?f))) # ?t\<rparr>"
    let ?us3 = "(users ?s3)(fd ?f := users ?s3 (fd ?l))"
    have "chat_ok sockfd (?s2\<lparr>users := ?us3, fds := (fds ?s2)[nat i := fds ?s2 ! nat (user_counter ?s2)],
        user_counter := user_counter ?s2 - 1, tr := (Close (fd ?f), env ?t (Close (fd ?f))) # ?t\<rparr>)"
      using i ok_us by (intro take_out [OF 2]) auto
    moreover have "copy_user i ?s3 = Inr (?s3\<lparr>users := ?us3\<rparr>)"
      using u(1-3) entry_facts(1-3) [OF ok i0(2,3)] i0
      by (simp add: copy_user_def get_fd_def get_user_def set_user_def)
    moreover have "drop_entry i (?s3\<lparr>users := ?us3\<rparr>) = Inr (?s3\<lparr>users := ?us3,
        fds := (fds s)[nat i := ?l], user_counter := user_counter s - 1\<rparr>)"
      using u(1) entry_facts(1) [OF ok i0(2,3)] i0 by (simp add: drop_entry_def get_fd_def set_fd_def)
    ultimately show ?thesis by simp
  qed
  have 4: "safe (\<lambda>(_, s'). chat_ok sockfd s')
      (bindE (broadcast (nat (user_counter s)) 1 (fd ?f) ?s2) (\<lambda>s3. Inr (False, s3)))"
    by (rule safe_bindE [OF broadcast_ok [OF 2]]) (use u(2,3) i0 in auto)
  show ?thesis unfolding 0 using 2 3 4 by simp
qed

lemma text_at_ok: "chat_ok sockfd s \<Longrightarrow> 0 \<le> k \<Longrightarrow> k < FD_LIMIT \<Longrightarrow> safe (\<lambda>_. True) (text_at s k)"
  by (auto simp: text_at_def get_user_def c_string_def chat_ok_def user_ok_def split: option.splits)

lemma user_writable_ok:
  assumes ok: "chat_ok sockfd s" and i: "1 \<le> i" "i \<le> user_counter s"
  shows "safe (chat_ok sockfd) (user_writable env i s)"
proof (cases "write_buf (users s (fd (fds s ! nat i)))")
  case (BufOf k)
  let ?f = "fds s ! nat i"
  let ?f' = "?f\<lparr>events := (events ?f OR NOT POLLOUT) OR POLLIN\<rparr>"
  have i0: "0 \<le> i" using i by simp
  note a = access_ok [OF ok i0 i(2)] and u = entry_facts [OF ok i0 i(2)]
  have k: "0 \<le> k" "k < FD_LIMIT" using u(5) [of "fd ?f"] BufOf by (simp_all add: user_ok_def)
  have "chat_ok sockfd (s\<lparr>users := (users s)(fd ?f := (users s (fd ?f))\<lparr>write_buf := Null\<rparr>),
      fds := (fds s)[nat i := ?f'], tr := (Write (fd ?f) msg, env (tr s) (Write (fd ?f) msg)) # tr s\<rparr>)" for msg
    using u(4,5) by (intro update_entry [OF ok i]) (auto simp: entry_ok_def subbits_widen user_ok_def)
  then show ?thesis
    using BufOf u(1-3) i0
    by (auto simp: user_writable_def a Let_def get_user_def set_user_def set_fd_def
        intro!: safe_bindE [OF text_at_ok [OF ok k]])
qed (use access_ok [OF ok _ i(2)] ok i in \<open>simp_all add: user_writable_def\<close>)


text \<open>Calls that open and close nothing.\<close>

lemma chat_ok_call:
  "chat_ok sockfd s \<Longrightarrow> open_fds t = open_fds (tr s) \<Longrightarrow> chat_ok sockfd (s\<lparr>tr := t\<rparr>)"
  by (simp add: chat_ok_def entries_def)

lemma new_user_ok:
  assumes ok: "chat_ok sockfd s" and env: "chat_env env"
  shows "safe (chat_ok sockfd) (new_user env sockfd s)"
proof -
  let ?k = "ret (env (tr s) (Accept sockfd))"
  let ?t1 = "(Accept sockfd, env (tr s) (Accept sockfd)) # tr s"
  let ?f = "\<lparr>fd = ?k, events = POLLIN OR POLLRDHUP OR POLLERR, revents = 0\<rparr>"
  let ?uc = "user_counter s + 1"
  have k: "?k \<notin># open_fds (tr s)" "?k < FD_LIMIT" if "0 \<le> ?k"
    using env that by (auto simp: chat_env_def)
  show ?thesis
  proof (cases "?k < 0 \<or> USER_LIMIT \<le> user_counter s")
    case True
    then show ?thesis
      using ok by (auto simp: new_user_def Let_def intro!: chat_ok_call)
  next
    case False
    then have uc: "nat (?uc + 1) = Suc (nat ?uc)" "nat ?uc < length (fds s)" "0 \<le> user_counter s" "?uc \<le> 5"
      using ok by (auto simp: chat_ok_def USER_LIMIT_def)
    have e: "entries (s\<lparr>fds := (fds s)[nat ?uc := ?f], user_counter := ?uc, tr := t\<rparr>) = entries s @ [?f]" for t
      using uc by (simp add: entries_def take_Suc_conv_app_nth)
    have n: "?k \<notin> fd ` set (entries s)"
      using k False ok by (auto simp: chat_ok_def)
    moreover have "sockfd \<in> fd ` set (entries s)"
      using entry_in [OF ok, of 0] uc ok by (auto simp: chat_ok_def)
    ultimately have "?k \<noteq> sockfd" by auto
    then have "chat_ok sockfd (s\<lparr>fds := (fds s)[nat ?uc := ?f], user_counter := ?uc, tr := t\<rparr>)"
      if "open_fds t = add_mset ?k (open_fds (tr s))" for t
      using ok uc n k False that
      unfolding chat_ok_def e by (auto simp: entry_ok_def)
    then show ?thesis
      using False uc k by (simp add: new_user_def Let_def setnonblocking_def get_user_def set_user_def set_fd_def)
  qed
qed

lemma poll_one_ok:
  assumes ok: "chat_ok sockfd s" and env: "chat_env env" and i: "0 \<le> i" "i \<le> user_counter s"
  shows "safe (\<lambda>(_, s'). chat_ok sockfd s') (poll_one env sockfd i s)"
proof -
  let ?f = "fds s ! nat i"
  have e: "entry_ok sockfd (users s) ?f" by (rule entry_facts [OF ok i])
  have one: "1 \<le> i" if "has (revents ?f) POLLRDHUP \<or> fd ?f \<noteq> sockfd \<or> has (revents ?f) POLLOUT"
  proof (rule ccontr)
    assume "\<not> 1 \<le> i"
    then have "fd ?f = sockfd" using i(1) ok by (simp add: chat_ok_def)
    moreover have "subbits (revents ?f) ((POLLIN OR POLLERR) OR POLL_ALWAYS)"
      using e calculation unfolding entry_ok_def by metis
    ultimately show False using that listening_bits by blast
  qed
  consider "fd ?f = sockfd \<and> has (revents ?f) POLLIN"
    | "\<not> (fd ?f = sockfd \<and> has (revents ?f) POLLIN)" by blast
  then show ?thesis
  proof cases
    case 1
    then show ?thesis
      by (auto simp: poll_one_def access_ok [OF ok i] intro!: safe_bindE [OF new_user_ok [OF ok env]])
  next
    case 2
    have "safe (\<lambda>(_, s'). chat_ok sockfd s') (bindE (user_left env i s) (\<lambda>s'. Inr (i, s')))"
      if "has (revents ?f) POLLRDHUP"
      by (rule safe_bindE [OF user_left_ok [OF ok one i(2)]]) (use that in auto)
    moreover have "safe (\<lambda>(_, s'). chat_ok sockfd s')
        (bindE (user_message env i s) (\<lambda>(gone, s'). Inr (if gone then i else i + 1, s')))"
      if "fd ?f \<noteq> sockfd"
      by (rule safe_bindE [OF user_message_ok [OF ok one i(2)]]) (use that in auto)
    moreover have "safe (\<lambda>(_, s'). chat_ok sockfd s') (bindE (user_writable env i s) (\<lambda>s'. Inr (i + 1, s')))"
      if "has (revents ?f) POLLOUT"
      by (rule safe_bindE [OF user_writable_ok [OF ok one i(2)]]) (use that in auto)
    ultimately show ?thesis
      using 2 ok by (auto simp: poll_one_def access_ok [OF ok i] intro!: chat_ok_call)
  qed
qed

lemma poll_pass_ok:
  "chat_ok sockfd s \<Longrightarrow> chat_env env \<Longrightarrow> 0 \<le> i \<Longrightarrow> safe (chat_ok sockfd) (poll_pass env sockfd i s)"
proof (induction env sockfd i s rule: poll_pass.induct)
  case (1 env sockfd i s)
  show ?case
  proof (cases "i < user_counter s + 1")
    case True
    have *: "safe (\<lambda>(_, s'). chat_ok sockfd s') (poll_one env sockfd i s)"
      using True 1 by (intro poll_one_ok) simp_all
    show ?thesis
    proof (cases "poll_one env sockfd i s")
      case (Inl e)
      then show ?thesis using * True 1 by (simp add: poll_pass.simps)
    next
      case (Inr x)
      obtain i' s' where x: "x = (i', s')" by (cases x)
      have "0 \<le> i'" using poll_one_decreases(2) [OF Inr [unfolded x]] True 1 by simp
      then show ?thesis
        using 1 True * Inr x by (simp add: poll_pass.simps [of env sockfd i])
    qed
  next
    case False
    then show ?thesis using 1 by (simp add: poll_pass.simps)
  qed
qed


lemma fds_set_polled:
  "k < length (fds s) \<Longrightarrow> fds (set_polled r s) ! k =
     (if int k < user_counter s + 1 then polled r (int k) (fds s ! k) else fds s ! k)"
  by (simp add: set_polled_def nth_upto)

lemma entries_set_polled:
  "entries (set_polled r s) = map (\<lambda>k. polled r (int k) (entries s ! k)) [0..<length (entries s)]"
  by (rule nth_equalityI) (auto simp: entries_def fds_set_polled, auto simp: set_polled_def)

lemma chat_env_poll:
  "chat_env env \<Longrightarrow> (i, b) \<in> set (evs (env t (Poll l))) \<Longrightarrow> 0 \<le> i \<Longrightarrow> i < int (length l) \<Longrightarrow>
   subbits (of_nat b) (of_nat (snd (l ! nat i)) OR POLL_ALWAYS)"
  unfolding chat_env_def by blast

lemma set_polled_ok:
  assumes ok: "chat_ok sockfd s" and env: "chat_env env"
    and r: "r = env (tr s) (poll_call s)" and t: "t = (poll_call s, r) # tr s"
  shows "chat_ok sockfd (set_polled r (s\<lparr>tr := t\<rparr>))"
proof -
  let ?s = "set_polled r (s\<lparr>tr := t\<rparr>)"
  have e: "entries ?s = map (\<lambda>k. polled r (int k) (entries s ! k)) [0..<length (entries s)]"
    by (subst entries_set_polled) (simp add: entries_def)
  have m: "map fd (entries ?s) = map fd (entries s)"
    unfolding e by (rule nth_equalityI) (simp_all add: polled_def)
  have "entry_ok sockfd (users s) g" if g: "g \<in> set (entries ?s)" for g
  proof -
    obtain k where k: "k < length (entries s)" "g = polled r (int k) (entries s ! k)"
      using g by (auto simp: e)
    have ek: "entry_ok sockfd (users s) (entries s ! k)"
      using ok k(1) by (simp add: chat_ok_def)
    have "subbits (of_nat b) (events (entries s ! k) OR POLL_ALWAYS)" if "map_of (evs r) (int k) = Some b" for b
    proof -
      have "(int k, b) \<in> set (evs (env (tr s) (Poll (map (\<lambda>f. (fd f, unat (events f))) (entries s)))))"
        using that map_of_SomeD by (fastforce simp: r poll_call_def entries_def)
      from chat_env_poll [OF env this] show ?thesis using k(1) by simp
    qed
    then show ?thesis
      using ek by (auto simp: k(2) entry_ok_def polled_def split: option.splits)
  qed
  moreover have "fd (fds ?s ! 0) = fd (fds s ! 0)"
    using ok by (simp add: fds_set_polled chat_ok_def polled_def)
  moreover have "length (fds ?s) = length (fds s)" "user_counter ?s = user_counter s"
    "users ?s = users s" "open_fds (tr ?s) = open_fds (tr s)"
    by (simp_all add: set_polled_def t poll_call_def)
  ultimately show ?thesis
    using ok unfolding chat_ok_def m by simp
qed

lemma chat_rounds_ok:
  "chat_ok sockfd s \<Longrightarrow> chat_env env \<Longrightarrow> safe (\<lambda>(_, s'). chat_ok sockfd s') (chat_rounds env sockfd n s)"
proof (induction n arbitrary: s)
  case (Suc n)
  have "chat_ok sockfd (s\<lparr>tr := (poll_call s, env (tr s) (poll_call s)) # tr s\<rparr>)"
    by (rule chat_ok_call [OF Suc.prems(1)]) (simp add: poll_call_def)
  moreover have "safe (\<lambda>(_, s'). chat_ok sockfd s')
      (bindE (poll_pass env sockfd 0 (set_polled (env (tr s) (poll_call s))
        (s\<lparr>tr := (poll_call s, env (tr s) (poll_call s)) # tr s\<rparr>))) (chat_rounds env sockfd n))"
    by (rule safe_bindE [OF poll_pass_ok]) (use Suc set_polled_ok in auto)
  ultimately show ?case by (simp add: Let_def)
qed simp

text \<open>
  C12: The descriptors of the chat server. With a kernel that hands out fresh descriptors and
  reports only requested events, after any number of rounds the server has between 0 and 5 users, and
  the open descriptors are exactly the listening socket and the sockets of the users in the array, each once.
  Every access is inside its array; the only undefined behaviour is the use of an
  uninitialised buffer.
\<close>

theorem chat_server_descriptors:
  assumes "chat_env env" "atoi p = Inr port"
  shows "case chat_main env n [ip, p] of
      Inl e \<Rightarrow> e = Uninitialised
    | Inr (Serving s) \<Rightarrow> 0 \<le> user_counter s \<and> user_counter s \<le> 5
        \<and> open_fds (tr s) = mset (map fd (take (nat (user_counter s) + 1) (fds s)))
        \<and> distinct (map fd (take (nat (user_counter s) + 1) (fds s)))
    | _ \<Rightarrow> True"
proof -
  let ?k = "ret (env [] Socket)"
  define t where "t = snd (run_state (call_ret env (Listen ?k 5)) (snd (run_state (call_ret env (Bind ?k ip port))
    (snd (run_state (call_ret env Socket) [])))))"
  have "safe (\<lambda>(_, s'). chat_ok ?k s') (chat_rounds env ?k n (chat_init ?k t))" if "?k > 0"
    using that assms(1) by (intro chat_rounds_ok chat_init_ok) (simp_all add: t_def chat_env_def)
  then show ?thesis
    using assms(2)
    by (cases "chat_rounds env ?k n (chat_init ?k t)")
      (auto simp: chat_main_def Let_def t_def chat_ok_def entries_def nat_add_distrib)
qed


section \<open>Requested events\<close>

text \<open>
  From \<open>s\<close> to \<open>s'\<close> every user has been closed, or is still there and waits for all the events it waited
  for.
\<close>

definition keeps :: "chat \<Rightarrow> chat \<Rightarrow> bool" where
  "keeps s s' \<longleftrightarrow> (\<exists>new. tr s' = new @ tr s \<and> (\<forall>e\<in>set (entries s). (\<exists>r. (Close (fd e), r) \<in> set new)
     \<or> (\<exists>e'\<in>set (entries s'). fd e' = fd e \<and> subbits (events e) (events e'))))"

lemma keeps_refl [simp]: "keeps s s"
  by (auto simp: keeps_def intro!: exI [of _ "[]"] subbits_refl)

lemma keeps_trans:
  assumes "keeps s1 s2" "keeps s2 s3"
  shows "keeps s1 s3"
proof -
  obtain n1 n2 where n: "tr s2 = n1 @ tr s1" "tr s3 = n2 @ tr s2"
    and a: "\<forall>e\<in>set (entries s1). (\<exists>r. (Close (fd e), r) \<in> set n1)
      \<or> (\<exists>e'\<in>set (entries s2). fd e' = fd e \<and> subbits (events e) (events e'))"
    and b: "\<forall>e\<in>set (entries s2). (\<exists>r. (Close (fd e), r) \<in> set n2)
      \<or> (\<exists>e'\<in>set (entries s3). fd e' = fd e \<and> subbits (events e) (events e'))"
    using assms unfolding keeps_def by blast
  have "(\<exists>r. (Close (fd e), r) \<in> set (n2 @ n1))
      \<or> (\<exists>e'\<in>set (entries s3). fd e' = fd e \<and> subbits (events e) (events e'))"
    if "e \<in> set (entries s1)" for e
    using a b that by (metis Un_iff set_append subbits_trans)
  then show ?thesis using n unfolding keeps_def by (intro exI [of _ "n2 @ n1"]) simp
qed

text \<open>Changes that keep the entries and their requests.\<close>

lemma keeps_by_index:
  assumes "tr s' = new @ tr s"
    and "\<And>k. k < length (entries s) \<Longrightarrow> (\<exists>r. (Close (fd (entries s ! k)), r) \<in> set new) \<or>
      (\<exists>j<length (entries s'). fd (entries s' ! j) = fd (entries s ! k)
         \<and> subbits (events (entries s ! k)) (events (entries s' ! j)))"
  shows "keeps s s'"
  unfolding keeps_def using assms by (metis in_set_conv_nth)

lemma keeps_same_index:
  assumes "tr s' = new @ tr s"
    and "\<And>k. k < length (entries s) \<Longrightarrow> k < length (entries s') \<and> fd (entries s' ! k) = fd (entries s ! k)
         \<and> subbits (events (entries s ! k)) (events (entries s' ! k))"
  shows "keeps s s'"
  using assms by (intro keeps_by_index [of _ new]) blast+

lemma keeps_set_fd:
  assumes "fd f = fd (fds s ! nat j)" "subbits (events (fds s ! nat j)) (events f)"
    and "fds s' = (fds s)[nat j := f]" "user_counter s' = user_counter s" "suffix (tr s) (tr s')"
  shows "keeps s s'"
proof -
  obtain new where new: "tr s' = new @ tr s" using assms(5) by (auto simp: suffix_def)
  then show ?thesis
  proof (rule keeps_same_index)
    fix k assume "k < length (entries s)"
    then show "k < length (entries s') \<and> fd (entries s' ! k) = fd (entries s ! k)
        \<and> subbits (events (entries s ! k)) (events (entries s' ! k))"
      using assms by (cases "k = nat j") (auto simp: entries_def)
  qed
qed

lemma keeps_frame:
  assumes "map fd (fds s') = map fd (fds s)" "map events (fds s') = map events (fds s)"
    and "user_counter s' = user_counter s" "suffix (tr s) (tr s')"
  shows "keeps s s'"
proof -
  obtain new where "tr s' = new @ tr s" using assms(4) by (auto simp: suffix_def)
  moreover have "fd (fds s' ! k) = fd (fds s ! k) \<and> events (fds s' ! k) = events (fds s ! k)"
    if "k < length (fds s)" for k
    using assms(1,2) that by (metis length_map nth_map)
  ultimately show ?thesis
    using assms(3) map_eq_imp_length_eq [OF assms(1)]
    by (intro keeps_same_index [of _ new]) (auto simp: entries_def)
qed

lemma keeps_add:
  assumes "fds s' = (fds s)[nat (user_counter s + 1) := f]" "user_counter s' = user_counter s + 1"
    "suffix (tr s) (tr s')"
  shows "keeps s s'"
proof -
  obtain new where "tr s' = new @ tr s" using assms(3) by (auto simp: suffix_def)
  then show ?thesis
    by (rule keeps_same_index) (use assms in \<open>auto simp: entries_def nth_list_update\<close>)
qed

lemma keeps_take_out:
  assumes "0 \<le> i" "i \<le> user_counter s" "user_counter s < int (length (fds s))"
    and s': "fds s' = (fds s)[nat i := fds s ! nat (user_counter s)]" "user_counter s' = user_counter s - 1"
    and t: "tr s' = (Close (fd (fds s ! nat i)), r) # t" "suffix (tr s) t"
  shows "keeps s s'"
proof -
  obtain new where new: "t = new @ tr s" using t(2) by (auto simp: suffix_def)
  show ?thesis
  proof (rule keeps_by_index [of _ "(Close (fd (fds s ! nat i)), r) # new"])
    fix k assume "k < length (entries s)"
    then have k: "k \<le> nat (user_counter s)" using assms(1-3) by (simp add: entries_def)
    let ?j = "if k = nat (user_counter s) then nat i else k"
    show "(\<exists>q. (Close (fd (entries s ! k)), q) \<in> set ((Close (fd (fds s ! nat i)), r) # new)) \<or>
      (\<exists>j<length (entries s'). fd (entries s' ! j) = fd (entries s ! k)
         \<and> subbits (events (entries s ! k)) (events (entries s' ! j)))"
    proof (cases "k = nat i")
      case True
      then show ?thesis using assms(1-3) k by (auto simp: entries_def)
    next
      case False
      then have "k = nat (user_counter s) \<Longrightarrow> nat i < nat (user_counter s)" using assms(1,2) by linarith
      then have "?j < length (entries s') \<and> entries s' ! ?j = entries s ! k"
        using assms(1-3) s' k False by (auto simp: entries_def nth_list_update)
      then show ?thesis by (intro disjI2 exI [of _ ?j]) simp
    qed
  qed (simp add: t new)
qed

lemma new_user_keeps:
  assumes "new_user env sockfd s = Inr s'"
  shows "keeps s s'"
proof (cases "ret (env (tr s) (Accept sockfd)) < 0 \<or> USER_LIMIT \<le> user_counter s")
  case True
  then show ?thesis
    using assms by (intro keeps_frame) (auto simp: new_user_def Let_def suffix_ConsI split: if_splits)
next
  case False
  then show ?thesis
    using assms by (intro keeps_add) (auto simp: new_user_def Let_def setnonblocking_def access suffix_ConsI)
qed

lemma user_left_keeps:
  "user_left env i s = Inr s' \<Longrightarrow> 0 \<le> i \<Longrightarrow> i \<le> user_counter s \<Longrightarrow> keeps s s'"
  by (auto simp: user_left_def copy_user_def drop_entry_def access intro!: keeps_take_out)

lemma broadcast_keeps: "broadcast n j k s = Inr s' \<Longrightarrow> keeps s s'"
proof (induction n arbitrary: j s)
  case (Suc n)
  show ?case
  proof (cases "fd (fds s ! nat j) = k")
    case True
    then show ?thesis using Suc by (auto simp: access split: if_splits)
  next
    case False
    then obtain s1 where s1: "broadcast n (j + 1) k s1 = Inr s'" "fds s1 = (fds s)[nat j :=
        (fds s ! nat j)\<lparr>events := (events (fds s ! nat j) OR NOT POLLIN) OR POLLOUT\<rparr>]"
        "user_counter s1 = user_counter s" "tr s1 = tr s"
      using Suc.prems by (auto simp: access)
    then have "keeps s s1"
      by (intro keeps_set_fd [of _ s j]) (auto simp: or.assoc)
    then show ?thesis using Suc.IH [OF s1(1)] keeps_trans by blast
  qed
qed simp

lemma received_keeps:
  assumes "received env i (fd (fds s ! nat i)) n s = Inr (gone, s')" "0 \<le> i" "i \<le> user_counter s"
  shows "keeps s s'"
proof (cases "n < 0 \<and> n \<noteq> - 11")
  case True
  then show ?thesis
    using assms by (auto simp: received_def copy_user_def drop_entry_def access intro!: keeps_take_out)
next
  case False
  then show ?thesis
    using assms broadcast_keeps by (auto simp: received_def access split: if_splits)
qed

lemma user_message_keeps:
  assumes "user_message env i s = Inr (gone, s')" "0 \<le> i" "i \<le> user_counter s"
  shows "keeps s s'"
proof -
  obtain s2 n where 2: "received env i (fd (fds s ! nat i)) n s2 = Inr (gone, s')"
    "fds s2 = fds s" "user_counter s2 = user_counter s" "suffix (tr s) (tr s2)"
    using assms(1) by (auto simp: user_message_def Let_def access suffix_ConsI intro: that)
  then have "keeps s s2" by (intro keeps_frame) simp_all
  moreover have "keeps s2 s'"
    by (rule received_keeps [of env i s2 n gone]) (use 2 assms(2,3) in simp_all)
  ultimately show ?thesis by (rule keeps_trans)
qed

lemma user_writable_keeps:
  assumes "user_writable env i s = Inr s'"
  shows "keeps s s'"
proof (cases "write_buf (users s (fd (fds s ! nat i)))")
  case (BufOf k)
  then show ?thesis
    using assms unfolding user_writable_def
    by (intro keeps_set_fd [of "(fds s ! nat i)\<lparr>events := (events (fds s ! nat i) OR NOT POLLOUT) OR POLLIN\<rparr>" s i])
       (auto simp: Let_def access or.assoc suffix_ConsI)
qed (use assms in \<open>auto simp: user_writable_def access\<close>)

lemma poll_one_keeps:
  assumes "poll_one env sockfd i s = Inr (i', s')" "0 \<le> i" "i \<le> user_counter s"
  shows "keeps s s'"
proof -
  have "keeps s (s\<lparr>tr := (c, r) # tr s\<rparr>)" for c r
    by (intro keeps_frame) (simp_all add: suffix_ConsI)
  then show ?thesis
    using assms
    by (auto simp: poll_one_def access split: if_splits prod.splits
        intro: new_user_keeps user_left_keeps user_message_keeps user_writable_keeps)
qed

lemma poll_pass_keeps: "poll_pass env sockfd i s = Inr s' \<Longrightarrow> keeps s s'"
proof (induction env sockfd i s rule: poll_pass.induct)
  case (1 env sockfd i s)
  show ?case
  proof (cases "i < user_counter s + 1")
    case True
    then obtain i1 s1 where s1: "poll_one env sockfd i s = Inr (i1, s1)" "0 \<le> i"
        "poll_pass env sockfd i1 s1 = Inr s'"
      using "1.prems" by (auto simp: poll_pass.simps [of env sockfd i] bindE_eq_Inr split: if_splits)
    then have "keeps s1 s'" using 1(1) [OF True _ s1(1) refl] by simp
    moreover have "keeps s s1" using poll_one_keeps [OF s1(1,2)] True by simp
    ultimately show ?thesis using keeps_trans by blast
  next
    case False
    then show ?thesis using "1.prems" by (simp add: poll_pass.simps)
  qed
qed

lemma set_polled_keeps: "keeps s (set_polled r s)"
  by (intro keeps_frame nth_equalityI) (auto simp: fds_set_polled, auto simp: set_polled_def polled_def)

lemma chat_rounds_keeps: "chat_rounds env sockfd n s = Inr (go, s') \<Longrightarrow> keeps s s'"
proof (induction n arbitrary: s)
  case (Suc n)
  let ?s1 = "s\<lparr>tr := (poll_call s, env (tr s) (poll_call s)) # tr s\<rparr>"
  have 1: "keeps s ?s1" by (intro keeps_frame) (simp_all add: suffix_ConsI)
  show ?case
  proof (cases "ret (env (tr s) (poll_call s)) < 0")
    case True
    then show ?thesis using Suc.prems 1 by (simp add: Let_def)
  next
    case False
    then obtain s2 where "poll_pass env sockfd 0 (set_polled (env (tr s) (poll_call s)) ?s1) = Inr s2"
        "chat_rounds env sockfd n s2 = Inr (go, s')"
      using Suc.prems by (auto simp: Let_def bindE_eq_Inr)
    then show ?thesis
      using keeps_trans [OF 1 keeps_trans [OF set_polled_keeps keeps_trans [OF poll_pass_keeps Suc.IH]]]
      by blast
  qed
qed simp

text \<open>
  No requested event is ever given up. In any run of the server, a user that is not closed
  is still in the array afterwards and waits for every event it waited for before. So, once a message has
  been handed to a user, its socket is polled for room to write for ever, and the loop does
  not block while the socket is writable.
\<close>

theorem chat_events_never_cleared:
  assumes "chat_rounds env sockfd n s = Inr (go, s')" "e \<in> set (take (nat (user_counter s + 1)) (fds s))"
  shows "\<exists>new. tr s' = new @ tr s \<and> ((\<exists>r. (Close (fd e), r) \<in> set new)
    \<or> (\<exists>e'\<in>set (take (nat (user_counter s' + 1)) (fds s')). fd e' = fd e \<and> events e AND NOT (events e') = 0))"
  using chat_rounds_keeps [OF assms(1)] assms(2) unfolding keeps_def entries_def subbits_def by blast


section \<open>A run\<close>

text \<open>
  A kernel that follows a script: what the k-th \<open>poll\<close> reports, as far as it was asked for. Every
  \<open>recv\<close> gives two characters.
\<close>

definition script_env :: "(int \<times> nat) list list \<Rightarrow> env" where
  "script_env script t c = (case c of
     Socket \<Rightarrow> \<lparr>ret = 3, data = [], evs = []\<rparr>
   | Accept k \<Rightarrow>
       (let n = 4 + int (length (filter (\<lambda>(c, r). case c of Accept _ \<Rightarrow> True | _ \<Rightarrow> False) t)) in
        \<lparr>ret = (if list_ex (\<lambda>(_, r). ret r = n) t \<or> FD_LIMIT \<le> n then - 24 else n), data = [], evs = []\<rparr>)
   | Poll l \<Rightarrow>
       (let k = length (filter (\<lambda>(c, r). case c of Poll _ \<Rightarrow> True | _ \<Rightarrow> False) t) in
        \<lparr>ret = 1, data = [], evs = filter (\<lambda>(i, b). 0 \<le> i \<and> i < int (length l)
            \<and> subbits (of_nat b) (of_nat (snd (l ! nat i)) OR POLL_ALWAYS))
          (if k < length script then script ! k else [])\<rparr>)
   | Read k n \<Rightarrow> \<lparr>ret = 2, data = ''hi'', evs = []\<rparr>
   | _ \<Rightarrow> \<lparr>ret = 0, data = [], evs = []\<rparr>)"

lemma open_fds_replied: "k \<in># open_fds t \<Longrightarrow> list_ex (\<lambda>(_, r). ret r = k) t"
  by (induction t rule: open_fds.induct) (auto split: call.splits if_splits dest: in_diffD)

lemma script_env_ok: "chat_env (script_env script)"
  by (auto simp: chat_env_def script_env_def Let_def FD_LIMIT_def dest: open_fds_replied)

text \<open>Three users come, the first sends a message; then it leaves while the others are written to.\<close>

definition demo_script :: "(int \<times> nat) list list" where
  "demo_script = [[(0, 1)], [(0, 1)], [(0, 1)], [(1, 1)], [(1, 0x2000), (2, 4), (3, 4)]]"

lemma atoi_7: "atoi ''7'' = Inr 7"
  by code_simp

text \<open>Evaluation: the arguments of the monad first.\<close>

lemma bindE_weak: "m = m' \<Longrightarrow> bindE m f = bindE m' f"
  by simp

lemma case_prod_weak: "m = m' \<Longrightarrow> case_prod f m = case_prod f m'"
  by simp

lemma numerals:
  "replicate 5 x = [x, x, x, x, x]" "broadcast 3 = broadcast (Suc (Suc (Suc 0)))"
  "chat_rounds env k 2 = chat_rounds env k (Suc (Suc 0))"
  "chat_rounds env k 4 = chat_rounds env k (Suc (Suc (Suc (Suc 0))))"
  "chat_rounds env k 5 = chat_rounds env k (Suc (Suc (Suc (Suc (Suc 0)))))"
  by (simp_all add: eval_nat_numeral)

lemmas run_defs = chat_main_def chat_init_def poll_call_def set_polled_def polled_def poll_pass.simps
  poll_one_def get_fd_def set_fd_def get_user_def set_user_def new_user_def setnonblocking_def
  user_left_def copy_user_def drop_entry_def user_message_def received_def user_writable_def text_at_def
  script_env_def has_def subbits_def POLLIN_def POLLOUT_def POLLERR_def POLLRDHUP_def POLL_ALWAYS_def
  FD_LIMIT_def USER_LIMIT_def fresh_user_def recv_buffer_def BUFFER_SIZE_MAX_def
  upto_rec1 Let_def numerals

lemma demo_run:
  "\<exists>s. chat_main (script_env demo_script) 4 [''127.0.0.1'', ''7''] = Inr (Serving s) \<and> user_counter s = 3"
  by (simp add: run_defs demo_script_def atoi_7 cong: bindE_weak case_prod_weak)

lemma chat_server_descriptors_witness:
  "\<exists>s. chat_main (script_env demo_script) 4 [''127.0.0.1'', ''7''] = Inr (Serving s) \<and> user_counter s = 3
     \<and> open_fds (tr s) = mset (map fd (take 4 (fds s))) \<and> distinct (map fd (take 4 (fds s)))"
proof -
  obtain s where s: "chat_main (script_env demo_script) 4 [''127.0.0.1'', ''7''] = Inr (Serving s)"
    "user_counter s = 3" using demo_run by blast
  show ?thesis
    using chat_server_descriptors [OF script_env_ok atoi_7, of demo_script 4 "''127.0.0.1''"] s by simp
qed

text \<open>
  A message does not outlive its sender. In this run three users come and the first sends a
  message, which the others have still to be sent; when the first one leaves in the next round, its
  slot of the user array is overwritten with that of the last user, who has never sent
  anything, and the server sends from an uninitialised buffer.
\<close>

theorem sender_left_uninitialised:
  "chat_env (script_env demo_script) \<and>
   chat_main (script_env demo_script) 5 [''127.0.0.1'', ''7''] = Inl Uninitialised"
  using script_env_ok by (simp add: run_defs demo_script_def atoi_7 cong: bindE_weak case_prod_weak)

text \<open>A user that is written to; afterwards there is nothing to write, and still the socket is polled for it.\<close>

definition demo_chat :: chat where
  "demo_chat = \<lparr>users = (\<lambda>_. \<lparr>write_buf = BufOf 4, buf = Some (''hi'' @ [NUL])\<rparr>),
     fds = [\<lparr>fd = 3, events = POLLIN OR POLLERR, revents = 0\<rparr>,
            \<lparr>fd = 4, events = POLLIN OR POLLOUT, revents = 0\<rparr>],
     user_counter = 1, tr = []\<rparr>"

lemma demo_chat_run:
  "\<exists>s'. chat_rounds (script_env [[(1, 4)]]) 3 2 demo_chat = Inr (True, s') \<and>
     (\<forall>r. (Close 4, r) \<notin> set (tr s'))"
  by (simp add: run_defs demo_chat_def c_string_def cong: bindE_weak case_prod_weak)

lemma chat_events_never_cleared_witness:
  "\<exists>s'. chat_rounds (script_env [[(1, 4)]]) 3 2 demo_chat = Inr (True, s') \<and>
     (\<exists>e'\<in>set (take (nat (user_counter s' + 1)) (fds s')). fd e' = 4 \<and> (POLLIN OR POLLOUT) AND NOT (events e') = 0)"
proof -
  let ?e = "\<lparr>fd = 4, events = POLLIN OR POLLOUT, revents = 0\<rparr>"
  obtain s' where s': "chat_rounds (script_env [[(1, 4)]]) 3 2 demo_chat = Inr (True, s')"
    "\<forall>r. (Close 4, r) \<notin> set (tr s')" using demo_chat_run by blast
  have e: "?e \<in> set (take (nat (user_counter demo_chat + 1)) (fds demo_chat))"
    by (simp add: demo_chat_def)
  show ?thesis
    using chat_events_never_cleared [OF s'(1) e] s' by auto
qed

end
