(* ===== verification/ReverseList.thy ===== *)
theory ReverseList
  imports Prelude
begin

text \<open>
  The singly linked list of \<^verbatim>\<open>src/temp/reverse_list.cpp\<close>: building, printing, freeing and
  reversing it in place. The nodes that are allocated are a map from addresses. A loop
  along a list that is cyclic does not end: the loops are partial functions and \<open>None\<close> is not
  returning.
\<close>

section \<open>Nodes\<close>

type_synonym node_ptr = "nat option"

record Node =
  node_data :: int
  node_next :: node_ptr

type_synonym nodes = "nat \<Rightarrow> Node option"

definition get_node :: "nodes \<Rightarrow> node_ptr \<Rightarrow> Node res" where
  "get_node m p = (case p of None \<Rightarrow> Inl NullDeref
     | Some a \<Rightarrow> (case m a of None \<Rightarrow> Inl Dangling | Some n \<Rightarrow> Inr n))"

definition set_next :: "nodes \<Rightarrow> node_ptr \<Rightarrow> node_ptr \<Rightarrow> nodes res" where
  "set_next m p q = (case p of None \<Rightarrow> Inl NullDeref
     | Some a \<Rightarrow> (case m a of None \<Rightarrow> Inl Dangling | Some n \<Rightarrow> Inr (m(a \<mapsto> n\<lparr>node_next := q\<rparr>))))"

section \<open>The functions\<close>

text \<open>\<open>display\<close>: what it prints.\<close>

partial_function (option) list_display :: "nodes \<Rightarrow> node_ptr \<Rightarrow> string res option" where
  "list_display m p =
     (if p = None then Some (Inr endl)
      else bindO (Some (get_node m p)) (\<lambda>n.
           bindO (list_display m (node_next n)) (\<lambda>s. Some (Inr (show_int (node_data n) @ tab @ s)))))"

text \<open>
  \<open>construct\<close>: the i-th node is new, at the address \<open>k + i\<close>. The pointer it returns is assigned when
  the first node is made, and not at all when there is none.
\<close>

fun construct_loop :: "nat \<Rightarrow> int \<Rightarrow> nat \<Rightarrow> node_ptr option \<Rightarrow> node_ptr \<Rightarrow> nodes \<Rightarrow> (node_ptr option \<times> nodes) res" where
  "construct_loop 0 i k p pList m = Inr (p, m)"
| "construct_loop (Suc n) i k p pList m =
     (let np = Some k; m1 = m(k \<mapsto> \<lparr>node_data = i, node_next = None\<rparr>) in
      if pList = None then construct_loop n (i + 1) (k + 1) (Some np) np m1
      else bindE (set_next m1 pList np) (\<lambda>m2. bindE (get_node m2 pList) (\<lambda>l.
             construct_loop n (i + 1) (k + 1) p (node_next l) m2)))"

definition construct :: "int \<Rightarrow> nat \<Rightarrow> nodes \<Rightarrow> (node_ptr \<times> nodes) res" where
  "construct Cnt k m =
     bindE (construct_loop (nat Cnt) 0 k None None m) (\<lambda>(p, m').
       case p of None \<Rightarrow> Inl Uninitialised | Some q \<Rightarrow> Inr (q, m'))"

partial_function (option) distory :: "nodes \<Rightarrow> node_ptr \<Rightarrow> nodes res option" where
  "distory m p =
     (case p of None \<Rightarrow> Some (Inr m)
      | Some a \<Rightarrow> bindO (Some (get_node m p)) (\<lambda>n. distory (m(a := None)) (node_next n)))"

partial_function (option) reverse_loop :: "nodes \<Rightarrow> node_ptr \<Rightarrow> node_ptr \<Rightarrow> (node_ptr \<times> nodes) res option" where
  "reverse_loop m p p1 =
     bindO (Some (get_node m p)) (\<lambda>n.
     let p2 = node_next n in
     if p2 = None then Some (Inr (p1, m))
     else bindO (Some (get_node m p2)) (\<lambda>n2.
          bindO (Some (set_next m p (node_next n2))) (\<lambda>m1.
          bindO (Some (set_next m1 p2 p1)) (\<lambda>m2. reverse_loop m2 p p2))))"

definition reverse :: "nodes \<Rightarrow> node_ptr \<Rightarrow> (node_ptr \<times> nodes) res option" where
  "reverse m p = (if p = None then Some (Inr (p, m)) else reverse_loop m p p)"

text \<open>\<open>main\<close>: what it prints; a node has 16 bytes. The list is not freed.\<close>

definition reverse_main :: "nat \<Rightarrow> nodes \<Rightarrow> string res option" where
  "reverse_main k m =
     bindO (Some (construct 6 k m)) (\<lambda>(p, m1).
     bindO (list_display m1 p) (\<lambda>s1.
     bindO (reverse m1 p) (\<lambda>(q, m2).
     bindO (list_display m2 q) (\<lambda>s2.
       Some (Inr (''sizeof(Node)=16'' @ endl @ s1 @ s2))))))"

section \<open>The list at a pointer\<close>

text \<open>The nodes from \<open>p\<close> on are those at the addresses \<open>xs\<close>, and the last one ends the list.\<close>

fun is_list :: "nodes \<Rightarrow> node_ptr \<Rightarrow> nat list \<Rightarrow> bool" where
  "is_list m p [] = (p = None)"
| "is_list m p (a # xs) = (p = Some a \<and> (case m a of None \<Rightarrow> False | Some n \<Rightarrow> is_list m (node_next n) xs))"

definition values_of :: "nodes \<Rightarrow> nat list \<Rightarrow> int list" where
  "values_of m xs = map (\<lambda>a. node_data (the (m a))) xs"

lemma is_list_frame: "a \<notin> set xs \<Longrightarrow> is_list (m(a := v)) p xs = is_list m p xs"
  by (induction xs arbitrary: p) (auto split: option.splits)

lemma is_list_unique: "is_list m p xs \<Longrightarrow> is_list m p ys \<Longrightarrow> xs = ys"
proof (induction xs arbitrary: p ys)
  case Nil
  then show ?case by (cases ys) auto
next
  case (Cons a xs)
  then show ?case by (cases ys) (auto split: option.splits)
qed

lemma is_list_suffix: "is_list m p (xs @ a # ys) \<Longrightarrow> is_list m (Some a) (a # ys)"
proof (induction xs arbitrary: p)
  case (Cons b xs)
  then show ?case by (cases "m b") auto
qed simp

lemma is_list_distinct: "is_list m p xs \<Longrightarrow> distinct xs"
proof (induction xs arbitrary: p)
  case (Cons a xs)
  have "a \<notin> set xs"
  proof
    assume "a \<in> set xs"
    then obtain ys zs where xs: "xs = ys @ a # zs" by (auto simp: in_set_conv_decomp)
    have "is_list m (Some a) (a # zs)"
      using Cons.prems is_list_suffix [of m p "a # ys" a zs] by (simp add: xs)
    moreover have "is_list m (Some a) (a # xs)" using Cons.prems by simp
    ultimately have "a # zs = a # xs" by (rule is_list_unique)
    then show False by (simp add: xs)
  qed
  then show ?case using Cons by (auto split: option.splits)
qed simp

text \<open>Only the links of the cells \<open>xs\<close> may differ.\<close>

definition relinked :: "nat set \<Rightarrow> nodes \<Rightarrow> nodes \<Rightarrow> bool" where
  "relinked xs m m' \<longleftrightarrow> (\<forall>a. map_option node_data (m' a) = map_option node_data (m a))
     \<and> (\<forall>a. a \<notin> xs \<longrightarrow> m' a = m a)"

lemma relinked_values: "relinked A m m' \<Longrightarrow> is_list m p xs \<Longrightarrow> values_of m' xs = values_of m xs"
proof (induction xs arbitrary: p)
  case (Cons a xs)
  then have "map_option node_data (m' a) = map_option node_data (m a)" by (simp add: relinked_def)
  then show ?case
    using Cons by (cases "m' a") (auto simp: values_of_def split: option.splits)
qed (simp add: values_of_def)

lemma reverse_loop_ok:
  "is_list m p1 (ys @ a # zs) \<Longrightarrow>
   \<exists>m' q. reverse_loop m (Some a) p1 = Some (Inr (q, m')) \<and> is_list m' q (rev zs @ ys @ [a])
     \<and> relinked (set (ys @ a # zs)) m m'"
proof (induction zs arbitrary: m p1 ys)
  case Nil
  then show ?case
    using is_list_suffix [OF Nil]
    by (subst reverse_loop.simps) (auto simp: get_node_def relinked_def split: option.splits)
next
  case (Cons z zs)
  have d: "distinct (ys @ a # z # zs)" by (rule is_list_distinct [OF Cons.prems])
  obtain na nz where n: "m a = Some na" "node_next na = Some z" "m z = Some nz" "is_list m (node_next nz) zs"
    using is_list_suffix [OF Cons.prems] by (auto split: option.splits)
  define m2 where "m2 = m(a \<mapsto> na\<lparr>node_next := node_next nz\<rparr>, z \<mapsto> nz\<lparr>node_next := p1\<rparr>)"
  have step: "reverse_loop m (Some a) p1 = reverse_loop m2 (Some a) (Some z)"
    using n d by (subst reverse_loop.simps) (simp add: get_node_def set_next_def m2_def)
  have "is_list m2 p1 (ys @ a # zs)"
  proof -
    have "is_list m2 (node_next nz) zs"
      using n(4) d by (auto simp: m2_def is_list_frame)
    moreover have "is_list m2 q (us @ a # zs)" if "is_list m q (us @ a # z # zs)" "distinct (us @ a # z # zs)"
      "is_list m2 (node_next nz) zs" for q us
      using that by (induction us arbitrary: q) (auto simp: m2_def split: option.splits)
    ultimately show ?thesis using Cons.prems d by blast
  qed
  then have "is_list m2 (Some z) ((z # ys) @ a # zs)" by (simp add: m2_def)
  from Cons.IH [OF this] obtain m' q where q: "reverse_loop m2 (Some a) (Some z) = Some (Inr (q, m'))"
    "is_list m' q (rev zs @ (z # ys) @ [a])" "relinked (set ((z # ys) @ a # zs)) m2 m'" by blast
  have "relinked (set (ys @ a # z # zs)) m m'"
    using q(3) n by (auto simp: relinked_def m2_def)
  then show ?case using q step by auto
qed

lemma reverse_reverses_aux:
  assumes "is_list m p xs"
  shows "\<exists>m' q. reverse m p = Some (Inr (q, m')) \<and> is_list m' q (rev xs)
    \<and> values_of m' (rev xs) = rev (values_of m xs) \<and> relinked (set xs) m m'"
proof (cases xs)
  case Nil
  then show ?thesis using assms by (simp add: reverse_def relinked_def values_of_def)
next
  case (Cons a ys)
  then have "p = Some a" using assms by simp
  then obtain m' q where q: "reverse m p = Some (Inr (q, m'))" "is_list m' q (rev xs)" "relinked (set xs) m m'"
    using reverse_loop_ok [of m p "[]" a ys] assms Cons by (auto simp: reverse_def)
  then show ?thesis
    using relinked_values [OF q(3) assms] by (auto simp: values_of_def rev_map)
qed

text \<open>
  C35: \<open>reverse\<close> reverses. On any list that ends, it returns, the new list has the same nodes
  in the opposite order, every node keeps its value, and no other node is touched; reversing the result
  once more gives the list as it was.
\<close>

theorem reverse_reverses:
  assumes "is_list m p xs"
  shows "\<exists>m' q. reverse m p = Some (Inr (q, m')) \<and> is_list m' q (rev xs)
    \<and> values_of m' (rev xs) = rev (values_of m xs) \<and> (\<forall>a. a \<notin> set xs \<longrightarrow> m' a = m a)
    \<and> (\<exists>m''. reverse m' q = Some (Inr (p, m'')) \<and> is_list m'' p xs)"
proof -
  obtain m' q where q: "reverse m p = Some (Inr (q, m'))" "is_list m' q (rev xs)"
    "values_of m' (rev xs) = rev (values_of m xs)" "relinked (set xs) m m'"
    using reverse_reverses_aux [OF assms] by blast
  obtain m'' r where r: "reverse m' q = Some (Inr (r, m''))" "is_list m'' r xs"
    using reverse_reverses_aux [OF q(2)] by auto
  have "r = p" using r(2) assms by (cases xs) auto
  then show ?thesis using q r by (auto simp: relinked_def)
qed

lemma list_display_ok:
  "is_list m p xs \<Longrightarrow>
   list_display m p = Some (Inr (concat (map (\<lambda>v. show_int v @ tab) (values_of m xs)) @ endl))"
proof (induction xs arbitrary: p)
  case Nil
  then show ?case by (subst list_display.simps) (simp add: values_of_def)
next
  case (Cons a xs)
  then obtain n where n: "m a = Some n" "is_list m (node_next n) xs" "p = Some a"
    by (auto split: option.splits)
  then show ?case
    using Cons.IH [OF n(2)] by (subst list_display.simps) (simp add: get_node_def values_of_def)
qed

lemma distory_ok: "is_list m p xs \<Longrightarrow> distory m p = Some (Inr (\<lambda>a. if a \<in> set xs then None else m a))"
proof (induction xs arbitrary: p m)
  case Nil
  then show ?case by (subst distory.simps) simp
next
  case (Cons a xs)
  then obtain n where n: "m a = Some n" "is_list m (node_next n) xs" "p = Some a" "a \<notin> set xs"
    using is_list_distinct [OF Cons.prems] by (auto split: option.splits)
  have "distory m p = distory (m(a := None)) (node_next n)"
    using n by (subst distory.simps) (simp add: get_node_def)
  also have "\<dots> = Some (Inr (\<lambda>b. if b \<in> set xs then None else (m(a := None)) b))"
    by (rule Cons.IH) (metis n(2,4) is_list_frame)
  also have "(\<lambda>b. if b \<in> set xs then None else (m(a := None)) b) = (\<lambda>b. if b \<in> set (a # xs) then None else m b)"
    by auto
  finally show ?case .
qed


section \<open>Building a list\<close>

lemma is_list_append_node:
  "is_list m p (xs @ [b]) \<Longrightarrow> k \<notin> set (xs @ [b]) \<Longrightarrow> m b = Some nb \<Longrightarrow>
   is_list (m(k \<mapsto> \<lparr>node_data = v, node_next = None\<rparr>, b \<mapsto> nb\<lparr>node_next := Some k\<rparr>)) p (xs @ [b, k])"
proof (induction xs arbitrary: p)
  case (Cons a xs)
  have "a \<noteq> b" using is_list_distinct [OF Cons.prems(1)] by auto
  then show ?case using Cons by (auto split: option.splits)
qed auto

lemma construct_loop_ok:
  "is_list m q (xs @ [b]) \<Longrightarrow> (\<forall>a\<in>set (xs @ [b]). a < k) \<Longrightarrow>
   \<exists>m'. construct_loop n i k (Some q) (Some b) m = Inr (Some q, m') \<and> is_list m' q (xs @ [b] @ [k..<k + n])
     \<and> values_of m' (xs @ [b] @ [k..<k + n]) = values_of m (xs @ [b]) @ [i..i + int n - 1]"
proof (induction n arbitrary: i k xs b m)
  case (Suc n)
  obtain nb where nb: "m b = Some nb"
    using is_list_suffix [of m q xs b "[]"] Suc.prems(1) by (auto split: option.splits)
  let ?m = "m(k \<mapsto> \<lparr>node_data = i, node_next = None\<rparr>, b \<mapsto> nb\<lparr>node_next := Some k\<rparr>)"
  have k: "k \<notin> set (xs @ [b])" using Suc.prems(2) by auto
  have l: "is_list ?m q ((xs @ [b]) @ [k])"
    using is_list_append_node [OF Suc.prems(1) k nb] by simp
  have v: "values_of ?m ((xs @ [b]) @ [k]) = values_of m (xs @ [b]) @ [i]"
    using k nb by (auto simp: values_of_def)
  have "construct_loop (Suc n) i k (Some q) (Some b) m = construct_loop n (i + 1) (k + 1) (Some q) (Some k) ?m"
    using k nb by (simp add: set_next_def get_node_def Let_def)
  moreover obtain m' where "construct_loop n (i + 1) (k + 1) (Some q) (Some k) ?m = Inr (Some q, m')"
    "is_list m' q ((xs @ [b]) @ [k] @ [k + 1..<k + 1 + n])"
    "values_of m' ((xs @ [b]) @ [k] @ [k + 1..<k + 1 + n]) = values_of ?m ((xs @ [b]) @ [k]) @ [i + 1..i + 1 + int n - 1]"
    using Suc.IH [OF l, of "k + 1" "i + 1"] Suc.prems(2) by fastforce
  moreover have "[k] @ [k + 1..<k + 1 + n] = [k..<k + Suc n]" by (simp add: upt_conv_Cons)
  moreover have "[i] @ [i + 1..i + 1 + int n - 1] = [i..i + int (Suc n) - 1]" by (simp add: upto_rec1)
  ultimately show ?case using v by (metis append_assoc)
qed (simp add: values_of_def)

lemma construct_ok:
  assumes "0 < Cnt"
  shows "\<exists>m'. construct Cnt k m = Inr (Some k, m') \<and> is_list m' (Some k) [k..<k + nat Cnt]
    \<and> values_of m' [k..<k + nat Cnt] = [0..Cnt - 1]"
proof -
  obtain n where n: "nat Cnt = Suc n" using assms by (cases "nat Cnt") auto
  let ?m = "m(k \<mapsto> \<lparr>node_data = 0, node_next = None\<rparr>)"
  have "is_list ?m (Some k) ([] @ [k])" by simp
  from construct_loop_ok [OF this, of "k + 1" n 1] obtain m' where
    m': "construct_loop n 1 (k + 1) (Some (Some k)) (Some k) ?m = Inr (Some (Some k), m')"
      "is_list m' (Some k) ([k] @ [k + 1..<k + 1 + n])"
      "values_of m' ([k] @ [k + 1..<k + 1 + n]) = values_of ?m [k] @ [1..int n]" by auto
  have e: "[k] @ [k + 1..<k + 1 + n] = [k..<k + nat Cnt]" using n by (simp add: upt_conv_Cons)
  have "int n = Cnt - 1" using n assms by linarith
  then have "values_of ?m [k] @ [1..int n] = [0..Cnt - 1]"
    using assms by (simp add: values_of_def upto_rec1)
  with m'(2,3) have "is_list m' (Some k) [k..<k + nat Cnt]" "values_of m' [k..<k + nat Cnt] = [0..Cnt - 1]"
    unfolding e by simp_all
  moreover have "construct Cnt k m = Inr (Some k, m')"
    using m'(1) n by (simp add: construct_def Let_def)
  ultimately show ?thesis by blast
qed

text \<open>Without a node the pointer that is returned was never assigned.\<close>

lemma construct_empty: "Cnt \<le> 0 \<Longrightarrow> construct Cnt k m = Inl Uninitialised"
  by (simp add: construct_def)

lemma reverse_main_prints:
  "reverse_main k m = Some (Inr (''sizeof(Node)=16'' @ endl
     @ concat (map (\<lambda>v. show_int v @ tab) [0, 1, 2, 3, 4, 5]) @ endl
     @ concat (map (\<lambda>v. show_int v @ tab) [5, 4, 3, 2, 1, 0]) @ endl))"
proof -
  obtain m1 where m1: "construct 6 k m = Inr (Some k, m1)" "is_list m1 (Some k) [k..<k + nat 6]"
    "values_of m1 [k..<k + nat 6] = [0..5]" using construct_ok [of 6 k m] by auto
  obtain q m2 where m2: "reverse m1 (Some k) = Some (Inr (q, m2))" "is_list m2 q (rev [k..<k + nat 6])"
    "values_of m2 (rev [k..<k + nat 6]) = rev (values_of m1 [k..<k + nat 6])"
    using reverse_reverses_aux [OF m1(2)] by blast
  have "[0..5] = [0, 1, 2, 3, 4, 5 :: int]" by (simp add: upto_rec1)
  then show ?thesis
    using list_display_ok [OF m1(2)] list_display_ok [OF m2(2)] m1 m2 by (simp add: reverse_main_def)
qed

section \<open>An example\<close>

lemma reverse_reverses_witness:
  "\<exists>m' q. reverse [3 \<mapsto> \<lparr>node_data = 7, node_next = Some 8\<rparr>, 8 \<mapsto> \<lparr>node_data = 9, node_next = None\<rparr>] (Some 3)
      = Some (Inr (q, m')) \<and> is_list m' q [8, 3] \<and> values_of m' [8, 3] = [9, 7]"
proof -
  let ?m = "[3 \<mapsto> \<lparr>node_data = 7, node_next = Some 8\<rparr>, 8 \<mapsto> \<lparr>node_data = 9, node_next = None\<rparr>]"
  have "is_list ?m (Some 3) [3, 8]" by simp
  from reverse_reverses [OF this] show ?thesis by (auto simp: values_of_def)
qed

end
