(* ===== verification/Prime.thy ===== *)
theory Prime
  imports Bytes
begin

text \<open>
  \<^verbatim>\<open>src/temp/prime.cpp\<close>: the next prime number, by trial division up to the square root. A
  \<open>long\<close> has 64 bits. The square root in \<open>long double\<close>, cut to an integer, is the integer
  square root for the numbers used.
\<close>

section \<open>The program\<close>

definition ck64 :: "int \<Rightarrow> int res" where
  "ck64 x = (if - 9223372036854775808 \<le> x \<and> x \<le> 9223372036854775807 then Inr x else Inl Overflow)"

function isqrt_from :: "int \<Rightarrow> int \<Rightarrow> int" where
  "isqrt_from s n = (if 0 \<le> s \<and> (s + 1) * (s + 1) \<le> n then isqrt_from (s + 1) n else s)"
  by pat_completeness auto
termination
proof (relation "measure (\<lambda>(s, n). nat (n - s))", goal_cases)
  case (2 s n)
  then have a: "0 \<le> s" "(s + 1) * (s + 1) \<le> n" by simp_all
  then have "1 * (s + 1) \<le> (s + 1) * (s + 1)" by (intro mult_right_mono) simp_all
  from order_trans [OF this a(2)] have "s < n" by simp
  then show ?case by simp
qed simp

declare isqrt_from.simps [simp del]

definition isqrt :: "int \<Rightarrow> int" where
  "isqrt n = isqrt_from 0 n"

text \<open>The inner loop: the value of \<open>i\<close> when it is left.\<close>

function trial :: "int \<Rightarrow> int \<Rightarrow> int \<Rightarrow> int res" where
  "trial base s i =
     (if i \<le> s then
        if i = 0 then Inl DivByZero
        else if crem base i = 0 then Inr i
        else if i + 2 \<le> INT_MAX then trial base s (i + 2) else Inl Overflow
      else Inr i)"
  by pat_completeness auto
termination
  by (relation "measure (\<lambda>(base, s, i). nat (s + 1 - i))") auto

declare trial.simps [simp del]

text \<open>
  The outer loop; the square root of a negative number is no number and cannot be converted.
\<close>

definition LONG_MAX :: int where "LONG_MAX = 9223372036854775807"

function judge_loop :: "int \<Rightarrow> int res" where
  "judge_loop base =
     (if base < 0 then Inl Overflow
      else let s = to_i32 (isqrt base) in
        bindE (trial base s 3) (\<lambda>i.
          if i > s then Inr base
          else if base + 2 \<le> LONG_MAX then judge_loop (base + 2) else Inl Overflow))"
  by pat_completeness auto
termination
  by (relation "measure (\<lambda>base. nat (LONG_MAX - base))") auto

declare judge_loop.simps [simp del]

definition JudgePrime :: "int \<Rightarrow> int res" where
  "JudgePrime num =
     (if crem num 2 = 0 then bindE (ck64 (num + 1)) judge_loop else judge_loop num)"

text \<open>\<open>main\<close>: the lines it prints, for the first \<open>n\<close> powers of ten after \<open>base\<close>.\<close>

fun prime_lines :: "nat \<Rightarrow> int \<Rightarrow> string res" where
  "prime_lines 0 base = Inr []"
| "prime_lines (Suc n) base =
     bindE (ck64 (base * 10)) (\<lambda>b. bindE (JudgePrime b) (\<lambda>p. bindE (prime_lines n b) (\<lambda>s.
       Inr (show_int b @ '','' @ show_int p @ endl @ s))))"

definition prime_main :: "string res" where
  "prime_main = prime_lines 14 1"

section \<open>Prime numbers\<close>

definition is_prime :: "int \<Rightarrow> bool" where
  "is_prime p \<longleftrightarrow> 1 < p \<and> (\<forall>d. 0 < d \<longrightarrow> d dvd p \<longrightarrow> d = 1 \<or> d = p)"

lemma isqrt_from_ok:
  "0 \<le> s \<Longrightarrow> s * s \<le> n \<Longrightarrow> (let r = isqrt_from s n in s \<le> r \<and> r * r \<le> n \<and> n < (r + 1) * (r + 1))"
proof (induction s n rule: isqrt_from.induct)
  case (1 s n)
  show ?case
  proof (cases "(s + 1) * (s + 1) \<le> n")
    case True
    then show ?thesis using 1 by (simp add: isqrt_from.simps [of s] Let_def)
  next
    case False
    then show ?thesis using 1 by (simp add: isqrt_from.simps [of s])
  qed
qed

lemma isqrt_ok: "0 \<le> n \<Longrightarrow> 0 \<le> isqrt n \<and> isqrt n * isqrt n \<le> n \<and> n < (isqrt n + 1) * (isqrt n + 1)"
  using isqrt_from_ok [of 0 n] by (simp add: isqrt_def Let_def)

lemma isqrt_small:
  assumes "0 \<le> n" "n < 4611686018427387904"
  shows "isqrt n < 2147483648"
proof (rule ccontr)
  assume "\<not> isqrt n < 2147483648"
  then have "2147483648 * 2147483648 \<le> isqrt n * isqrt n" by (intro mult_mono) simp_all
  then show False using isqrt_ok [OF assms(1)] assms(2) by simp
qed

lemma trial_ok:
  "3 \<le> i \<Longrightarrow> odd i \<Longrightarrow> 0 \<le> base \<Longrightarrow> s < INT_MAX - 1 \<Longrightarrow>
   (case trial base s i of
      Inl _ \<Rightarrow> False
    | Inr j \<Rightarrow> i \<le> j \<and> (j \<le> s \<longrightarrow> j dvd base) \<and> (\<forall>d. i \<le> d \<longrightarrow> odd d \<longrightarrow> d < j \<longrightarrow> d \<le> s \<longrightarrow> \<not> d dvd base))"
proof (induction base s i rule: trial.induct)
  case (1 base s i)
  show ?case
  proof (cases "i \<le> s \<and> crem base i \<noteq> 0")
    case True
    then have n: "\<not> i dvd base" using 1 by (simp add: crem_nonneg dvd_eq_mod_eq_0)
    have r: "trial base s i = trial base s (i + 2)"
      using True 1 by (simp add: trial.simps [of base s i])
    have "i \<le> s" "i \<noteq> 0" "crem base i \<noteq> 0" "i + 2 \<le> INT_MAX" using True 1 by auto
    from "1.IH" [OF this] obtain j where j: "trial base s (i + 2) = Inr j" "i + 2 \<le> j" "j \<le> s \<longrightarrow> j dvd base"
      "\<forall>d. i + 2 \<le> d \<longrightarrow> odd d \<longrightarrow> d < j \<longrightarrow> d \<le> s \<longrightarrow> \<not> d dvd base"
      using 1 by (auto split: sum.splits)
    have "\<not> d dvd base" if "i \<le> d" "odd d" "d < j" "d \<le> s" for d
    proof (cases "d = i")
      case False
      then have "i + 2 \<le> d" using that 1(3) by presburger
      then show ?thesis using j(4) that by blast
    qed (use n in simp)
    then show ?thesis using r j by auto
  next
    case False
    then show ?thesis
      using 1 by (auto simp: trial.simps [of base s i] crem_nonneg dvd_eq_mod_eq_0)
  qed
qed

text \<open>Trial division: an odd number is prime when no odd number up to its root divides it.\<close>

lemma odd_prime_iff:
  assumes "odd n" "3 \<le> n" "0 \<le> s" "s * s \<le> n" "n < (s + 1) * (s + 1)"
  shows "is_prime n \<longleftrightarrow> (\<forall>d. 3 \<le> d \<longrightarrow> odd d \<longrightarrow> d \<le> s \<longrightarrow> \<not> d dvd n)"
proof
  assume "is_prime n"
  show "\<forall>d. 3 \<le> d \<longrightarrow> odd d \<longrightarrow> d \<le> s \<longrightarrow> \<not> d dvd n"
  proof (intro allI impI notI)
    fix d assume d: "3 \<le> d" "d \<le> s" "d dvd n"
    then have "d = 1 \<or> d = n" using \<open>is_prime n\<close> unfolding is_prime_def by (elim conjE allE [of _ d]) simp
    then have "d = n" using d(1) by simp
    then have "3 * s \<le> s * s" using assms(2) d(2) by (intro mult_right_mono) simp_all
    then show False using assms(2,4) \<open>d = n\<close> d(2) by linarith
  qed
next
  assume none: "\<forall>d. 3 \<le> d \<longrightarrow> odd d \<longrightarrow> d \<le> s \<longrightarrow> \<not> d dvd n"
  have "d = 1 \<or> d = n" if d: "0 < d" "d dvd n" for d
  proof (rule ccontr)
    assume no: "\<not> (d = 1 \<or> d = n)"
    obtain e where e: "n = d * e" using d(2) by blast
    have "odd d" "odd e" using assms(1) by (auto simp: e)
    have "0 < e" using assms(2) d(1) e zero_less_mult_iff [of d e] by simp
    have "e \<noteq> 1" using no e by auto
    have "3 \<le> d" using no d(1) \<open>odd d\<close> by presburger
    have "3 \<le> e" using \<open>0 < e\<close> \<open>e \<noteq> 1\<close> \<open>odd e\<close> by presburger
    have "s < d" using none \<open>3 \<le> d\<close> \<open>odd d\<close> d(2) by force
    moreover have "s < e" using none \<open>3 \<le> e\<close> \<open>odd e\<close> e by force
    ultimately have "(s + 1) * (s + 1) \<le> n"
      using assms(3) e by (auto intro: mult_mono)
    then show False using assms(5) by simp
  qed
  then show "is_prime n" using assms(2) by (simp add: is_prime_def)
qed

text \<open>One round of the outer loop.\<close>

lemma judge_loop_step:
  assumes "odd base" "3 \<le> base" "base < 4611686009837453316"
  shows "judge_loop base = (if is_prime base then Inr base else judge_loop (base + 2))"
proof -
  let ?s = "isqrt base"
  have s: "0 \<le> ?s" "?s * ?s \<le> base" "base < (?s + 1) * (?s + 1)" using isqrt_ok [of base] assms by auto
  have "?s < INT_MAX - 1"
  proof (rule ccontr)
    assume "\<not> ?s < INT_MAX - 1"
    then have "2147483646 * 2147483646 \<le> ?s * ?s" by (intro mult_mono) (simp_all add: INT_MAX_def)
    then show False using s(2) assms(3) by simp
  qed
  then have i: "to_i32 ?s = ?s" using s(1) by (simp add: to_i32_def INT_MAX_def)
  obtain j where j: "trial base ?s 3 = Inr j" "j \<le> ?s \<longrightarrow> j dvd base" "3 \<le> j"
    "\<forall>d. 3 \<le> d \<longrightarrow> odd d \<longrightarrow> d < j \<longrightarrow> d \<le> ?s \<longrightarrow> \<not> d dvd base"
    using trial_ok [of 3 base ?s] assms \<open>?s < INT_MAX - 1\<close> by (auto split: sum.splits)
  have "odd j" if "j \<le> ?s" using that j(2) assms(1) by (meson dvd_trans)
  then have "?s < j \<longleftrightarrow> is_prime base"
    unfolding odd_prime_iff [OF assms(1,2) s] using j by force
  then show ?thesis
    using j(1) i assms by (subst judge_loop.simps) (auto simp: Let_def LONG_MAX_def)
qed

lemma even_not_prime:
  assumes "even r" "3 \<le> r"
  shows "\<not> is_prime r"
proof
  assume "is_prime r"
  then have "(2::int) = 1 \<or> 2 = r" using assms(1) unfolding is_prime_def by (metis zero_less_numeral)
  then show False using assms(2) by simp
qed

lemma judge_loop_finds:
  "odd base \<Longrightarrow> 3 \<le> base \<Longrightarrow> is_prime p \<Longrightarrow> base \<le> p \<Longrightarrow> p < 4611686009837453316 \<Longrightarrow>
   \<exists>q. judge_loop base = Inr q \<and> is_prime q \<and> base \<le> q \<and> (\<forall>r. is_prime r \<longrightarrow> base \<le> r \<longrightarrow> q \<le> r)"
proof (induction "nat (p - base)" arbitrary: base rule: less_induct)
  case less
  show ?case
  proof (cases "is_prime base")
    case True
    then show ?thesis using less judge_loop_step [of base] by auto
  next
    case False
    then have "base \<noteq> p" using less.prems by auto
    moreover have "base + 1 \<noteq> p" using even_not_prime [of "base + 1"] less.prems by auto
    ultimately have b: "base + 2 \<le> p" using less.prems(4) by linarith
    then obtain q where q: "judge_loop (base + 2) = Inr q" "is_prime q" "base + 2 \<le> q"
      "\<forall>r. is_prime r \<longrightarrow> base + 2 \<le> r \<longrightarrow> q \<le> r"
      using less.hyps [of "base + 2"] less.prems by auto
    have "q \<le> r" if "is_prime r" "base \<le> r" for r
    proof -
      have "r \<noteq> base" "r \<noteq> base + 1" using that False even_not_prime [of "base + 1"] less.prems by auto
      then show ?thesis using q(4) that by auto
    qed
    then show ?thesis using q judge_loop_step [of base] False less.prems b by auto
  qed
qed

text \<open>
  C38: \<open>JudgePrime\<close> returns the next prime. For a number from 3 on, if there is a prime at or
  after it below the square of 2147483646 (there the counter of the trial division stays an \<open>int\<close>), the search ends without an overflow with the
  smallest such prime.
\<close>

theorem JudgePrime_next_prime:
  assumes "3 \<le> num" "is_prime p" "num \<le> p" "p < 4611686009837453316"
  shows "\<exists>q. JudgePrime num = Inr q \<and> is_prime q \<and> num \<le> q \<and> (\<forall>r. is_prime r \<longrightarrow> num \<le> r \<longrightarrow> q \<le> r)"
proof (cases "odd num")
  case True
  then show ?thesis
    using judge_loop_finds [OF _ assms] assms(1)
    by (simp add: JudgePrime_def crem_nonneg odd_iff_mod_2_eq_one)
next
  case False
  have ne: "\<not> is_prime num" using even_not_prime False assms(1) by blast
  then have "num + 1 \<le> p" using assms(2,3) by (cases "num = p") auto
  then obtain q where q: "judge_loop (num + 1) = Inr q" "is_prime q" "num + 1 \<le> q"
      "\<forall>r. is_prime r \<longrightarrow> num + 1 \<le> r \<longrightarrow> q \<le> r"
    using judge_loop_finds [of "num + 1" p] assms False by auto
  have "q \<le> r" if "is_prime r" "num \<le> r" for r
    using q(4) that ne by (cases "r = num") auto
  moreover have "JudgePrime num = judge_loop (num + 1)"
    using False assms by (simp add: JudgePrime_def crem_nonneg ck64_def flip: even_iff_mod_2_eq_zero)
  ultimately show ?thesis using q by auto
qed


text \<open>Below 3 the answers are not the next primes: 1 is returned as it is, and 3 for 2.\<close>

lemma JudgePrime_small: "JudgePrime 1 = Inr 1" "JudgePrime 2 = Inr 3"
  by (simp_all add: JudgePrime_def crem_def ck64_def judge_loop.simps trial.simps isqrt_def
      isqrt_from.simps to_i32_def)

lemma is_prime_29: "is_prime 29"
proof -
  have "\<not> d dvd 29" if "3 \<le> d" "odd d" "d \<le> 5" for d :: int
  proof -
    have "d = 3 \<or> d = 5" using that by presburger
    then show ?thesis by auto
  qed
  then show ?thesis by (subst odd_prime_iff [of 29 5]) simp_all
qed

lemma JudgePrime_next_prime_witness:
  "\<exists>q. JudgePrime 24 = Inr q \<and> is_prime q \<and> 24 \<le> q \<and> (\<forall>r. is_prime r \<longrightarrow> 24 \<le> r \<longrightarrow> q \<le> r)"
  by (rule JudgePrime_next_prime [OF _ is_prime_29]) simp_all

end
