(* ===== verification/Outcome.thy ===== *)
theory Outcome
  imports Posix
begin

text \<open>
  Programs that make system calls and may stop: the result of a run is a value, the exit status of a failure,
  or undefined behaviour. Triples over such runs say what holds of the value and the trace when
  the program goes on.
\<close>

datatype 'a outcome = Running 'a | Failed int | Crashed ub

definition bindR :: "'a outcome io \<Rightarrow> ('a \<Rightarrow> 'b outcome io) \<Rightarrow> 'b outcome io" where
  "bindR m f = do {
     r \<leftarrow> m;
     (case r of Running x \<Rightarrow> f x | Failed i \<Rightarrow> return (Failed i) | Crashed e \<Rightarrow> return (Crashed e))
   }"

definition liftR :: "'a res \<Rightarrow> 'a outcome io" where
  "liftR r = return (case r of Inl e \<Rightarrow> Crashed e | Inr x \<Rightarrow> Running x)"

text \<open>Go on if a condition holds, otherwise stop with a status.\<close>

definition guardR :: "bool \<Rightarrow> int \<Rightarrow> unit outcome io" where
  "guardR b i = return (if b then Running () else Failed i)"

section \<open>Running a composition\<close>

lemma bindR_simps [simp]:
  "bindR (return (Running x)) f = f x"
  "bindR (return (Failed i)) f = return (Failed i)"
  "bindR (return (Crashed e)) f = return (Crashed e)"
  "bindR (liftR (Inr x)) f = f x"
  "bindR (liftR (Inl e)) f = return (Crashed e)"
  "bindR (guardR True i) g = g ()"
  "bindR (guardR False i) g = return (Failed i)"
  by (simp_all add: bindR_def liftR_def guardR_def)

lemma bindR_if: "bindR (if b then m else n) f = (if b then bindR m f else bindR n f)"
  by simp

lemma run_bindR_Running:
  "run_state (bindR m f) t = (Running y, t') \<longleftrightarrow>
   (\<exists>x t1. run_state m t = (Running x, t1) \<and> run_state (f x) t1 = (Running y, t'))"
  by (cases "run_state m t") (auto simp: bindR_def split: outcome.splits)

lemma run_liftR_Running [simp]:
  "run_state (liftR r) t = (Running x, t') \<longleftrightarrow> r = Inr x \<and> t' = t"
  "run_state (guardR b i) t = (Running u, t') \<longleftrightarrow> b \<and> t' = t"
  by (auto simp: liftR_def guardR_def split: sum.splits)

section \<open>Properties of traces\<close>

lemma keeps_trace_bindR [keeps_trace_intros]:
  "keeps_trace P m \<Longrightarrow> (\<And>x. keeps_trace P (f x)) \<Longrightarrow> keeps_trace P (bindR m f)"
  unfolding bindR_def by (intro keeps_trace_bind) (auto intro: keeps_trace_return split: outcome.split)

lemma keeps_trace_liftR [keeps_trace_intros]: "keeps_trace P (liftR r)" "keeps_trace P (guardR b i)"
  by (simp_all add: liftR_def guardR_def keeps_trace_return)

section \<open>Triples\<close>

definition triple :: "(trace \<Rightarrow> bool) \<Rightarrow> 'a outcome io \<Rightarrow> ('a \<Rightarrow> trace \<Rightarrow> bool) \<Rightarrow> bool" where
  "triple P m Q \<longleftrightarrow> (\<forall>t x t'. P t \<longrightarrow> run_state m t = (Running x, t') \<longrightarrow> Q x t')"

lemma tripleD: "triple P m Q \<Longrightarrow> run_state m t = (Running x, t') \<Longrightarrow> P t \<Longrightarrow> Q x t'"
  by (simp add: triple_def)

named_theorems triple_intros \<open>rules along the structure of a program\<close>

lemma triple_bindR [triple_intros]:
  "triple P m R \<Longrightarrow> (\<And>x. triple (R x) (f x) Q) \<Longrightarrow> triple P (bindR m f) Q"
  unfolding triple_def run_bindR_Running by blast

lemma triple_guardR [triple_intros]:
  "(b \<Longrightarrow> triple P (f ()) Q) \<Longrightarrow> triple P (bindR (guardR b i) f) Q"
  by (auto simp: triple_def run_bindR_Running)

lemma triple_liftR [triple_intros]:
  "(\<And>x. r = Inr x \<Longrightarrow> triple P (f x) Q) \<Longrightarrow> triple P (bindR (liftR r) f) Q"
  by (auto simp: triple_def run_bindR_Running)

lemma triple_sys [triple_intros]:
  "(\<And>r. triple (\<lambda>t'. \<exists>t. t' = (c, r) # t \<and> r = env t c \<and> P t) (f r) Q) \<Longrightarrow> triple P (sys env c \<bind> f) Q"
  by (auto simp: triple_def)

lemma triple_call [triple_intros]:
  "(\<And>r. triple (\<lambda>t'. \<exists>t. t' = (c, r) # t \<and> r = env t c \<and> P t) (f (ret r)) Q) \<Longrightarrow> triple P (call_ret env c \<bind> f) Q"
  by (auto simp: triple_def)

lemma triple_if [triple_intros]:
  "(b \<Longrightarrow> triple P m Q) \<Longrightarrow> (\<not> b \<Longrightarrow> triple P n Q) \<Longrightarrow> triple P (if b then m else n) Q"
  by simp

lemma triple_return: "(\<And>t. P t \<Longrightarrow> Q x t) \<Longrightarrow> triple P (return (Running x)) Q"
  by (simp add: triple_def)

lemma triple_weaken: "triple P m Q \<Longrightarrow> (\<And>t. P' t \<Longrightarrow> P t) \<Longrightarrow> (\<And>x t. Q x t \<Longrightarrow> Q' x t) \<Longrightarrow> triple P' m Q'"
  unfolding triple_def by blast

section \<open>Counting calls\<close>

definition count_calls :: "(call \<Rightarrow> reply \<Rightarrow> bool) \<Rightarrow> trace \<Rightarrow> int" where
  "count_calls Q t = int (length (filter (\<lambda>(c, r). Q c r) t))"

lemma count_calls_simps [simp]:
  "count_calls Q [] = 0" "count_calls Q ((c, r) # t) = (if Q c r then count_calls Q t + 1 else count_calls Q t)"
  by (simp_all add: count_calls_def)

fun is_accepted :: "call \<Rightarrow> reply \<Rightarrow> bool" where
  "is_accepted (Accept fd) r \<longleftrightarrow> 0 \<le> ret r"
| "is_accepted c r \<longleftrightarrow> False"

fun is_left :: "call \<Rightarrow> reply \<Rightarrow> bool" where
  "is_left (EpollDel efd fd) r \<longleftrightarrow> True"
| "is_left c r \<longleftrightarrow> False"

fun is_closed :: "call \<Rightarrow> reply \<Rightarrow> bool" where
  "is_closed (Close fd) r \<longleftrightarrow> True"
| "is_closed c r \<longleftrightarrow> False"

fun is_failed :: "call \<Rightarrow> reply \<Rightarrow> bool" where
  "is_failed (Read fd n) r \<longleftrightarrow> ret r < 0 \<and> ret r \<noteq> - 4"
| "is_failed c r \<longleftrightarrow> False"

text \<open>Clients accepted, clients that left, closed descriptors and failed reads.\<close>

abbreviation "n_accepted \<equiv> count_calls is_accepted"
abbreviation "n_left \<equiv> count_calls is_left"
abbreviation "n_closed \<equiv> count_calls is_closed"
abbreviation "n_failed \<equiv> count_calls is_failed"

end
