(* ===== verification/EpollSocket.thy ===== *)
theory EpollSocket
  imports Outcome
begin

text \<open>
  The epoll program \<^verbatim>\<open>src/wzq_project/src/component/epoll_socket.{h,cpp}\<close>: one class that
  runs as a server (greets every connection, answers readable and writable clients) or as a
  client. A state after an operation is \<open>Running\<close>; \<open>Failed\<close> is an error status that ends the
  program, \<open>Crashed\<close> an undefined behaviour.
\<close>

section \<open>The class\<close>

datatype PROCESS_TYPE = PROC_SERVER | PROC_CLIENT

record EpollSocket =
  m_Ip :: "char list"
  m_Port :: int
  m_ProcType :: int
  m_ServerSockId :: int
  m_ClientSockId :: int
  m_EpollFd :: int
  iMsgNO :: nat

text \<open>The constructor clears the object.\<close>

definition EpollSocket_new :: EpollSocket where
  "EpollSocket_new = \<lparr>m_Ip = replicate 40 NUL, m_Port = 0, m_ProcType = 0, m_ServerSockId = 0,
     m_ClientSockId = 0, m_EpollFd = 0, iMsgNO = 0\<rparr>"

definition EVENT_MAX_SIZE :: int where "EVENT_MAX_SIZE = 256"

definition TMP_SIZE :: nat where "TMP_SIZE = 128"

text \<open>\<open>F_GETFL\<close> is 3, \<open>F_SETFL\<close> is 4.\<close>

definition SetNonblock :: "env \<Rightarrow> int \<Rightarrow> int io" where
  "SetNonblock env fd = do {
     flags \<leftarrow> call_ret env (Fcntl fd);
     if flags < 0 then return flags
     else do { r \<leftarrow> call_ret env (Fcntl fd); return (if r < 0 then - 1 else 0) }
   }"

definition SetReUseAddr :: "env \<Rightarrow> int \<Rightarrow> int io" where
  "SetReUseAddr env fd = call_ret env (SetSockOpt fd)"

definition es_Write :: "env \<Rightarrow> EpollSocket \<Rightarrow> string \<Rightarrow> int io" where
  "es_Write env es s =
     (if m_ServerSockId es \<le> 0 then return (- 1) else call_ret env (Write (m_ServerSockId es) s))"

definition es_Read :: "env \<Rightarrow> EpollSocket \<Rightarrow> nat \<Rightarrow> (int \<times> string) io" where
  "es_Read env es n =
     (if m_ServerSockId es \<le> 0 then return (- 1, [])
      else do { r \<leftarrow> sys env (Read (m_ServerSockId es) n); return (ret r, data r) })"

text \<open>\<open>Init\<close>: the status (1 for a failing \<open>epoll_create\<close>) and the object.\<close>

definition es_Init :: "env \<Rightarrow> string \<Rightarrow> int \<Rightarrow> int \<Rightarrow> int \<Rightarrow> EpollSocket \<Rightarrow> (int \<times> EpollSocket) outcome io" where
  "es_Init env ip port proc n es = (case strncpy (m_Ip es) ip 40 of
     Inl e \<Rightarrow> return (Crashed e)
   | Inr buf \<Rightarrow> do {
       fd \<leftarrow> call_ret env (EpollCreate n);
       let es' = es\<lparr>m_Ip := buf, m_Port := port, m_ProcType := proc, m_EpollFd := fd\<rparr>;
       return (Running (if fd < 0 then 1 else 0, es'))
     })"

section \<open>One event\<close>

definition has_in :: "nat \<Rightarrow> bool" where "has_in m \<longleftrightarrow> odd m"

definition has_out :: "nat \<Rightarrow> bool" where "has_out m \<longleftrightarrow> odd (m div 4)"

text \<open>A whole buffer is sent, whatever the length of the text in it.\<close>

definition tmp_buffer :: "string \<Rightarrow> string" where
  "tmp_buffer s = s @ replicate (TMP_SIZE - length s) NUL"

definition new_client :: "env \<Rightarrow> EpollSocket \<Rightarrow> int \<Rightarrow> EpollSocket outcome io" where
  "new_client env es sockfd = do {
     fd \<leftarrow> call_ret env (Accept sockfd);
     if fd < 0 then return (Failed 1)
     else do {
       _ \<leftarrow> sys env (Write fd (tmp_buffer ''connection establishment successful!''));
       _ \<leftarrow> sys env (EpollAdd (m_EpollFd es) fd);
       return (Running es)
     }
   }"

text \<open>
  A readable client; the received text is printed, which needs a NUL in the buffer. The flag
  is \<open>False\<close> when the loop goes on with the next event (an interrupted \<open>recv\<close>).
\<close>

definition readable :: "env \<Rightarrow> EpollSocket \<Rightarrow> int \<Rightarrow> bool outcome io" where
  "readable env es fd = do {
     r \<leftarrow> sys env (Read fd TMP_SIZE);
     if ret r > 0 then
       (case c_string (tmp_buffer (take TMP_SIZE (data r))) of
          Inl e \<Rightarrow> return (Crashed e) | Inr _ \<Rightarrow> return (Running True))
     else if ret r = 0 then do {
       _ \<leftarrow> sys env (EpollDel (m_EpollFd es) fd);
       _ \<leftarrow> sys env (Close fd);
       return (Running True)
     }
     else if ret r = - 4 then return (Running False)
     else do { _ \<leftarrow> sys env (Close fd); return (Running True) }
   }"

definition writable :: "env \<Rightarrow> EpollSocket \<Rightarrow> int \<Rightarrow> EpollSocket io" where
  "writable env es fd = do {
     let buffer = ''hello ,I am '' @ show_int (m_ServerSockId es) @ ''_'' @ show_nat (iMsgNO es);
     _ \<leftarrow> sys env (Write fd (tmp_buffer buffer));
     return (es\<lparr>iMsgNO := iMsgNO es + 1\<rparr>)
   }"

definition handle_event :: "env \<Rightarrow> EpollSocket \<Rightarrow> int \<times> nat \<Rightarrow> EpollSocket outcome io" where
  "handle_event env es = (\<lambda>(fd, ev).
     if m_ProcType es = 0 \<and> fd = m_ServerSockId es then new_client env es fd
     else do {
       o1 \<leftarrow> (if has_in ev then readable env es fd else return (Running True));
       (case o1 of
          Crashed e \<Rightarrow> return (Crashed e)
        | Failed i \<Rightarrow> return (Failed i)
        | Running go \<Rightarrow>
            if go \<and> has_out ev then do { es' \<leftarrow> writable env es fd; return (Running es') }
            else return (Running es))
     })"

fun handle_events :: "env \<Rightarrow> EpollSocket \<Rightarrow> (int \<times> nat) list \<Rightarrow> EpollSocket outcome io" where
  "handle_events env es [] = return (Running es)"
| "handle_events env es (e # rest) = do {
     r \<leftarrow> handle_event env es e;
     (case r of
        Running es' \<Rightarrow> handle_events env es' rest
      | Failed i \<Rightarrow> return (Failed i)
      | Crashed u \<Rightarrow> return (Crashed u))
   }"

definition es_EpollWait :: "env \<Rightarrow> EpollSocket \<Rightarrow> EpollSocket outcome io" where
  "es_EpollWait env es = do {
     r \<leftarrow> sys env (EpollWait (m_EpollFd es));
     if ret r < 0 then return (Failed 1)
     else if ret r = 0 then do { _ \<leftarrow> sys env (Usleep 1000); return (Running es) }
     else handle_events env es (take (nat (ret r)) (evs r))
   }"

fun wait_loop :: "env \<Rightarrow> nat \<Rightarrow> EpollSocket \<Rightarrow> EpollSocket outcome io" where
  "wait_loop env 0 es = return (Running es)"
| "wait_loop env (Suc k) es = do {
     r \<leftarrow> es_EpollWait env es;
     (case r of
        Running es' \<Rightarrow> wait_loop env k es'
      | Failed i \<Rightarrow> return (Failed i)
      | Crashed u \<Rightarrow> return (Crashed u))
   }"

section \<open>Server, client and main\<close>

definition es_RunAsServer :: "env \<Rightarrow> nat \<Rightarrow> EpollSocket \<Rightarrow> EpollSocket outcome io" where
  "es_RunAsServer env k es = do {
     sid \<leftarrow> call_ret env Socket;
     let es1 = es\<lparr>m_ServerSockId := sid\<rparr>;
     if sid < 0 then return (Failed 1)
     else case c_string (m_Ip es1) of
       Inl e \<Rightarrow> return (Crashed e)
     | Inr ip \<Rightarrow> do {
         b \<leftarrow> call_ret env (Bind sid ip (m_Port es1));
         if b < 0 then return (Failed 1)
         else do {
           l \<leftarrow> call_ret env (Listen sid (EVENT_MAX_SIZE - 1));
           if l < 0 then return (Failed 1)
           else do {
             _ \<leftarrow> SetNonblock env sid;
             _ \<leftarrow> sys env (EpollAdd (m_EpollFd es1) sid);
             wait_loop env k es1
           }
         }
       }
   }"

definition es_RunAsClient :: "env \<Rightarrow> nat \<Rightarrow> EpollSocket \<Rightarrow> EpollSocket outcome io" where
  "es_RunAsClient env k es = do {
     sid \<leftarrow> call_ret env Socket;
     let es1 = es\<lparr>m_ServerSockId := sid\<rparr>;
     if sid < 0 then return (Failed 1)
     else case c_string (m_Ip es1) of
       Inl e \<Rightarrow> return (Crashed e)
     | Inr ip \<Rightarrow> do {
         c \<leftarrow> call_ret env (Connect sid ip (m_Port es1));
         if c < 0 then return (Failed 1)
         else do {
           _ \<leftarrow> SetReUseAddr env sid;
           _ \<leftarrow> SetNonblock env sid;
           _ \<leftarrow> sys env (EpollAdd (m_EpollFd es1) sid);
           wait_loop env k es1
         }
       }
   }"

definition Execute :: "env \<Rightarrow> nat \<Rightarrow> EpollSocket \<Rightarrow> EpollSocket outcome io" where
  "Execute env k es = (if m_ProcType es = 0 then es_RunAsServer env k es else es_RunAsClient env k es)"

text \<open>\<open>main\<close>: the arguments after the program's name; \<open>Init\<close>'s status is not looked at.\<close>

definition epoll_main :: "env \<Rightarrow> nat \<Rightarrow> string list \<Rightarrow> EpollSocket outcome io" where
  "epoll_main env k args = (case args of
     [ip, port, flag] \<Rightarrow>
       (case (atoi port, atoi flag) of
          (Inr p, Inr f) \<Rightarrow> do {
            i \<leftarrow> es_Init env ip p f EVENT_MAX_SIZE EpollSocket_new;
            (case i of
               Running (_, es) \<Rightarrow> Execute env k es
             | Failed n \<Rightarrow> return (Failed n)
             | Crashed e \<Rightarrow> return (Crashed e))
          }
        | _ \<Rightarrow> return (Crashed Overflow))
   | _ \<Rightarrow> return (Failed 0))"

section \<open>Descriptors\<close>

text \<open>
  The epoll descriptor is never reported as ready. Then the program watches exactly the
  sockets it has open.
\<close>

definition tidy :: "int \<Rightarrow> trace \<Rightarrow> bool" where
  "tidy efd t \<longleftrightarrow> open_set t = insert efd (watched t)"

lemma tidy_simps [simp]:
  "tidy efd ((Write fd s, r) # t) = tidy efd t" "tidy efd ((Read fd n, r) # t) = tidy efd t"
  "tidy efd ((EpollWait e, r) # t) = tidy efd t" "tidy efd ((Usleep u, r) # t) = tidy efd t"
  by (simp_all add: tidy_def)

lemma tidy_new: "0 \<le> ret r \<Longrightarrow> tidy efd t \<Longrightarrow> tidy efd ((EpollAdd e (ret r), x) # (Write fd s, y) # (Accept l, r) # t)"
  by (auto simp: tidy_def)

lemma tidy_close: "fd \<noteq> efd \<Longrightarrow> tidy efd t \<Longrightarrow> tidy efd ((Close fd, x) # t)"
  by (auto simp: tidy_def)

lemma tidy_del_close: "fd \<noteq> efd \<Longrightarrow> tidy efd t \<Longrightarrow> tidy efd ((Close fd, x) # (EpollDel e fd, y) # t)"
  by (auto simp: tidy_def)

lemma readable_ok:
  assumes "run_state (readable env es fd) t = (o1, t')" "fd \<noteq> efd" "tidy efd t"
  shows "tidy efd t'"
  using assms
  by (auto simp: readable_def tidy_close tidy_del_close split: if_splits sum.splits)

lemma handle_event_ok:
  assumes "run_state (handle_event env es (fd, ev)) t = (Running es', t')"
    "fd \<noteq> m_EpollFd es" "tidy (m_EpollFd es) t"
  shows "tidy (m_EpollFd es) t'" "m_EpollFd es' = m_EpollFd es" "m_ProcType es' = m_ProcType es"
    "m_ServerSockId es' = m_ServerSockId es"
proof -
  have "tidy (m_EpollFd es) t' \<and> m_EpollFd es' = m_EpollFd es \<and> m_ProcType es' = m_ProcType es \<and>
    m_ServerSockId es' = m_ServerSockId es"
  proof (cases "m_ProcType es = 0 \<and> fd = m_ServerSockId es")
    case True
    then show ?thesis
      using assms by (auto simp: handle_event_def new_client_def tidy_new split: if_splits)
  next
    case False
    obtain o1 t1 where 1: "run_state (if has_in ev then readable env es fd else return (Running True)) t =
        (o1, t1)" by (metis prod.exhaust)
    have "tidy (m_EpollFd es) t1"
      using 1 readable_ok assms(2,3) by (auto split: if_splits)
    then show ?thesis
      using assms(1) 1 False
      by (auto simp: handle_event_def writable_def Let_def split: if_splits outcome.splits)
  qed
  then show "tidy (m_EpollFd es) t'" "m_EpollFd es' = m_EpollFd es" "m_ProcType es' = m_ProcType es"
    "m_ServerSockId es' = m_ServerSockId es" by simp_all
qed

lemma handle_events_ok:
  "run_state (handle_events env es l) t = (Running es', t') \<Longrightarrow> m_EpollFd es \<notin> fst ` set l \<Longrightarrow>
   tidy (m_EpollFd es) t \<Longrightarrow> tidy (m_EpollFd es) t' \<and> m_EpollFd es' = m_EpollFd es"
proof (induction l arbitrary: es t)
  case (Cons e l)
  obtain fd ev where e: "e = (fd, ev)" by (cases e)
  obtain o1 t1 where o1: "run_state (handle_event env es e) t = (o1, t1)" by (metis prod.exhaust)
  then obtain es1 where es1: "o1 = Running es1"
    "run_state (handle_events env es1 l) t1 = (Running es', t')"
    using Cons.prems(1) by (cases o1) auto
  have *: "tidy (m_EpollFd es) t1" "m_EpollFd es1 = m_EpollFd es"
    using handle_event_ok [OF o1 [unfolded e es1(1)]] Cons.prems(2,3) by (auto simp: e)
  then show ?case using Cons.IH [OF es1(2)] Cons.prems(2) by simp
qed simp

definition sane_epoll :: "env \<Rightarrow> bool" where
  "sane_epoll env \<longleftrightarrow> (\<forall>t e. e \<notin> fst ` set (evs (env t (EpollWait e))))"

lemma es_EpollWait_ok:
  assumes "sane_epoll env" "run_state (es_EpollWait env es) t = (Running es', t')"
    "tidy (m_EpollFd es) t"
  shows "tidy (m_EpollFd es) t' \<and> m_EpollFd es' = m_EpollFd es"
proof -
  have "m_EpollFd es \<notin> fst ` set (take n (evs (env t (EpollWait (m_EpollFd es)))))" for n
    using assms(1) unfolding sane_epoll_def by (meson image_mono set_take_subset subsetD)
  then show ?thesis
    using assms(2,3) handle_events_ok by (auto simp: es_EpollWait_def split: if_splits)
qed

lemma wait_loop_ok:
  "sane_epoll env \<Longrightarrow> run_state (wait_loop env k es) t = (Running es', t') \<Longrightarrow>
   tidy (m_EpollFd es) t \<Longrightarrow> tidy (m_EpollFd es) t' \<and> m_EpollFd es' = m_EpollFd es"
proof (induction k arbitrary: es t)
  case (Suc k)
  obtain o1 t1 where o1: "run_state (es_EpollWait env es) t = (o1, t1)" by (metis prod.exhaust)
  then obtain es1 where es1: "o1 = Running es1" "run_state (wait_loop env k es1) t1 = (Running es', t')"
    using Suc.prems(2) by (cases o1) auto
  then show ?case
    using Suc.IH [OF Suc.prems(1) es1(2)] es_EpollWait_ok [OF Suc.prems(1) o1 [unfolded es1(1)] Suc.prems(3)]
    by simp
qed simp

lemma SetNonblock_sets:
  "run_state (SetNonblock env fd) t = (r, t') \<Longrightarrow> open_set t' = open_set t \<and> watched t' = watched t"
  by (auto simp: SetNonblock_def split: if_splits)

lemma es_RunAsServer_ok:
  assumes "sane_epoll env" "run_state (es_RunAsServer env k es) t = (Running es', t')"
    "tidy (m_EpollFd es) t"
  shows "tidy (m_EpollFd es) t' \<and> m_EpollFd es' = m_EpollFd es"
proof -
  let ?sid = "ret (env t Socket)"
  let ?es1 = "es\<lparr>m_ServerSockId := ?sid\<rparr>"
  let ?t1 = "(Socket, env t Socket) # t"
  obtain ip where ip: "c_string (m_Ip es) = Inr ip" "0 \<le> ?sid"
    using assms(2) by (auto simp: es_RunAsServer_def Let_def not_less split: if_splits sum.splits)
  let ?b = "Bind ?sid ip (m_Port es)" and ?l = "Listen ?sid (EVENT_MAX_SIZE - 1)"
  let ?t2 = "(?b, env ?t1 ?b) # ?t1"
  let ?t3 = "(?l, env ?t2 ?l) # ?t2"
  obtain r t4 where nb: "run_state (SetNonblock env ?sid) ?t3 = (r, t4)" by (metis prod.exhaust)
  let ?a = "EpollAdd (m_EpollFd es) ?sid"
  have run: "run_state (wait_loop env k ?es1) ((?a, env t4 ?a) # t4) = (Running es', t')"
    using assms(2) ip nb by (simp add: es_RunAsServer_def Let_def split: if_splits)
  have "tidy (m_EpollFd ?es1) ((?a, env t4 ?a) # t4)"
    using SetNonblock_sets [OF nb] ip(2) assms(3) by (auto simp: tidy_def)
  then show ?thesis using wait_loop_ok [OF assms(1) run] by simp
qed

section \<open>Properties\<close>

text \<open>
  C16: the server's bookkeeping of descriptors: after any number of rounds of events, the open
  descriptors are the epoll instance and exactly the sockets it watches, so no connection is
  leaked or watched after its end, as long as no step fails.
\<close>

theorem server_watches_open_sockets:
  assumes "sane_epoll env" "0 \<le> ret (env [] (EpollCreate EVENT_MAX_SIZE))"
    and "run_state (epoll_main env k [ip, port, ''0'']) [] = (Running es, t)"
  shows "open_set t = insert (m_EpollFd es) (watched t)"
proof -
  let ?efd = "ret (env [] (EpollCreate EVENT_MAX_SIZE))"
  let ?t1 = "[(EpollCreate EVENT_MAX_SIZE, env [] (EpollCreate EVENT_MAX_SIZE))]"
  have "atoi ''0'' = Inr 0" by code_simp
  then obtain p buf where run:
    "run_state (es_RunAsServer env k (EpollSocket_new\<lparr>m_Ip := buf, m_Port := p, m_ProcType := 0,
       m_EpollFd := ?efd\<rparr>)) ?t1 = (Running es, t)"
    using assms(3)
    by (auto simp: epoll_main_def es_Init_def Execute_def Let_def split: sum.splits)
  have "tidy ?efd ?t1" using assms(2) by (auto simp: tidy_def)
  then show ?thesis using es_RunAsServer_ok [OF assms(1) run] by (simp add: tidy_def)
qed

definition epoll_demo_env :: env where
  "epoll_demo_env t c = (case c of
     EpollWait e \<Rightarrow> if e = 3 then \<lparr>ret = 1, data = [], evs = [(4, 1)]\<rparr> else \<lparr>ret = 0, data = [], evs = []\<rparr>
   | EpollCreate _ \<Rightarrow> \<lparr>ret = 3, data = [], evs = []\<rparr>
   | Socket \<Rightarrow> \<lparr>ret = 4, data = [], evs = []\<rparr>
   | Accept _ \<Rightarrow> \<lparr>ret = 5 + int (length t), data = [], evs = []\<rparr>
   | _ \<Rightarrow> \<lparr>ret = 0, data = [], evs = []\<rparr>)"

lemma sane_demo: "sane_epoll epoll_demo_env"
  by (simp add: sane_epoll_def epoll_demo_env_def)

theorem server_watches_open_sockets_witness:
  "\<exists>es t. run_state (epoll_main epoll_demo_env 1 [''10.0.0.1'', ''80'', ''0'']) [] = (Running es, t) \<and>
    open_set t = insert (m_EpollFd es) (watched t)"
proof -
  have "case fst (run_state (epoll_main epoll_demo_env 1 [''10.0.0.1'', ''80'', ''0'']) []) of
      Running _ \<Rightarrow> True | _ \<Rightarrow> False"
    by code_simp
  then have "\<exists>es t. run_state (epoll_main epoll_demo_env 1 [''10.0.0.1'', ''80'', ''0'']) [] = (Running es, t)"
    by (metis (no_types, lifting) outcome.case(2,3) outcome.exhaust prod.collapse)
  then obtain es t where
    r: "run_state (epoll_main epoll_demo_env 1 [''10.0.0.1'', ''80'', ''0'']) [] = (Running es, t)" by blast
  have "0 \<le> ret (epoll_demo_env [] (EpollCreate EVENT_MAX_SIZE))" by (simp add: epoll_demo_env_def)
  then show ?thesis using server_watches_open_sockets [OF sane_demo _ r] r by blast
qed

text \<open>
  An event that is readable and writable and whose \<open>recv\<close> reports the end of the
  connection is answered all the same: the program sends to the descriptor it has just closed.
\<close>

theorem send_after_close:
  assumes "\<not> (m_ProcType es = 0 \<and> fd = m_ServerSockId es)" "has_in ev" "has_out ev"
    and "ret (env t (Read fd TMP_SIZE)) = 0"
  shows "\<exists>es' s r t1. run_state (handle_event env es (fd, ev)) t = (Running es', (Write fd s, r) # t1) \<and>
    fd \<notin> open_set t1"
  using assms by (auto simp: handle_event_def readable_def writable_def Let_def)

theorem send_after_close_witness:
  "\<exists>es' s r t1. run_state (handle_event epoll_demo_env EpollSocket_new (9, 5)) [] =
     (Running es', (Write 9 s, r) # t1) \<and> 9 \<notin> open_set t1"
  by (rule send_after_close)
    (simp_all add: EpollSocket_new_def has_in_def has_out_def epoll_demo_env_def)

text \<open>
  A message that fills the receive buffer with non-NUL characters is printed without a
  terminator: the read runs past the buffer.
\<close>

theorem full_buffer_overread:
  assumes "0 < ret (env t (Read fd TMP_SIZE))" "TMP_SIZE \<le> length (data (env t (Read fd TMP_SIZE)))"
    and "NUL \<notin> set (data (env t (Read fd TMP_SIZE)))" "has_in ev"
    and "\<not> (m_ProcType es = 0 \<and> fd = m_ServerSockId es)"
  shows "fst (run_state (handle_event env es (fd, ev)) t) = Crashed OutOfBounds"
proof -
  let ?d = "data (env t (Read fd TMP_SIZE))"
  have "NUL \<notin> set (take TMP_SIZE ?d)" using assms(3) by (meson in_set_takeD)
  then have "c_string (tmp_buffer (take TMP_SIZE ?d)) = Inl OutOfBounds"
    using assms(2) by (simp add: c_string_def tmp_buffer_def)
  then show ?thesis using assms(1,4,5) by (auto simp: handle_event_def readable_def)
qed

theorem full_buffer_overread_witness:
  "fst (run_state (handle_event (\<lambda>t c. \<lparr>ret = 128, data = replicate 128 (CHR ''x''), evs = []\<rparr>)
     EpollSocket_new (9, 1)) []) = Crashed OutOfBounds"
  by (rule full_buffer_overread)
    (simp_all add: TMP_SIZE_def EpollSocket_new_def has_in_def)

text \<open>
  Any failing \<open>accept\<close> (an aborted connection, a full descriptor table) ends the whole
  server with an error, whatever other events are pending.
\<close>

theorem failing_accept_stops_server:
  assumes "m_ProcType es = 0" "0 < ret r" "r = env t (EpollWait (m_EpollFd es))"
    and "take (nat (ret r)) (evs r) = (m_ServerSockId es, ev) # rest"
    and "ret (env ((EpollWait (m_EpollFd es), r) # t) (Accept (m_ServerSockId es))) < 0"
  shows "fst (run_state (wait_loop env (Suc k) es) t) = Failed 1"
  using assms by (auto simp: es_EpollWait_def handle_event_def new_client_def split: prod.splits)

theorem failing_accept_stops_server_witness:
  "fst (run_state (wait_loop (\<lambda>t c. case c of
       EpollWait _ \<Rightarrow> \<lparr>ret = 1, data = [], evs = [(0, 1)]\<rparr> | _ \<Rightarrow> \<lparr>ret = - 103, data = [], evs = []\<rparr>)
     (Suc 0) EpollSocket_new) []) = Failed 1"
  by (rule failing_accept_stops_server [where r = "\<lparr>ret = 1, data = [], evs = [(0, 1)]\<rparr>"
      and ev = 1 and rest = "[]"]) (simp_all add: EpollSocket_new_def)

end
