(* ===== verification/Http.thy ===== *)
theory Http
  imports EpollSocket
begin

text \<open>
  The small web server \<^verbatim>\<open>src/wzq_http/http.cpp\<close>: an \<open>epoll\<close> loop in which every request is answered
  from one buffer of 1024 characters: a greeting for what is no GET request, a form, or a table when the
  request names \<^verbatim>\<open>msisdn\<close>. \<open>Failed 0\<close> is the \<open>exit(0)\<close> of an error; messages on standard
  output are left out, except that printing the request needs a terminated buffer.
\<close>

section \<open>Answers\<close>

definition HTTP_BUFFER_SIZE :: nat where "HTTP_BUFFER_SIZE = 1024"

definition CONNECT_SIZE :: int where "CONNECT_SIZE = 32"

definition HTTP_PORT :: int where "HTTP_PORT = 8899"

definition crlf :: string where "crlf = [CHR 0x0D, CHR 0x0A]"

text \<open>\<open>strcat\<close>: the string in the buffer and the second one, with its NUL.\<close>

definition strcat :: "char list \<Rightarrow> string \<Rightarrow> char list res" where
  "strcat buf s = bindE (c_string buf) (\<lambda>t. strcpy buf (t @ s))"

definition header_html :: "nat \<Rightarrow> string" where
  "header_html n =
     ''HTTP/1.0 200 OK'' @ crlf @ ''Server: Phone-Test/1.0'' @ crlf @
     ''Content-Type: text/html;charset=UTF-8'' @ crlf @ ''Content-Length: '' @ show_nat n @
     crlf @ crlf"

definition html :: string where
  \<open>html =
     ''<!doctype html>'' @ crlf @ ''               '' @ ''<html>'' @ crlf @
     ''                        '' @ tab @ ''<head>'' @ crlf @ ''                     '' @
     tab @ tab @ ''<meta charset=UTF-8>'' @ crlf @ ''   '' @ tab @ tab @ ''<title>test</title>'' @ crlf @
     ''    '' @ tab @ ''</head>'' @ crlf @ ''                    '' @ tab @ ''<body>'' @ crlf @
     ''                     '' @ tab @ tab @ ''it  a  test  hhh hhh'' @ crlf @ ''   '' @ tab @ ''</body>'' @
     crlf @ ''                   '' @ ''</html>'' @ crlf @ ''                      ''\<close>

definition default_html :: string where
  \<open>default_html =
     ''<!doctype html>'' @ crlf @ ''<html>'' @ crlf @ ''<head>'' @ crlf @
     ''<meta http-equiv="content-type" content="text/html; charset=UTF-8">'' @ crlf @
     ''<title>phone number query</title>'' @ crlf @ ''</head>'' @ crlf @ ''<body>'' @ crlf @
     ''<h1>phone number query</h1>'' @ crlf @ ''phone number information'' @ crlf @
     ''<form action=msisdn method=get><p>'' @
     ''msisdn:head<input type=text name=head size=12 />'' @
     ''time before(minutes)<input type=text name=before size=12 value=1 />'' @
     ''size<input type=text name=size size=12 value=25 />'' @ ''</p>'' @
     ''<p><input type=submit value=submit /></p>'' @ crlf @ ''</form>'' @ ''<br/><br/>'' @
     ''<a href=post_pdp>post pdp imformation</a><br/><br/><br/>'' @ ''</body>'' @ crlf @
     ''</html>'' @ crlf\<close>

definition result_fmt :: string where
  \<open>result_fmt =
     ''<result>'' @ crlf @ ''<table border="1">'' @ crlf @ ''<tr>'' @ crlf @
     ''<th>msisdn</td>'' @ crlf @ ''<th>imsi</td>'' @ crlf @ ''<th>imei</td>'' @ crlf @
     ''</tr>'' @ crlf @ ''<tr>'' @ crlf @ ''<td>18712345678</td>'' @ crlf @
     ''<td>324567890123</td>'' @ crlf @ ''<td>6543217890</td>'' @ crlf @ ''</tr>'' @ crlf @
     ''<tr>'' @ crlf @ ''<td>18787976558</td>'' @ crlf @ ''<td>666667890123</td>'' @ crlf @
     ''<td>8655431789</td>'' @ crlf @ ''</tr>'' @ crlf @ ''</table>'' @ crlf @ ''</result>'' @
     crlf\<close>

text \<open>
  The head and the body are put together in the buffer; \<open>sizeof(buffer)\<close> is the size of a
  pointer. The result is what is written to the client.
\<close>

definition respond :: "nat \<Rightarrow> char list \<Rightarrow> string \<Rightarrow> string res" where
  "respond n buf body =
     bindE (memset0 buf n) (\<lambda>b. bindE (strcpy b (header_html (length body))) (\<lambda>b1.
     bindE (strcat b1 body) c_string))"

definition DealNewConnect :: "env \<Rightarrow> int \<Rightarrow> unit outcome io" where
  "DealNewConnect env cfd = (case respond HTTP_BUFFER_SIZE (replicate HTTP_BUFFER_SIZE NUL) html of
     Inl e \<Rightarrow> return (Crashed e)
   | Inr s \<Rightarrow> do { _ \<leftarrow> sys env (Write cfd s); return (Running ()) })"

definition answer_for :: "char list \<Rightarrow> string res" where
  "answer_for buf =
     bindE (c_string buf) (\<lambda>req.
     if strstr req ''GET '' = None then
       bindE (memset0 buf 8) (\<lambda>b. bindE (strcpy b ''hello .this is server!'') c_string)
     else if strstr req ''msisdn'' = None then respond 8 buf default_html
     else respond 8 buf result_fmt)"

definition DealRecv :: "env \<Rightarrow> int \<Rightarrow> char list \<Rightarrow> unit outcome io" where
  "DealRecv env cfd buf = (case answer_for buf of
     Inl e \<Rightarrow> return (Crashed e)
   | Inr s \<Rightarrow> do { _ \<leftarrow> sys env (Write cfd s); return (Running ()) })"

section \<open>The loop\<close>

definition http_SetNonblock :: "env \<Rightarrow> int \<Rightarrow> int io" where
  "http_SetNonblock env fd = do {
     flags \<leftarrow> call_ret env (Fcntl fd);
     if flags < 0 then return flags
     else do { r \<leftarrow> call_ret env (Fcntl fd); return (if r < 0 then - 1 else 0) }
   }"

definition http_SetReUseAddr :: "env \<Rightarrow> int \<Rightarrow> int io" where
  "http_SetReUseAddr env fd = call_ret env (SetSockOpt fd)"

text \<open>A new client; the counter of the clients.\<close>

definition http_accept :: "env \<Rightarrow> int \<Rightarrow> int \<Rightarrow> nat \<Rightarrow> nat io" where
  "http_accept env efd sockfd icnt = do {
     cfd \<leftarrow> call_ret env (Accept sockfd);
     if cfd < 0 then return icnt
     else do { _ \<leftarrow> sys env (EpollAdd efd cfd); return (icnt + 1) }
   }"

text \<open>The buffer was cleared before \<open>recv\<close>, which may fill it. Error 4 is \<open>EINTR\<close>.\<close>

definition http_buffer :: "string \<Rightarrow> char list" where
  "http_buffer d = take HTTP_BUFFER_SIZE d @ replicate (HTTP_BUFFER_SIZE - length d) NUL"

definition http_recv :: "env \<Rightarrow> int \<Rightarrow> unit outcome io" where
  "http_recv env cfd = do {
     r \<leftarrow> sys env (Read cfd HTTP_BUFFER_SIZE);
     if ret r > 0 then DealRecv env cfd (http_buffer (data r))
     else if ret r = 0 then return (Running ())
     else if ret r = - 4 then return (Running ())
     else do { _ \<leftarrow> sys env (Close cfd); return (Running ()) }
   }"

definition http_event :: "env \<Rightarrow> int \<Rightarrow> int \<Rightarrow> nat \<Rightarrow> int \<times> nat \<Rightarrow> nat outcome io" where
  "http_event env efd sockfd icnt = (\<lambda>(fd, ev).
     if has_in ev then
       (if fd = sockfd then do { n \<leftarrow> http_accept env efd sockfd icnt; return (Running n) }
        else do {
          o1 \<leftarrow> http_recv env fd;
          return (case o1 of Running _ \<Rightarrow> Running icnt | Failed i \<Rightarrow> Failed i | Crashed e \<Rightarrow> Crashed e)
        })
     else return (Running icnt))"

fun http_events :: "env \<Rightarrow> int \<Rightarrow> int \<Rightarrow> nat \<Rightarrow> (int \<times> nat) list \<Rightarrow> nat outcome io" where
  "http_events env efd sockfd icnt [] = return (Running icnt)"
| "http_events env efd sockfd icnt (e # es) = do {
     r \<leftarrow> http_event env efd sockfd icnt e;
     (case r of
        Running n \<Rightarrow> http_events env efd sockfd n es
      | Failed i \<Rightarrow> return (Failed i)
      | Crashed u \<Rightarrow> return (Crashed u))
   }"

fun http_loop :: "env \<Rightarrow> int \<Rightarrow> int \<Rightarrow> nat \<Rightarrow> nat \<Rightarrow> nat outcome io" where
  "http_loop env efd sockfd 0 icnt = return (Running icnt)"
| "http_loop env efd sockfd (Suc k) icnt = do {
     r \<leftarrow> sys env (EpollWait efd);
     if ret r < 0 then return (Failed 0)
     else do {
       o1 \<leftarrow> http_events env efd sockfd icnt (take (nat (ret r)) (evs r));
       (case o1 of
          Running n \<Rightarrow> do { _ \<leftarrow> sys env (Usleep 1000); http_loop env efd sockfd k n }
        | Failed i \<Rightarrow> return (Failed i)
        | Crashed u \<Rightarrow> return (Crashed u))
     }
   }"

text \<open>\<open>Run\<close>, for the first \<open>k\<close> rounds; the address is any (\<open>INADDR_ANY\<close>).\<close>

definition http_Run :: "env \<Rightarrow> nat \<Rightarrow> nat outcome io" where
  "http_Run env k = do {
     sockfd \<leftarrow> call_ret env Socket;
     if sockfd < 0 then return (Failed 0)
     else do {
       _ \<leftarrow> http_SetReUseAddr env sockfd;
       b \<leftarrow> call_ret env (Bind sockfd ''0.0.0.0'' HTTP_PORT);
       if b < 0 then return (Failed 0)
       else do {
         l \<leftarrow> call_ret env (Listen sockfd 10);
         if l < 0 then return (Failed 0)
         else do {
           _ \<leftarrow> http_SetNonblock env sockfd;
           efd \<leftarrow> call_ret env (EpollCreate CONNECT_SIZE);
           if efd < 0 then return (Failed 0)
           else do {
             _ \<leftarrow> sys env (EpollAdd efd sockfd);
             http_loop env efd sockfd k 0
           }
         }
       }
     }
   }"


section \<open>Every request is answered\<close>

text \<open>The abstract server: the answer to a request.\<close>

definition http_answer :: "string \<Rightarrow> string" where
  "http_answer req =
     (if strstr req ''GET '' = None then ''hello .this is server!''
      else let body = (if strstr req ''msisdn'' = None then default_html else result_fmt)
           in header_html (length body) @ body)"

lemma c_string_prefix: "NUL \<notin> set s \<Longrightarrow> c_string (s @ NUL # r) = Inr s"
  by (auto simp: c_string_def takeWhile_append)

lemma strcpy_c_string:
  "NUL \<notin> set s \<Longrightarrow> length s < length b \<Longrightarrow> bindE (strcpy b s) c_string = Inr s"
  by (simp add: strcpy_def c_string_prefix)

lemma show_nat_no_NUL: "NUL \<notin> set (show_nat n)"
  using show_nat_digits [of n] by (auto simp: isdigit_def)

lemma header_no_NUL: "NUL \<notin> set (header_html n)"
  using show_nat_no_NUL [of n] by (simp add: header_html_def crlf_def)

lemma respond_ok:
  assumes "n \<le> length buf" "NUL \<notin> set body" "length (header_html (length body)) + length body < length buf"
  shows "respond n buf body = Inr (header_html (length body) @ body)"
proof -
  let ?h = "header_html (length body)"
  obtain b where b: "memset0 buf n = Inr b" "length b = length buf"
    using assms(1) by (simp add: memset0_def)
  let ?b1 = "?h @ NUL # drop (length ?h + 1) b"
  have "strcpy b ?h = Inr ?b1" "length ?b1 = length buf"
    using assms(3) b(2) by (simp_all add: strcpy_def)
  moreover have "c_string ?b1 = Inr ?h" by (rule c_string_prefix [OF header_no_NUL])
  moreover have "bindE (strcpy ?b1 (?h @ body)) c_string = Inr (?h @ body)"
    using assms calculation(2) header_no_NUL by (intro strcpy_c_string) simp_all
  ultimately show ?thesis using b by (simp add: respond_def strcat_def)
qed

lemma body_lengths: "length default_html = 546 \<and> length result_fmt = 269 \<and> NUL \<notin> set default_html \<and> NUL \<notin> set result_fmt"
  by (simp add: default_html_def result_fmt_def crlf_def)


lemma length_show_nat: "n < 10 ^ Suc k \<Longrightarrow> length (show_nat n) \<le> Suc k"
proof (induction k arbitrary: n)
  case 0
  then show ?case by (subst show_nat.simps) simp
next
  case (Suc k)
  then have "length (show_nat (n div 10)) \<le> Suc k" by (intro Suc.IH) (simp add: less_mult_imp_div_less)
  then show ?case by (subst show_nat.simps) simp
qed

lemma header_length: "n < 1000 \<Longrightarrow> length (header_html n) \<le> 103"
  using length_show_nat [of n 2] by (simp add: header_html_def crlf_def)

lemma http_buffer_string:
  assumes "length d < HTTP_BUFFER_SIZE"
  shows "c_string (http_buffer d) = Inr (takeWhile (\<lambda>c. c \<noteq> NUL) d)" "length (http_buffer d) = HTTP_BUFFER_SIZE"
proof -
  obtain k where k: "HTTP_BUFFER_SIZE - length d = Suc k" using assms by (cases "HTTP_BUFFER_SIZE - length d") auto
  then have b: "http_buffer d = d @ NUL # replicate k NUL" using assms by (simp add: http_buffer_def)
  show "c_string (http_buffer d) = Inr (takeWhile (\<lambda>c. c \<noteq> NUL) d)"
    by (simp add: b c_string_def takeWhile_tail)
  show "length (http_buffer d) = HTTP_BUFFER_SIZE" using assms k by (simp add: b)
qed

lemma answer_for_ok:
  assumes "length d < HTTP_BUFFER_SIZE"
  shows "answer_for (http_buffer d) = Inr (http_answer (takeWhile (\<lambda>c. c \<noteq> NUL) d))"
proof -
  let ?b = "http_buffer d"
  note b = http_buffer_string [OF assms]
  have *: "respond 8 ?b body = Inr (header_html (length body) @ body)"
    if "body = default_html \<or> body = result_fmt" for body
    using that body_lengths header_length [of "length body"]
    by (intro respond_ok) (auto simp: b(2) HTTP_BUFFER_SIZE_def)
  have "bindE (memset0 ?b 8) (\<lambda>b. bindE (strcpy b ''hello .this is server!'') c_string) = Inr ''hello .this is server!''"
    using b(2) by (simp add: memset0_def HTTP_BUFFER_SIZE_def strcpy_c_string)
  then show ?thesis
    by (auto simp: answer_for_def b(1) http_answer_def Let_def *)
qed

text \<open>A request that fills the buffer is not terminated.\<close>

lemma answer_for_full:
  "HTTP_BUFFER_SIZE \<le> length d \<Longrightarrow> NUL \<notin> set d \<Longrightarrow> answer_for (http_buffer d) = Inl OutOfBounds"
  by (auto simp: answer_for_def http_buffer_def c_string_def dest: in_set_takeD)


section \<open>Clients that leave\<close>

text \<open>Every \<open>close\<close> of a trace follows a failing \<open>recv\<close> of the same descriptor.\<close>

definition closes_after_error :: "trace \<Rightarrow> bool" where
  "closes_after_error t \<longleftrightarrow> (\<forall>fd r. (Close fd, r) \<in> set t \<longrightarrow> (\<exists>q. (Read fd HTTP_BUFFER_SIZE, q) \<in> set t \<and> ret q < 0))"

lemma closes_after_error_Cons:
  "closes_after_error t \<Longrightarrow> \<forall>fd. c \<noteq> Close fd \<Longrightarrow> closes_after_error ((c, r) # t)"
  by (simp add: closes_after_error_def) blast

lemma closes_after_error_call:
  "\<forall>fd. c \<noteq> Close fd \<Longrightarrow> keeps_trace closes_after_error (sys env c)"
  "\<forall>fd. c \<noteq> Close fd \<Longrightarrow> keeps_trace closes_after_error (call_ret env c)"
  by (auto intro!: keeps_trace_sys keeps_trace_call closes_after_error_Cons)

lemmas trace_rules = keeps_trace_intros closes_after_error_call

lemma DealRecv_closes: "keeps_trace closes_after_error (DealRecv env cfd buf)"
  unfolding DealRecv_def by (cases "answer_for buf") (auto intro!: trace_rules)

lemma http_recv_closes: "keeps_trace closes_after_error (http_recv env cfd)"
  unfolding keeps_trace_def
proof (intro allI impI)
  fix t assume t: "closes_after_error t"
  let ?r = "env t (Read cfd HTTP_BUFFER_SIZE)"
  have "closes_after_error ((Read cfd HTTP_BUFFER_SIZE, ?r) # t)"
    using t by (auto simp: closes_after_error_def)
  moreover from this have "closes_after_error (snd (run_state (DealRecv env cfd b) ((Read cfd HTTP_BUFFER_SIZE, ?r) # t)))" for b
    using DealRecv_closes by (auto simp: keeps_trace_def)
  moreover have "closes_after_error ((Close cfd, q) # (Read cfd HTTP_BUFFER_SIZE, ?r) # t)" if "ret ?r < 0" for q
    using t that by (auto simp: closes_after_error_def)
  ultimately show "closes_after_error (snd (run_state (http_recv env cfd) t))"
    by (simp add: http_recv_def)
qed

lemma http_event_closes: "keeps_trace closes_after_error (http_event env efd sockfd n e)"
  unfolding http_event_def http_accept_def
  by (cases e) (auto intro!: trace_rules http_recv_closes)

lemma http_events_closes: "keeps_trace closes_after_error (http_events env efd sockfd n es)"
proof (induction es arbitrary: n)
  case (Cons e es)
  then show ?case
    by (auto intro!: trace_rules http_event_closes split: outcome.split)
qed (simp add: keeps_trace_return)

lemma http_loop_closes: "keeps_trace closes_after_error (http_loop env efd sockfd k n)"
proof (induction k arbitrary: n)
  case (Suc k)
  then show ?case
    by (auto intro!: trace_rules http_events_closes split: outcome.split)
qed (simp add: keeps_trace_return)

text \<open>
  A client that leaves stays open. Whatever happens, the server closes a descriptor only
  after \<open>recv\<close> on it has failed; an orderly disconnect, where \<open>recv\<close> returns 0, closes
  nothing, so the descriptors of all clients that left are kept.
\<close>

theorem http_keeps_left_clients:
  "(Close fd, r) \<in> set (snd (run_state (http_Run env k) [])) \<Longrightarrow>
   \<exists>q. (Read fd HTTP_BUFFER_SIZE, q) \<in> set (snd (run_state (http_Run env k) [])) \<and> ret q < 0"
proof -
  have "keeps_trace closes_after_error (http_Run env k)"
    unfolding http_Run_def http_SetReUseAddr_def http_SetNonblock_def
    by (auto intro!: trace_rules http_loop_closes)
  moreover have "closes_after_error []" by (simp add: closes_after_error_def)
  ultimately have "closes_after_error (snd (run_state (http_Run env k) []))"
    by (simp only: keeps_trace_def)
  then show "(Close fd, r) \<in> set (snd (run_state (http_Run env k) [])) \<Longrightarrow>
   \<exists>q. (Read fd HTTP_BUFFER_SIZE, q) \<in> set (snd (run_state (http_Run env k) [])) \<and> ret q < 0"
    unfolding closes_after_error_def by blast
qed


section \<open>An example\<close>

text \<open>A kernel that gives 3 to the listening socket and the text \<open>GET\<close> to every reader but the descriptor 7.\<close>

definition demo_http :: env where
  "demo_http t c = (case c of
     Socket \<Rightarrow> \<lparr>ret = 3, data = [], evs = []\<rparr>
   | EpollCreate n \<Rightarrow> \<lparr>ret = 4, data = [], evs = []\<rparr>
   | EpollWait e \<Rightarrow> \<lparr>ret = 1, data = [], evs = [(7, 1)]\<rparr>
   | Read fd n \<Rightarrow> (if fd = 7 then \<lparr>ret = - 104, data = [], evs = []\<rparr> else \<lparr>ret = 6, data = ''GET /x'', evs = []\<rparr>)
   | _ \<Rightarrow> \<lparr>ret = 0, data = [], evs = []\<rparr>)"


lemma demo_http_run: "(Close 7, \<lparr>ret = 0, data = [], evs = []\<rparr>) \<in> set (snd (run_state (http_Run demo_http 1) []))"
  by (simp add: http_Run_def http_SetReUseAddr_def http_SetNonblock_def http_event_def http_recv_def has_in_def demo_http_def)

lemma http_keeps_left_clients_witness:
  "\<exists>q. (Read 7 HTTP_BUFFER_SIZE, q) \<in> set (snd (run_state (http_Run demo_http 1) [])) \<and> ret q < 0"
  by (rule http_keeps_left_clients [OF demo_http_run])

end
