(* ===== verification/CountIp.thy ===== *)
theory CountIp
  imports CString
begin

text \<open>
  \<^verbatim>\<open>src/temp/count_ip.cpp\<close>: it reads lines of the form \<^verbatim>\<open>file:name=value\<close> and reports a name
  with two values or a value with two names, comparing the first six characters. The two
  maps are partial functions (their order is never used).
\<close>

section \<open>The program\<close>

type_synonym bindings = "string \<Rightarrow> string option"

text \<open>\<open>strncmp\<close> on the first six characters of two strings is not 0.\<close>

definition differ :: "string \<Rightarrow> string \<Rightarrow> bool" where
  "differ a b \<longleftrightarrow> take 6 a \<noteq> take 6 b"

definition two_text :: "string \<Rightarrow> string \<Rightarrow> string \<Rightarrow> string \<Rightarrow> string" where
  "two_text what a b c = what @ a @ '','' @ b @ '','' @ c @ endl"

text \<open>One look-up: the message, if any, and the map with a new binding, if there is none.\<close>

definition check_binding :: "string \<Rightarrow> bindings \<Rightarrow> string \<Rightarrow> string \<Rightarrow> string \<times> bindings" where
  "check_binding what m a b = (case m a of
     Some c \<Rightarrow> (if differ b c then two_text what a b c else [], m)
   | None \<Rightarrow> ([], m(a \<mapsto> b)))"

text \<open>
  One line, as \<open>fgets\<close> left it in the buffer. A value without a newline cannot be cut: \<open>erase\<close> throws.
\<close>

definition count_line :: "string \<Rightarrow> bindings \<times> bindings \<Rightarrow> (string \<times> bindings \<times> bindings) res" where
  "count_line line = (\<lambda>(mapName, mapVal).
     case strstr line '':'' of
       None \<Rightarrow> Inr (line @ endl, mapName, mapVal)
     | Some i \<Rightarrow> (let p1 = drop (i + 1) line in case strstr p1 ''='' of
         None \<Rightarrow> Inr (line @ endl, mapName, mapVal)
       | Some j \<Rightarrow> (let s1 = take j p1; s2 = drop (j + 1) p1 in
           if newline \<notin> set s2 then Inl Uncaught
           else let s2' = takeWhile (\<lambda>c. c \<noteq> newline) s2;
                    (o1, mapName') = check_binding ''two value:'' mapName s1 s2';
                    (o2, mapVal') = check_binding ''two key:'' mapVal s2' s1
                in Inr (o1 @ o2, mapName', mapVal'))))"

text \<open>The reading loop; a buffer of 256 characters is filled with at most 254. Text behind a NUL is not seen.\<close>

fun count_loop :: "nat \<Rightarrow> string \<Rightarrow> bindings \<times> bindings \<Rightarrow> string res" where
  "count_loop 0 rest m = Inr []"
| "count_loop (Suc n) rest m =
     (if rest = [] then Inr []
      else let (l, rest') = fgets 254 rest in
        bindE (count_line (takeWhile (\<lambda>c. c \<noteq> NUL) l) m) (\<lambda>(out, m'). bindE (count_loop n rest' m') (\<lambda>out'.
          Inr (out @ out'))))"

text \<open>
  \<open>main\<close>: what is printed. Without the file the error is printed and then the NULL stream is read.
  Every round takes a character at least.
\<close>

definition count_main :: "string option \<Rightarrow> string res" where
  "count_main file = (case file of
     None \<Rightarrow> Inl NullDeref
   | Some t \<Rightarrow> count_loop (length t) t (Map.empty, Map.empty))"

section \<open>What is reported\<close>

text \<open>A line as the program expects it, with its name and its value.\<close>

definition config_entry :: "string \<times> string \<times> string \<Rightarrow> string" where
  "config_entry = (\<lambda>(f, k, v). f @ '':'' @ k @ ''='' @ v @ endl)"

definition entry_fits :: "string \<times> string \<times> string \<Rightarrow> bool" where
  "entry_fits = (\<lambda>(f, k, v). CHR '':'' \<notin> set f \<and> CHR ''='' \<notin> set k
     \<and> newline \<notin> set (f @ k @ v) \<and> NUL \<notin> set (f @ k @ v) \<and> length (f @ k @ v) < 252)"

text \<open>The bindings after a list of pairs: the first one of a name stays.\<close>

definition first_bindings :: "(string \<times> string) list \<Rightarrow> bindings" where
  "first_bindings ps = map_of ps"

lemma first_bindings_snoc:
  "snd (check_binding w (first_bindings ps) a b) = first_bindings (ps @ [(a, b)])"
proof -
  have "map_of (ps @ [(a, b)]) = (if map_of ps a = None then (map_of ps)(a \<mapsto> b) else map_of ps)"
    by (auto simp: map_add_def fun_eq_iff split: option.splits)
  then show ?thesis
    by (auto simp: check_binding_def first_bindings_def split: option.splits)
qed

text \<open>No two pairs with the same name have values that differ.\<close>

definition consistent :: "(string \<times> string) list \<Rightarrow> bool" where
  "consistent ps \<longleftrightarrow> (\<forall>a b b'. (a, b) \<in> set ps \<longrightarrow> (a, b') \<in> set ps \<longrightarrow> \<not> differ b b')"

lemma differ_sym: "differ a b \<Longrightarrow> differ b a" and differ_irrefl: "\<not> differ a a"
  by (simp_all add: differ_def)

lemma consistent_append1:
  "consistent (ps @ [(a, b)]) \<longleftrightarrow> consistent ps \<and> (\<forall>b'. (a, b') \<in> set ps \<longrightarrow> \<not> differ b b')"
  (is "?l \<longleftrightarrow> ?r")
proof
  assume ?l then show ?r by (simp add: consistent_def)
next
  assume r: ?r
  show ?l unfolding consistent_def
  proof (intro allI impI)
    fix x y z assume "(x, y) \<in> set (ps @ [(a, b)])" "(x, z) \<in> set (ps @ [(a, b)])"
    then consider "(x, y) \<in> set ps" "(x, z) \<in> set ps" | "x = a" "y = b" "(x, z) \<in> set ps"
      | "x = a" "z = b" "(x, y) \<in> set ps" | "y = b" "z = b" by auto
    then show "\<not> differ y z"
      by cases (use r differ_sym differ_irrefl in \<open>auto simp: consistent_def\<close>)
  qed
qed

lemma consistent_snoc:
  assumes "consistent ps"
  shows "consistent (ps @ [(a, b)]) \<longleftrightarrow> fst (check_binding w (first_bindings ps) a b) = []"
proof (cases "map_of ps a")
  case None
  then have "\<forall>b'. (a, b') \<notin> set ps" by (force simp: map_of_eq_None_iff)
  then show ?thesis
    using None assms by (simp add: consistent_append1 check_binding_def first_bindings_def)
next
  case (Some c)
  have "(a, c) \<in> set ps" using Some by (rule map_of_SomeD)
  then have "(\<forall>b'. (a, b') \<in> set ps \<longrightarrow> \<not> differ b b') \<longleftrightarrow> \<not> differ b c"
    using assms unfolding consistent_def differ_def by metis
  then show ?thesis
    using Some assms by (simp add: consistent_append1 check_binding_def first_bindings_def two_text_def)
qed

lemma consistent_prefix: "consistent (ps @ qs) \<Longrightarrow> consistent ps"
  unfolding consistent_def by (metis UnI1 set_append)

lemma count_line_entry:
  assumes "entry_fits (f, k, v)"
  shows "count_line (config_entry (f, k, v)) (m, n) =
    Inr (fst (check_binding ''two value:'' m k v) @ fst (check_binding ''two key:'' n v k),
         snd (check_binding ''two value:'' m k v), snd (check_binding ''two key:'' n v k))"
proof -
  have 1: "takeWhile (\<lambda>d. d \<noteq> CHR '':'') (f @ CHR '':'' # r) = f" for r
    using assms by (simp add: entry_fits_def takeWhile_tail takeWhile_eq_all_conv) blast
  have 2: "takeWhile (\<lambda>d. d \<noteq> CHR ''='') (k @ CHR ''='' # r) = k" for r
    using assms by (simp add: entry_fits_def takeWhile_tail takeWhile_eq_all_conv) blast
  have 3: "takeWhile (\<lambda>d. d \<noteq> newline) (v @ [newline]) = v"
    using assms by (simp add: entry_fits_def takeWhile_tail takeWhile_eq_all_conv) blast
  show ?thesis
    by (simp add: count_line_def config_entry_def strstr_char 1 2 3 endl_def Let_def split: prod.splits)
qed


definition swapped :: "('a \<times> 'b) list \<Rightarrow> ('b \<times> 'a) list" where
  "swapped = map (\<lambda>(a, b). (b, a))"

lemma count_loop_entries:
  "list_all entry_fits es \<Longrightarrow> length es \<le> n \<Longrightarrow>
   \<exists>out. count_loop n (concat (map config_entry es)) (first_bindings ps, first_bindings (swapped ps)) = Inr out
     \<and> (consistent ps \<and> consistent (swapped ps) \<longrightarrow>
        (out = [] \<longleftrightarrow> consistent (ps @ map snd es) \<and> consistent (swapped (ps @ map snd es))))"
proof (induction es arbitrary: n ps)
  case Nil
  then show ?case by (cases n) simp_all
next
  case (Cons e es)
  obtain f k v where e: "e = (f, k, v)" by (cases e)
  obtain m where n: "n = Suc m" "length es \<le> m" using Cons.prems(2) by (cases n) auto
  have fit: "entry_fits (f, k, v)" using Cons.prems(1) e by simp
  let ?l = "f @ '':'' @ k @ ''='' @ v"
  let ?c1 = "check_binding ''two value:'' (first_bindings ps) k v"
  let ?c2 = "check_binding ''two key:'' (first_bindings (swapped ps)) v k"
  have ce: "config_entry e = ?l @ [newline]" by (simp add: e config_entry_def endl_def)
  have g: "fgets 254 (config_entry e @ concat (map config_entry es)) = (config_entry e, concat (map config_entry es))"
    using fit fgets_line [of ?l 254 "concat (map config_entry es)"]
    by (auto simp: ce entry_fits_def)
  have w: "takeWhile (\<lambda>c. c \<noteq> NUL) (config_entry e) = config_entry e"
    using fit unfolding takeWhile_eq_all_conv by (auto simp: ce entry_fits_def)
  have ne: "config_entry e \<noteq> []" by (simp add: ce)
  have cl: "count_line (config_entry e) (first_bindings ps, first_bindings (swapped ps)) =
      Inr (fst ?c1 @ fst ?c2, first_bindings (ps @ [(k, v)]), first_bindings (swapped (ps @ [(k, v)])))"
    using count_line_entry [OF fit] by (simp add: e first_bindings_snoc swapped_def)
  have step: "count_loop n (concat (map config_entry (e # es))) (first_bindings ps, first_bindings (swapped ps)) =
      bindE (count_loop m (concat (map config_entry es)) (first_bindings (ps @ [(k, v)]), first_bindings (swapped (ps @ [(k, v)]))))
        (\<lambda>out'. Inr ((fst ?c1 @ fst ?c2) @ out'))"
    by (simp add: n(1) g w ne cl)
  obtain out where out: "count_loop m (concat (map config_entry es)) (first_bindings (ps @ [(k, v)]), first_bindings (swapped (ps @ [(k, v)]))) = Inr out"
    "consistent (ps @ [(k, v)]) \<and> consistent (swapped (ps @ [(k, v)])) \<longrightarrow>
        (out = [] \<longleftrightarrow> consistent ((ps @ [(k, v)]) @ map snd es) \<and> consistent (swapped ((ps @ [(k, v)]) @ map snd es)))"
    using Cons.IH [OF _ n(2), of "ps @ [(k, v)]"] Cons.prems(1) by auto
  have sw: "swapped (ps @ [(k, v)]) = swapped ps @ [(v, k)]" by (simp add: swapped_def)
  have pre: "consistent (swapped (ps @ map snd (e # es))) \<Longrightarrow> consistent (swapped (ps @ [(k, v)]))"
    by (rule consistent_prefix [of _ "swapped (map snd es)"]) (simp add: swapped_def e)
  have "((fst ?c1 @ fst ?c2) @ out = [] \<longleftrightarrow> consistent (ps @ map snd (e # es)) \<and> consistent (swapped (ps @ map snd (e # es))))"
    if c: "consistent ps" "consistent (swapped ps)"
  proof -
    have c1: "fst ?c1 = [] \<longleftrightarrow> consistent (ps @ [(k, v)])" using consistent_snoc [OF c(1)] by blast
    have c2: "fst ?c2 = [] \<longleftrightarrow> consistent (swapped (ps @ [(k, v)]))"
      unfolding sw using consistent_snoc [OF c(2)] by blast
    show ?thesis
      using out(2) c1 c2 pre consistent_prefix [of "ps @ [(k, v)]" "map snd es"] by (auto simp: e)
  qed
  then show ?case using step out(1) by auto
qed

text \<open>
  C37: The check for a one-to-one table. On a file of well-formed lines (shorter than the buffer) the
  program prints nothing exactly when no name occurs with two values, and no value with
  two names, that differ in their first six characters.
\<close>

theorem count_silent_iff_one_to_one:
  assumes "list_all entry_fits es"
  shows "\<exists>out. count_main (Some (concat (map config_entry es))) = Inr out \<and>
    (out = [] \<longleftrightarrow> consistent (map snd es) \<and> consistent (swapped (map snd es)))"
proof -
  have "length es \<le> length (concat (map config_entry es))"
    by (induction es) (auto simp: config_entry_def endl_def split: prod.splits)
  then show ?thesis
    using count_loop_entries [OF assms, of _ "[]"]
    by (simp add: count_main_def first_bindings_def swapped_def consistent_def)
qed

text \<open>A last line without a newline makes the program throw an exception nobody catches.\<close>

lemma count_unterminated:
  "CHR '':'' \<notin> set f \<Longrightarrow> CHR ''='' \<notin> set k \<Longrightarrow> newline \<notin> set v \<Longrightarrow>
   count_line (f @ '':'' @ k @ ''='' @ v) m = Inl Uncaught"
  by (cases m) (auto simp: count_line_def strstr_char takeWhile_append Let_def)

definition demo_entries :: "(string \<times> string \<times> string) list" where
  "demo_entries = [(''a.conf'', ''mem1.id'', ''0x033''), (''b.conf'', ''mem1.id'', ''0x034'')]"

lemma count_silent_iff_one_to_one_witness:
  "\<exists>out. count_main (Some (concat (map config_entry demo_entries))) = Inr out \<and>
    (out = [] \<longleftrightarrow> consistent (map snd demo_entries) \<and> consistent (swapped (map snd demo_entries)))"
  by (rule count_silent_iff_one_to_one) code_simp

end
