(* ===== verification/MyString.thy ===== *)
theory MyString
  imports CString
begin

text \<open>
  The string class of \<^verbatim>\<open>src/wzq_study/mystring.{h,cpp}\<close>: an object owns a character array on the
  heap. The heap maps the addresses of the arrays that are allocated to their contents; new
  memory holds any character \<open>g\<close>. \<open>new\<close> does not fail. What the functions print is kept.
\<close>

section \<open>The heap\<close>

record str_heap =
  arrays :: "nat \<Rightarrow> char list option"
  next_free :: nat
  printed :: string

definition new_array :: "char \<Rightarrow> nat \<Rightarrow> str_heap \<Rightarrow> nat \<times> str_heap" where
  "new_array g n h = (next_free h,
     h\<lparr>arrays := (arrays h)(next_free h \<mapsto> replicate n g), next_free := next_free h + 1\<rparr>)"

definition get_array :: "str_heap \<Rightarrow> nat \<Rightarrow> char list res" where
  "get_array h p = (case arrays h p of None \<Rightarrow> Inl Dangling | Some b \<Rightarrow> Inr b)"

definition delete_array :: "nat \<Rightarrow> str_heap \<Rightarrow> str_heap res" where
  "delete_array p h = (case arrays h p of None \<Rightarrow> Inl Dangling
     | Some _ \<Rightarrow> Inr (h\<lparr>arrays := (arrays h)(p := None)\<rparr>))"

definition print_line :: "string \<Rightarrow> str_heap \<Rightarrow> str_heap" where
  "print_line s h = h\<lparr>printed := printed h @ s @ endl\<rparr>"

section \<open>The class\<close>

text \<open>What three of the functions share: a new array with a copy of a string of \<open>iLen\<close> characters.\<close>

definition clone :: "char \<Rightarrow> string \<Rightarrow> str_heap \<Rightarrow> (nat \<times> str_heap) res" where
  "clone g s h =
     (let iLen = length s; (p, h1) = new_array g (iLen + 1) h in
      bindE (get_array h1 p) (\<lambda>b. bindE (strncpy b s iLen) (\<lambda>b1. bindE (wr b1 iLen NUL) (\<lambda>b2.
        Inr (p, h1\<lparr>arrays := (arrays h1)(p \<mapsto> b2)\<rparr>)))))"

definition mystring_new :: "char \<Rightarrow> string option \<Rightarrow> str_heap \<Rightarrow> (nat \<times> str_heap) res" where
  "mystring_new g str h =
     (let h0 = print_line ''mystring'' h in
      case str of
        None \<Rightarrow> (let (p, h1) = new_array g 1 h0 in
          bindE (get_array h1 p) (\<lambda>b. bindE (wr b 0 NUL) (\<lambda>b1.
            Inr (p, h1\<lparr>arrays := (arrays h1)(p \<mapsto> b1)\<rparr>))))
      | Some s \<Rightarrow> clone g s h0)"

definition mystring_copy :: "char \<Rightarrow> nat \<Rightarrow> str_heap \<Rightarrow> (nat \<times> str_heap) res" where
  "mystring_copy g src h =
     (let h0 = print_line ''mystring copy'' h in
      bindE (get_array h0 src) (\<lambda>b. bindE (c_string b) (\<lambda>s. clone g s h0)))"

text \<open>The assignment: \<open>this_src\<close> says that both sides are the same object.\<close>

definition mystring_assign :: "char \<Rightarrow> bool \<Rightarrow> nat \<Rightarrow> nat \<Rightarrow> str_heap \<Rightarrow> (nat \<times> str_heap) res" where
  "mystring_assign g this_src m_data src h =
     (let h0 = print_line ''mystring operator'' h in
      if this_src then Inr (m_data, h0)
      else bindE (delete_array m_data h0) (\<lambda>h1.
           bindE (get_array h1 src) (\<lambda>b. bindE (c_string b) (\<lambda>s. clone g s h1))))"

definition mystring_delete :: "nat \<Rightarrow> str_heap \<Rightarrow> str_heap res" where
  "mystring_delete m_data h = delete_array m_data h"

definition mystring_output :: "nat \<Rightarrow> str_heap \<Rightarrow> str_heap res" where
  "mystring_output m_data h =
     bindE (get_array h m_data) (\<lambda>b. bindE (c_string b) (\<lambda>s. Inr (print_line s h)))"

section \<open>Programs\<close>

text \<open>
  A program that uses the class is a sequence of operations on named objects; a name that is not
  an object, or that is one already when it is constructed, is no program.
\<close>

datatype str_op = New nat "string option" | Copy nat nat | Assign nat nat | Output nat | Delete nat

type_synonym objects = "nat \<Rightarrow> nat option"

definition object :: "objects \<Rightarrow> nat \<Rightarrow> nat res" where
  "object v x = (case v x of None \<Rightarrow> Inl Uninitialised | Some p \<Rightarrow> Inr p)"

fun run_op :: "char \<Rightarrow> str_op \<Rightarrow> objects \<times> str_heap \<Rightarrow> (objects \<times> str_heap) res" where
  "run_op g (New x s) (v, h) = bindE (mystring_new g s h) (\<lambda>(p, h'). Inr (v(x \<mapsto> p), h'))"
| "run_op g (Copy x y) (v, h) =
     bindE (object v y) (\<lambda>q. bindE (mystring_copy g q h) (\<lambda>(p, h'). Inr (v(x \<mapsto> p), h')))"
| "run_op g (Assign x y) (v, h) =
     bindE (object v x) (\<lambda>p. bindE (object v y) (\<lambda>q.
     bindE (mystring_assign g (x = y) p q h) (\<lambda>(p', h'). Inr (v(x \<mapsto> p'), h'))))"
| "run_op g (Output x) (v, h) =
     bindE (object v x) (\<lambda>p. bindE (mystring_output p h) (\<lambda>h'. Inr (v, h')))"
| "run_op g (Delete x) (v, h) =
     bindE (object v x) (\<lambda>p. bindE (mystring_delete p h) (\<lambda>h'. Inr (v(x := None), h')))"

fun run_ops :: "char \<Rightarrow> str_op list \<Rightarrow> objects \<times> str_heap \<Rightarrow> (objects \<times> str_heap) res" where
  "run_ops g [] s = Inr s"
| "run_ops g (c # cs) s = bindE (run_op g c s) (run_ops g cs)"

definition empty_heap :: str_heap where
  "empty_heap = \<lparr>arrays = Map.empty, next_free = 0, printed = []\<rparr>"

text \<open>\<open>test_mystring\<close>, with the destructors at its end.\<close>

definition test_ops :: "str_op list" where
  "test_ops = [New 1 None, Output 1, New 2 (Some ''I am in SH!''), Output 2, Copy 3 2, Output 3,
     Copy 4 2, Output 4, Assign 1 2, Output 1, Delete 4, Delete 3, Delete 2, Delete 1]"

definition test_mystring :: "char \<Rightarrow> string res" where
  "test_mystring g = bindE (run_ops g test_ops (Map.empty, empty_heap)) (\<lambda>(v, h). Inr (printed h))"

section \<open>Objects are values\<close>

text \<open>The abstract objects are strings; \<open>None\<close> in the result is a sequence that is no program.\<close>

fun value_op :: "str_op \<Rightarrow> (nat \<Rightarrow> string option) \<Rightarrow> (nat \<Rightarrow> string option) option" where
  "value_op (New x s) a = (if a x = None \<and> (\<forall>t. s = Some t \<longrightarrow> NUL \<notin> set t)
     then Some (a(x \<mapsto> (case s of None \<Rightarrow> [] | Some t \<Rightarrow> t))) else None)"
| "value_op (Copy x y) a = (if a x = None \<and> a y \<noteq> None then Some (a(x := a y)) else None)"
| "value_op (Assign x y) a = (if a x \<noteq> None \<and> a y \<noteq> None then Some (a(x := a y)) else None)"
| "value_op (Output x) a = (if a x \<noteq> None then Some a else None)"
| "value_op (Delete x) a = (if a x \<noteq> None then Some (a(x := None)) else None)"

fun value_ops :: "str_op list \<Rightarrow> (nat \<Rightarrow> string option) \<Rightarrow> (nat \<Rightarrow> string option) option" where
  "value_ops [] a = Some a"
| "value_ops (c # cs) a = Option.bind (value_op c a) (value_ops cs)"

text \<open>
  Every object has an array of its own with its string, and there are no other arrays.
\<close>

definition represents :: "objects \<Rightarrow> str_heap \<Rightarrow> (nat \<Rightarrow> string option) \<Rightarrow> bool" where
  "represents v h a \<longleftrightarrow>
     (\<forall>x y p. v x = Some p \<longrightarrow> v y = Some p \<longrightarrow> x = y)
     \<and> (\<forall>p b. arrays h p = Some b \<longrightarrow> p < next_free h \<and> (\<exists>x. v x = Some p))
     \<and> (\<forall>x p. v x = Some p \<longrightarrow> (\<exists>s. a x = Some s \<and> NUL \<notin> set s \<and> arrays h p = Some (s @ [NUL])))
     \<and> (\<forall>x. v x = None \<longrightarrow> a x = None)"

lemma representsD:
  assumes "represents v h a"
  shows "v x = Some p \<Longrightarrow> v y = Some p \<Longrightarrow> x = y"
    "arrays h p = Some b \<Longrightarrow> p < next_free h" "arrays h p = Some b \<Longrightarrow> \<exists>x. v x = Some p"
    "v x = Some p \<Longrightarrow> \<exists>s. a x = Some s \<and> NUL \<notin> set s \<and> arrays h p = Some (s @ [NUL])"
    "v x = None \<Longrightarrow> a x = None"
  using assms unfolding represents_def by blast+

lemma clone_ok:
  "clone g s h = Inr (next_free h, h\<lparr>arrays := (arrays h)(next_free h \<mapsto> s @ [NUL]), next_free := next_free h + 1\<rparr>)"
proof -
  have "strncpy (replicate (length s + 1) g) s (length s) = Inr (s @ [g])"
    by (simp add: strncpy_def replicate_append_same [symmetric] del: replicate_append_same)
  then show ?thesis
    by (simp add: clone_def new_array_def get_array_def wr_def list_update_append)
qed

lemma mystring_new_ok:
  "mystring_new g str h = Inr (next_free h, h\<lparr>arrays := (arrays h)(next_free h \<mapsto>
     (case str of None \<Rightarrow> [] | Some s \<Rightarrow> s) @ [NUL]), next_free := next_free h + 1,
     printed := printed h @ ''mystring'' @ endl\<rparr>)"
  by (cases str) (simp_all add: mystring_new_def clone_ok print_line_def new_array_def get_array_def wr_def)


lemma represents_new:
  assumes r: "represents v h a" "v x = None" "NUL \<notin> set s"
    and h': "arrays h' = (arrays h)(next_free h \<mapsto> s @ [NUL])" "next_free h' = next_free h + 1"
  shows "represents (v(x \<mapsto> next_free h)) h' (a(x \<mapsto> s))"
proof -
  have n: "v y \<noteq> Some (next_free h)" for y
    using representsD(2,4) [OF r(1)] by (metis less_irrefl)
  show ?thesis unfolding represents_def h'
  proof (intro conjI allI impI)
    fix y z p assume "(v(x \<mapsto> next_free h)) y = Some p" "(v(x \<mapsto> next_free h)) z = Some p"
    then show "y = z" using representsD(1) [OF r(1), of y p z] n by (auto split: if_splits)
  next
    fix p b assume "((arrays h)(next_free h \<mapsto> s @ [NUL])) p = Some b"
    then consider "p = next_free h" | y where "p < next_free h" "v y = Some p" "y \<noteq> x"
      using representsD(2,3) [OF r(1), of p b] r(2) by (fastforce split: if_splits)
    then show "p < next_free h + 1" "\<exists>y. (v(x \<mapsto> next_free h)) y = Some p"
      by (cases; force)+
  next
    fix y p assume "(v(x \<mapsto> next_free h)) y = Some p"
    then show "\<exists>t. (a(x \<mapsto> s)) y = Some t \<and> NUL \<notin> set t \<and> ((arrays h)(next_free h \<mapsto> s @ [NUL])) p = Some (t @ [NUL])"
      using representsD(4) [OF r(1), of y p] r(3) n by (auto split: if_splits)
  next
    fix y assume "(v(x \<mapsto> next_free h)) y = None"
    then show "(a(x \<mapsto> s)) y = None" using representsD(5) [OF r(1)] by (auto split: if_splits)
  qed
qed

lemma represents_delete:
  assumes r: "represents v h a" "v x = Some p"
    and h': "arrays h' = (arrays h)(p := None)" "next_free h' = next_free h"
  shows "represents (v(x := None)) h' (a(x := None))"
proof -
  have inj: "v y = Some p \<Longrightarrow> y = x" for y
    using representsD(1) [OF r(1)] r(2) by blast
  show ?thesis unfolding represents_def h'
  proof (intro conjI allI impI)
    fix y z q assume "(v(x := None)) y = Some q" "(v(x := None)) z = Some q"
    then show "y = z" using representsD(1) [OF r(1), of y q z] by (auto split: if_splits)
  next
    fix q b assume "((arrays h)(p := None)) q = Some b"
    then obtain y where "q < next_free h" "v y = Some q" "y \<noteq> x"
      using representsD(2,3) [OF r(1), of q b] r(2) by (fastforce split: if_splits)
    then show "q < next_free h" "\<exists>y. (v(x := None)) y = Some q" by (force intro: exI [of _ y])+
  next
    fix y q assume "(v(x := None)) y = Some q"
    then show "\<exists>t. (a(x := None)) y = Some t \<and> NUL \<notin> set t \<and> ((arrays h)(p := None)) q = Some (t @ [NUL])"
      using representsD(4) [OF r(1), of y q] inj [of y] by (auto split: if_splits)
  next
    fix y assume "(v(x := None)) y = None"
    then show "(a(x := None)) y = None" using representsD(5) [OF r(1)] by (auto split: if_splits)
  qed
qed

lemma represents_print: "represents v (print_line s h) a = represents v h a"
  by (simp add: represents_def print_line_def)

lemma represents_object:
  assumes "represents v h a" "a x = Some s"
  obtains p where "v x = Some p" "arrays h p = Some (s @ [NUL])" "c_string (s @ [NUL]) = Inr s"
proof -
  obtain p where p: "v x = Some p" "arrays h p = Some (s @ [NUL])" "NUL \<notin> set s"
    using representsD(4,5) [OF assms(1), of x] assms(2) by (cases "v x") auto
  then have "c_string (s @ [NUL]) = Inr s"
    by (auto simp: c_string_def takeWhile_tail takeWhile_eq_all_conv)
  then show ?thesis using that p by blast
qed

lemma represents_no_nul: "represents v h a \<Longrightarrow> a x = Some s \<Longrightarrow> NUL \<notin> set s"
  using representsD(4,5) [of v h a x] by (cases "v x") auto

lemma represents_no_object: "represents v h a \<Longrightarrow> a x = None \<Longrightarrow> v x = None"
  using representsD(4) [of v h a x] by (cases "v x") auto

lemma run_op_ok:
  assumes "represents v h a" "value_op c a = Some a'"
  shows "\<exists>v' h'. run_op g c (v, h) = Inr (v', h') \<and> represents v' h' a'"
proof (cases c)
  case (New x s)
  then have x: "a x = None" "\<forall>t. s = Some t \<longrightarrow> NUL \<notin> set t" "a' = a(x \<mapsto> (case s of None \<Rightarrow> [] | Some t \<Rightarrow> t))"
    using assms(2) by (auto split: if_splits)
  then show ?thesis
    using represents_new [OF assms(1) represents_no_object [OF assms(1) x(1)], of "case s of None \<Rightarrow> [] | Some t \<Rightarrow> t"]
    by (auto simp: New mystring_new_ok split: option.splits)
next
  case (Copy x y)
  then obtain s where s: "a x = None" "a y = Some s" "a' = a(x \<mapsto> s)"
    using assms(2) by (auto split: if_splits)
  obtain p where p: "v y = Some p" "arrays h p = Some (s @ [NUL])" "c_string (s @ [NUL]) = Inr s"
    by (rule represents_object [OF assms(1) s(2)])
  have "NUL \<notin> set s" by (rule represents_no_nul [OF assms(1) s(2)])
  then show ?thesis
    using represents_new [OF assms(1) represents_no_object [OF assms(1) s(1)], of s] p s(3)
    by (auto simp: Copy object_def mystring_copy_def print_line_def get_array_def clone_ok)
next
  case (Assign x y)
  then obtain s t where s: "a x = Some t" "a y = Some s" "a' = a(x \<mapsto> s)"
    using assms(2) by (auto split: if_splits)
  obtain p where p: "v y = Some p" "arrays h p = Some (s @ [NUL])" "c_string (s @ [NUL]) = Inr s"
    by (rule represents_object [OF assms(1) s(2)])
  obtain q where q: "v x = Some q" "arrays h q = Some (t @ [NUL])"
    by (rule represents_object [OF assms(1) s(1)])
  have ns: "NUL \<notin> set s" by (rule represents_no_nul [OF assms(1) s(2)])
  show ?thesis
  proof (cases "x = y")
    case True
    then have "a' = a" "v(x \<mapsto> q) = v" using s q by (auto simp: fun_eq_iff)
    then show ?thesis
      using True assms(1) q by (auto simp: Assign object_def mystring_assign_def represents_print)
  next
    case False
    have pq: "p \<noteq> q"
      using False p(1) q(1) representsD(1) [OF assms(1)] by blast
    define h1 where "h1 = (print_line ''mystring operator'' h)\<lparr>arrays := (arrays h)(q := None)\<rparr>"
    have r1: "represents (v(x := None)) h1 (a(x := None))"
      by (rule represents_delete [OF assms(1) q(1)]) (simp_all add: h1_def print_line_def)
    let ?h2 = "h1\<lparr>arrays := (arrays h1)(next_free h1 \<mapsto> s @ [NUL]), next_free := next_free h1 + 1\<rparr>"
    have "represents ((v(x := None))(x \<mapsto> next_free h1)) ?h2 ((a(x := None))(x \<mapsto> s))"
      by (rule represents_new [OF r1 _ ns]) simp_all
    moreover have "run_op g (Assign x y) (v, h) = Inr (v(x \<mapsto> next_free h1), ?h2)"
      using False p q pq
      by (simp add: object_def mystring_assign_def delete_array_def print_line_def get_array_def clone_ok h1_def)
    ultimately show ?thesis using s(3) Assign by auto
  qed
next
  case (Output x)
  then obtain s where s: "a x = Some s" "a' = a" using assms(2) by (auto split: if_splits)
  obtain p where "v x = Some p" "arrays h p = Some (s @ [NUL])" "c_string (s @ [NUL]) = Inr s"
    by (rule represents_object [OF assms(1) s(1)])
  then show ?thesis
    using assms(1) s(2) by (auto simp: Output object_def mystring_output_def get_array_def represents_print)
next
  case (Delete x)
  then obtain s where s: "a x = Some s" "a' = a(x := None)" using assms(2) by (auto split: if_splits)
  obtain p where p: "v x = Some p" "arrays h p = Some (s @ [NUL])"
    by (rule represents_object [OF assms(1) s(1)])
  then show ?thesis
    using represents_delete [OF assms(1) p(1)] s(2)
    by (auto simp: Delete object_def mystring_delete_def delete_array_def)
qed

lemma run_ops_ok:
  "represents v h a \<Longrightarrow> value_ops cs a = Some a' \<Longrightarrow>
   \<exists>v' h'. run_ops g cs (v, h) = Inr (v', h') \<and> represents v' h' a'"
proof (induction cs arbitrary: v h a)
  case (Cons c cs)
  obtain a1 where a1: "value_op c a = Some a1" "value_ops cs a1 = Some a'"
    using Cons.prems(2) by (auto simp: bind_eq_Some_conv)
  obtain v1 h1 where "run_op g c (v, h) = Inr (v1, h1)" "represents v1 h1 a1"
    using run_op_ok [OF Cons.prems(1) a1(1)] by blast
  then show ?case using Cons.IH [OF _ a1(2)] by simp
qed simp

text \<open>
  C11: Strings are values. Every sequence of constructions, copies, assignments (also of an
  object to itself), outputs and destructions that a program can contain is defined: no array is
  used after it was freed or freed twice. In the end the objects have the strings that the same
  sequence gives on plain values, each in an array of its own, and no other array is left: when
  all objects are destroyed, nothing has leaked.
\<close>

theorem mystring_objects_are_values:
  assumes "value_ops cs Map.empty = Some a"
  shows "\<exists>v h. run_ops g cs (Map.empty, empty_heap) = Inr (v, h) \<and> dom v = dom a \<and> inj_on v (dom v)
    \<and> ran v = dom (arrays h) \<and> (\<forall>x\<in>dom a. arrays h (the (v x)) = Some (the (a x) @ [NUL]))"
proof -
  have "represents Map.empty empty_heap Map.empty" by (simp add: represents_def empty_heap_def)
  from run_ops_ok [OF this assms] obtain v h
    where "run_ops g cs (Map.empty, empty_heap) = Inr (v, h)" "represents v h a" by blast
  note r = representsD [OF \<open>represents v h a\<close>]
  have "v x = None \<longleftrightarrow> a x = None" for x using r(4) [of x] r(5) [of x] by (cases "v x") auto
  then have "dom v = dom a" by (auto simp: dom_def)
  moreover have "inj_on v (dom v)" using r(1) by (auto simp: inj_on_def)
  moreover have "ran v = dom (arrays h)" using r(3,4) by (auto simp: ran_def dom_def) blast
  moreover have "arrays h (the (v x)) = Some (the (a x) @ [NUL])" if "x \<in> dom a" for x
    using that represents_object [OF \<open>represents v h a\<close>] by (metis domD option.sel)
  ultimately show ?thesis using \<open>run_ops g cs (Map.empty, empty_heap) = Inr (v, h)\<close> by blast
qed

text \<open>What the test program prints.\<close>

lemma test_mystring_prints:
  "test_mystring g = Inr (concat (map (\<lambda>l. l @ endl) [''mystring'', [], ''mystring'', ''I am in SH!'',
     ''mystring copy'', ''I am in SH!'', ''mystring copy'', ''I am in SH!'', ''mystring operator'', ''I am in SH!'']))"
  by (simp add: test_mystring_def test_ops_def empty_heap_def object_def mystring_new_ok mystring_copy_def
      mystring_assign_def mystring_output_def mystring_delete_def delete_array_def get_array_def print_line_def
      clone_ok c_string_def)

lemma mystring_objects_are_values_witness:
  "\<exists>v h. run_ops (CHR ''x'') [New 1 (Some ''ab''), Copy 2 1, New 3 None, Assign 1 3, Delete 3] (Map.empty, empty_heap) = Inr (v, h)
    \<and> dom v = {1, 2} \<and> inj_on v (dom v) \<and> ran v = dom (arrays h)
    \<and> arrays h (the (v 1)) = Some [NUL] \<and> arrays h (the (v 2)) = Some (''ab'' @ [NUL])"
proof -
  have "value_ops [New 1 (Some ''ab''), Copy 2 1, New 3 None, Assign 1 3, Delete 3] Map.empty
      = Some [1 \<mapsto> [], 2 \<mapsto> ''ab'']"
    by (auto simp: fun_eq_iff)
  from mystring_objects_are_values [OF this, of "CHR ''x''"] show ?thesis by auto
qed

end
