(* ===== verification/Sort.thy ===== *)
theory Sort
  imports Prelude
begin

text \<open>
  The sorting routines of \<^verbatim>\<open>src/wzq_study/sort.cpp\<close>. An \<open>int\<close> array is a list; the count
  \<open>cnt\<close> is never negative; every access is checked against the array's length. A function
  that prints returns its output together with the array. The outer loop of \<open>my_partition\<close>
  may run forever, so \<open>quick_sort\<close> returns an option whose \<open>None\<close> is not returning.
\<close>

section \<open>The program\<close>

function print_cells :: "int list \<Rightarrow> nat \<Rightarrow> nat \<Rightarrow> string res" where
  "print_cells arr i cnt =
     (if i < cnt
      then bindE (rd arr i) (\<lambda>x. bindE (print_cells arr (i + 1) cnt) (\<lambda>out.
             Inr (show_int x @ '','' @ out)))
      else Inr endl)"
  by pat_completeness auto
termination
  by (relation "measure (\<lambda>(arr, i, cnt). cnt - i)") auto

definition print_arr :: "int list \<Rightarrow> nat \<Rightarrow> string res" where
  "print_arr arr cnt = print_cells arr 0 cnt"

text \<open>\<open>bubble_sort\<close>: the inner loop and the outer loop.\<close>

function bubble_pass :: "int list \<Rightarrow> nat \<Rightarrow> nat \<Rightarrow> int list res" where
  "bubble_pass arr j bound =
     (if j < bound
      then bindE (rd arr j) (\<lambda>x. bindE (rd arr (j + 1)) (\<lambda>y.
             bubble_pass (if x > y then swap_at arr j (j + 1) else arr) (j + 1) bound))
      else Inr arr)"
  by pat_completeness auto
termination
  by (relation "measure (\<lambda>(arr, j, bound). bound - j)") auto

function bubble_loop :: "int list \<Rightarrow> nat \<Rightarrow> nat \<Rightarrow> int list res" where
  "bubble_loop arr i cnt =
     (if i < cnt
      then bindE (bubble_pass arr 0 (cnt - i - 1)) (\<lambda>a. bubble_loop a (i + 1) cnt)
      else Inr arr)"
  by pat_completeness auto
termination
  by (relation "measure (\<lambda>(arr, i, cnt). cnt - i)") auto

definition bubble_sort :: "int list \<Rightarrow> nat \<Rightarrow> (string \<times> int list) res" where
  "bubble_sort arr cnt =
     bindE (print_arr arr cnt) (\<lambda>o1.
     bindE (bubble_loop arr 0 cnt) (\<lambda>a.
     bindE (print_arr a cnt) (\<lambda>o2.
       Inr (''bubble_sort begin:'' @ o1 @ ''bubble_sort end:'' @ o2, a))))"

text \<open>\<open>selection_sort\<close>: the inner loop looks for the place of the least cell.\<close>

function least_index :: "int list \<Rightarrow> nat \<Rightarrow> nat \<Rightarrow> nat \<Rightarrow> nat res" where
  "least_index arr k j cnt =
     (if j < cnt
      then bindE (rd arr j) (\<lambda>x. bindE (rd arr k) (\<lambda>y.
             least_index arr (if x < y then j else k) (j + 1) cnt))
      else Inr k)"
  by pat_completeness auto
termination
  by (relation "measure (\<lambda>(arr, k, j, cnt). cnt - j)") auto

function selection_loop :: "int list \<Rightarrow> nat \<Rightarrow> nat \<Rightarrow> int list res" where
  "selection_loop arr i cnt =
     (if i < cnt
      then bindE (least_index arr i (i + 1) cnt) (\<lambda>k.
           bindE (if i \<noteq> k
                  then bindE (rd arr i) (\<lambda>temp. bindE (rd arr k) (\<lambda>x.
                       bindE (wr arr i x) (\<lambda>a. wr a k temp)))
                  else Inr arr) (\<lambda>a. selection_loop a (i + 1) cnt))
      else Inr arr)"
  by pat_completeness auto
termination
  by (relation "measure (\<lambda>(arr, i, cnt). cnt - i)") auto

definition selection_sort :: "int list \<Rightarrow> nat \<Rightarrow> (string \<times> int list) res" where
  "selection_sort arr cnt =
     bindE (print_arr arr cnt) (\<lambda>o1.
     bindE (selection_loop arr 0 cnt) (\<lambda>a.
     bindE (print_arr a cnt) (\<lambda>o2.
       Inr (''selection_sort begin:'' @ o1 @ ''selection_sort end:'' @ o2, a))))"

text \<open>
  \<open>my_partition\<close>: the two inner loops always end. The outer loop ends when \<open>low\<close> and
  \<open>high\<close> meet; nothing forces an iteration to move either of them. Neither index becomes
  negative in it: the array is read at \<open>low\<close> first, and \<open>high\<close> stays at or above \<open>low\<close>.
\<close>

function scan_high :: "int list \<Rightarrow> int \<Rightarrow> nat \<Rightarrow> nat \<Rightarrow> nat res" where
  "scan_high arr flag low high =
     (if low < high
      then bindE (rd arr high) (\<lambda>x.
             if flag < x then scan_high arr flag low (high - 1) else Inr high)
      else Inr high)"
  by pat_completeness auto
termination
  by (relation "measure (\<lambda>(arr, flag, low, high). high)") auto

function scan_low :: "int list \<Rightarrow> int \<Rightarrow> nat \<Rightarrow> nat \<Rightarrow> nat res" where
  "scan_low arr flag low high =
     (if low < high
      then bindE (rd arr low) (\<lambda>x.
             if flag > x then scan_low arr flag (low + 1) high else Inr low)
      else Inr low)"
  by pat_completeness auto
termination
  by (relation "measure (\<lambda>(arr, flag, low, high). high - low)") auto

definition partition_body ::
    "int list \<Rightarrow> int \<Rightarrow> nat \<Rightarrow> nat \<Rightarrow> (int list \<times> nat \<times> nat) res" where
  "partition_body arr flag low high =
     bindE (scan_high arr flag low high) (\<lambda>high'.
     bindE (rd arr high') (\<lambda>x.
     bindE (wr arr low x) (\<lambda>a1.
     bindE (scan_low a1 flag low high') (\<lambda>low'.
     bindE (rd a1 low') (\<lambda>y.
     bindE (wr a1 high' y) (\<lambda>a2.
       Inr (a2, low', high')))))))"

partial_function (option) partition_loop ::
    "int list \<Rightarrow> int \<Rightarrow> nat \<Rightarrow> nat \<Rightarrow> (int list \<times> nat) res option" where
  "partition_loop arr flag low high =
     (if low < high
      then (case partition_body arr flag low high of
              Inl e \<Rightarrow> Some (Inl e)
            | Inr (a, low', high') \<Rightarrow> partition_loop a flag low' high')
      else Some (Inr (arr, low)))"

definition my_partition :: "int list \<Rightarrow> int \<Rightarrow> int \<Rightarrow> (int list \<times> int) res option" where
  "my_partition arr low high =
     (case rdi arr low of
        Inl e \<Rightarrow> Some (Inl e)
      | Inr flag \<Rightarrow>
          map_option (\<lambda>r. bindE r (\<lambda>(a, l). bindE (wr a l flag) (\<lambda>a'. Inr (a', int l))))
            (partition_loop arr flag (nat low) (nat high)))"

partial_function (option) my_quick_sort ::
    "int list \<Rightarrow> int \<Rightarrow> int \<Rightarrow> int list res option" where
  "my_quick_sort arr low high =
     (if low < high
      then Option.bind (my_partition arr low high) (\<lambda>r.
        case r of
          Inl e \<Rightarrow> Some (Inl e)
        | Inr (a1, locate) \<Rightarrow>
            Option.bind (my_quick_sort a1 low (locate - 1)) (\<lambda>r1.
              case r1 of
                Inl e \<Rightarrow> Some (Inl e)
              | Inr a2 \<Rightarrow> my_quick_sort a2 (locate + 1) high))
      else Some (Inr arr))"

definition quick_sort :: "int list \<Rightarrow> nat \<Rightarrow> (string \<times> int list) res option" where
  "quick_sort arr cnt =
     (case print_arr arr cnt of
        Inl e \<Rightarrow> Some (Inl e)
      | Inr o1 \<Rightarrow>
          map_option (\<lambda>r. bindE r (\<lambda>a. bindE (print_arr a cnt) (\<lambda>o2.
              Inr (''quick_sort begin:'' @ o1 @ ''quick_sort end:'' @ o2, a))))
            (my_quick_sort arr 0 (int cnt - 1)))"

definition test_sort :: "string res option" where
  "test_sort =
     (let arr = [4, 2, 5, 8, 7, 3, 1, 6, 9, 0] in
      case bindE (bubble_sort arr 10) (\<lambda>(o1, _).
           bindE (selection_sort arr 10) (\<lambda>(o2, _). Inr (o1 @ o2))) of
        Inl e \<Rightarrow> Some (Inl e)
      | Inr o12 \<Rightarrow>
          map_option (\<lambda>r. bindE r (\<lambda>(o3, _). Inr (o12 @ o3))) (quick_sort arr 10))"

declare print_cells.simps [simp del] bubble_pass.simps [simp del] bubble_loop.simps [simp del]
  least_index.simps [simp del] selection_loop.simps [simp del] scan_high.simps [simp del]
  scan_low.simps [simp del]


section \<open>Printing\<close>

definition comma_list :: "int list \<Rightarrow> string" where
  "comma_list xs = concat (map (\<lambda>x. show_int x @ '','') xs) @ endl"

lemma print_cells_ok:
  "cnt \<le> length arr \<Longrightarrow> i \<le> cnt \<Longrightarrow>
   print_cells arr i cnt = Inr (comma_list (drop i (take cnt arr)))"
proof (induction arr i cnt rule: print_cells.induct)
  case (1 arr i cnt)
  then show ?case
    by (cases "i = cnt")
      (simp_all add: print_cells.simps [of arr] comma_list_def
        Cons_nth_drop_Suc [of i "take cnt arr", symmetric])
qed

lemma print_arr_ok [simp]:
  "cnt \<le> length arr \<Longrightarrow> print_arr arr cnt = Inr (comma_list (take cnt arr))"
  by (simp add: print_arr_def print_cells_ok)

lemma sort_min_front:
  assumes "mset (m # ys) = mset xs" "\<forall>y \<in> set ys. m \<le> y"
  shows "sort xs = m # sort (ys :: int list)"
  by (rule properties_for_sort) (use assms in simp_all)

lemma sort_max_back:
  assumes "mset (zs @ [m]) = mset xs" "\<forall>z \<in> set zs. z \<le> m"
  shows "sort xs = sort (zs :: int list) @ [m]"
  by (rule properties_for_sort) (use assms in \<open>simp_all add: sorted_append\<close>)

lemma sort_pivot:
  assumes "mset (ls @ p # rs) = mset xs" "\<forall>x \<in> set ls. x < p" "\<forall>x \<in> set rs. p < x"
  shows "sort xs = sort ls @ p # sort (rs :: int list)"
proof (rule properties_for_sort)
  have "x \<le> p" "p \<le> y" "x \<le> y" if "x \<in> set ls" "y \<in> set rs" for x y
    using assms(2,3) that by (auto intro: less_imp_le less_trans)
  then show "sorted (sort ls @ p # sort rs)"
    using assms(2,3) by (auto simp: sorted_append less_imp_le)
qed (use assms in simp)


section \<open>Bubble sort\<close>

text \<open>What one pass does to the cells it runs over.\<close>

fun bubble :: "int \<Rightarrow> int list \<Rightarrow> int list" where
  "bubble x [] = [x]"
| "bubble x (y # ys) = (if x > y then y # bubble x ys else x # bubble y ys)"

lemma length_bubble [simp]: "length (bubble x ys) = Suc (length ys)"
  by (induction x ys rule: bubble.induct) simp_all

lemma bubble_ok: "\<exists>zs m. bubble x ys = zs @ [m] \<and> mset (zs @ [m]) = mset (x # ys) \<and> (\<forall>z \<in> set zs. z \<le> m)"
proof (induction x ys rule: bubble.induct)
  case (2 x y ys)
  show ?case
  proof (cases "x > y")
    case True
    then obtain zs m where "bubble x ys = zs @ [m]" "mset (zs @ [m]) = mset (x # ys)"
      "\<forall>z \<in> set zs. z \<le> m" using 2 by blast
    moreover from this have "x \<in> set (zs @ [m])" by (metis list.set_intros(1) set_mset_mset)
    ultimately show ?thesis using True by (intro exI [of _ "y # zs"]) auto
  next
    case False
    then obtain zs m where "bubble y ys = zs @ [m]" "mset (zs @ [m]) = mset (y # ys)"
      "\<forall>z \<in> set zs. z \<le> m" using 2 by blast
    moreover from this have "y \<in> set (zs @ [m])" by (metis list.set_intros(1) set_mset_mset)
    ultimately show ?thesis using False by (intro exI [of _ "x # zs"]) auto
  qed
qed simp

lemma bubble_pass_ok:
  "bubble_pass (pre @ x # ys @ post) (length pre) (length pre + length ys) =
   Inr (pre @ bubble x ys @ post)"
proof (induction ys arbitrary: pre x)
  case Nil
  then show ?case by (simp add: bubble_pass.simps)
next
  case (Cons y ys)
  have "swap_at (pre @ x # y # ys @ post) (length pre) (Suc (length pre)) = pre @ y # x # ys @ post"
    by (simp add: swap_at_def nth_append list_update_append)
  moreover note Cons [of "pre @ [y]" x] Cons [of "pre @ [x]" y]
  ultimately show ?case
    by (subst bubble_pass.simps) (simp add: nth_append)
qed

lemma bubble_loop_ok:
  "i + length xs = cnt \<Longrightarrow> bubble_loop (xs @ post) i cnt = Inr (sort xs @ post)"
proof (induction "length xs" arbitrary: xs post i)
  case 0
  then show ?case by (simp add: bubble_loop.simps)
next
  case (Suc n)
  then obtain x ys where xs: "xs = x # ys" by (cases xs) auto
  obtain zs m where b: "bubble x ys = zs @ [m]" "mset (zs @ [m]) = mset (x # ys)"
    "\<forall>z \<in> set zs. z \<le> m" using bubble_ok by blast
  have "length (zs @ [m]) = Suc (length ys)" by (metis b(1) length_bubble)
  then have n: "n = length zs" "length zs = length ys" using Suc.hyps(2) xs by auto
  have "cnt - i - 1 = length ys" "i < cnt" using Suc.prems xs by auto
  then have "bubble_loop (xs @ post) i cnt = bubble_loop (zs @ m # post) (i + 1) cnt"
    using bubble_pass_ok [of "[]" x ys post]
    by (subst bubble_loop.simps) (simp add: xs b)
  also have "\<dots> = Inr (sort zs @ m # post)"
    using Suc.hyps(1) [OF n(1), of "i + 1" "m # post"] Suc.prems xs n by simp
  finally show ?case using sort_max_back [OF b(2,3)] xs by simp
qed


section \<open>Selection sort\<close>

lemma least_index_ok:
  "k < j \<Longrightarrow> j \<le> cnt \<Longrightarrow> cnt \<le> length arr \<Longrightarrow> i \<le> k \<Longrightarrow>
   \<forall>p. i \<le> p \<and> p < j \<longrightarrow> arr ! k \<le> arr ! p \<Longrightarrow>
   \<exists>k'. least_index arr k j cnt = Inr k' \<and> i \<le> k' \<and> k' < cnt \<and>
     (\<forall>p. i \<le> p \<and> p < cnt \<longrightarrow> arr ! k' \<le> arr ! p)"
proof (induction arr k j cnt rule: least_index.induct)
  case (1 arr k j cnt)
  show ?case
  proof (cases "j < cnt")
    case True
    let ?k = "if arr ! j < arr ! k then j else k"
    have "\<forall>p. i \<le> p \<and> p < j + 1 \<longrightarrow> arr ! ?k \<le> arr ! p"
      using "1.prems" by (auto simp: less_Suc_eq intro: order_trans less_imp_le)
    then show ?thesis
      using "1.IH" [of "arr ! j" "arr ! k"] "1.prems" True
      by (simp add: least_index.simps [of arr k j cnt])
  qed (use "1.prems" in \<open>auto simp: least_index.simps [of arr k]\<close>)
qed

lemma selection_loop_ok:
  "length pre = i \<Longrightarrow> i + length xs = cnt \<Longrightarrow>
   selection_loop (pre @ xs @ post) i cnt = Inr (pre @ sort xs @ post)"
proof (induction "length xs" arbitrary: pre xs i)
  case 0
  then show ?case by (simp add: selection_loop.simps)
next
  case (Suc n)
  let ?arr = "pre @ xs @ post"
  have i: "i < cnt" "cnt \<le> length ?arr" using Suc.prems Suc.hyps(2) by auto
  have "\<forall>p. i \<le> p \<and> p < i + 1 \<longrightarrow> ?arr ! i \<le> ?arr ! p"
    by (auto simp: le_antisym less_Suc_eq_le)
  then obtain k where k: "least_index ?arr i (i + 1) cnt = Inr k" "i \<le> k" "k < cnt"
    and least: "\<And>p. i \<le> p \<Longrightarrow> p < cnt \<Longrightarrow> ?arr ! k \<le> ?arr ! p"
    using least_index_ok [of i "i + 1" cnt ?arr i] i by auto
  define q where "q = k - i"
  have q: "k = length pre + q" "q < length xs" using k Suc.prems by (auto simp: q_def)
  define ys where "ys = tl (swap_at xs 0 q)"
  have "swap_at xs 0 q \<noteq> []" "swap_at xs 0 q ! 0 = xs ! q"
    using q by (cases xs; cases q; simp add: swap_at_def)+
  then have xs: "swap_at xs 0 q = xs ! q # ys"
    unfolding ys_def by (cases "swap_at xs 0 q") simp_all
  have swap: "swap_at ?arr i k = (pre @ [xs ! q]) @ ys @ post"
    using xs q Suc.prems
    by (cases xs; cases q) (simp_all add: swap_at_def list_update_append nth_append)
  have "(if i \<noteq> k then bindE (rd ?arr i) (\<lambda>temp. bindE (rd ?arr k) (\<lambda>x.
      bindE (wr ?arr i x) (\<lambda>a. wr a k temp))) else Inr ?arr) = Inr (swap_at ?arr i k)"
    using i k by (simp add: swap_at_def)
  then have step: "selection_loop ?arr i cnt =
      selection_loop ((pre @ [xs ! q]) @ ys @ post) (i + 1) cnt"
    using i(1) k(1) swap by (simp only: selection_loop.simps [of ?arr i] bindE_Inr if_True)
  have len: "length ys = n" using xs Suc.hyps(2) by (metis diff_Suc_1 length_Cons length_swap_at)
  have "0 < length xs" using q by linarith
  then have m: "mset (xs ! q # ys) = mset xs" using q by (simp flip: xs)
  have "xs ! q \<le> y" if "y \<in> set ys" for y
  proof -
    have "y \<in> set xs" using m that by (metis list.set_intros(2) set_mset_mset)
    then obtain r where "r < length xs" "xs ! r = y" by (auto simp: in_set_conv_nth)
    then show ?thesis using least [of "i + r"] q Suc.prems by (auto simp: nth_append)
  qed
  then have "sort xs = xs ! q # sort ys" using sort_min_front [OF m] by blast
  moreover have "selection_loop ((pre @ [xs ! q]) @ ys @ post) (i + 1) cnt =
      Inr ((pre @ [xs ! q]) @ sort ys @ post)"
    using Suc.hyps(1) [of ys "pre @ [xs ! q]" "i + 1"] len Suc.hyps(2) Suc.prems by simp
  ultimately show ?case using step by simp
qed


section \<open>Partition\<close>

lemma scan_high_ok:
  "\<forall>x \<in> set rs. flag < x \<Longrightarrow> ms = [] \<or> \<not> flag < last ms \<Longrightarrow>
   scan_high (pre @ h # ms @ rs @ post) flag (length pre) (length pre + length ms + length rs) =
   Inr (length pre + length ms)"
proof (induction rs arbitrary: post rule: rev_induct)
  case Nil
  then show ?case
    by (cases ms rule: rev_cases) (simp_all add: scan_high.simps nth_append)
next
  case (snoc r rs)
  have "(pre @ h # ms @ (rs @ [r]) @ post) ! (length pre + length ms + length (rs @ [r])) = r"
    by (simp add: nth_append)
  then show ?case
    using snoc.IH [of "r # post"] snoc.prems by (subst scan_high.simps) simp
qed

lemma scan_low_ok:
  "\<forall>x \<in> set ls. x < flag \<Longrightarrow> ms = [] \<or> \<not> hd ms < flag \<Longrightarrow>
   scan_low (pre @ ls @ ms @ post) flag (length pre) (length pre + length ls + length ms) =
   Inr (length pre + length ls)"
proof (induction ls arbitrary: pre)
  case Nil
  then show ?case
    by (cases ms) (simp_all add: scan_low.simps nth_append)
next
  case (Cons l ls)
  then show ?case
    using Cons.IH [of "pre @ [l]"] by (subst scan_low.simps) (simp add: nth_append)
qed

lemma suffix_split:
  "\<exists>ms rs. xs = ms @ rs \<and> (\<forall>x \<in> set rs. P x) \<and> (ms = [] \<or> \<not> P (last ms))"
proof (induction xs rule: rev_induct)
  case (snoc x xs)
  show ?case
  proof (cases "P x")
    case True
    obtain ms rs where "xs = ms @ rs" "\<forall>x \<in> set rs. P x" "ms = [] \<or> \<not> P (last ms)"
      using snoc by blast
    then show ?thesis using True by (intro exI [of _ ms] exI [of _ "rs @ [x]"]) auto
  qed (intro exI [of _ "xs @ [x]"] exI [of _ "[]"], simp)
qed simp

text \<open>
  One iteration of the outer loop, on an array in which the cell \<open>h\<close> at \<open>low\<close> may be
  overwritten and \<open>xs\<close> is what lies between it and \<open>high\<close> included. Either everything in
  \<open>xs\<close> is larger than the pivot; or the last cell \<open>x\<close> that is not goes down to \<open>low\<close>, and
  the two indices meet, or the first cell \<open>y\<close> from there that is not smaller goes up.
\<close>

lemma partition_step:
  obtains (above) "\<forall>x \<in> set xs. flag < x"
      "partition_body (pre @ h # xs @ post) flag (length pre) (length pre + length xs) =
       Inr (pre @ h # xs @ post, length pre, length pre)"
  | (meet) ms x rs where "xs = ms @ x # rs" "\<forall>y \<in> set (x # ms). y < flag" "\<forall>y \<in> set rs. flag < y"
      "partition_body (pre @ h # xs @ post) flag (length pre) (length pre + length xs) =
       Inr ((pre @ x # ms) @ x # rs @ post, length (pre @ x # ms), length (pre @ x # ms))"
  | (move) ms x rs ls y zs where "xs = ms @ x # rs" "x # ms = ls @ y # zs"
      "\<forall>y \<in> set rs. flag < y" "\<forall>y \<in> set ls. y < flag" "\<not> flag < x" "\<not> y < flag"
      "partition_body (pre @ h # xs @ post) flag (length pre) (length pre + length xs) =
       Inr ((pre @ ls) @ y # (zs @ [y]) @ rs @ post, length (pre @ ls),
            length (pre @ ls) + length (zs @ [y]))"
proof -
  obtain ms' rs where xs: "xs = ms' @ rs" and rs: "\<forall>y \<in> set rs. flag < y"
    and ms': "ms' = [] \<or> \<not> flag < last ms'"
    using suffix_split [of xs "\<lambda>y. flag < y"] by blast
  have high: "scan_high (pre @ h # xs @ post) flag (length pre) (length pre + length xs) =
      Inr (length pre + length ms')"
    using scan_high_ok [OF rs ms'] by (simp add: xs add.assoc)
  show ?thesis
  proof (cases ms' rule: rev_cases)
    case Nil
    have "scan_low (pre @ h # xs @ post) flag (length pre) (length pre) = Inr (length pre)"
      by (simp add: scan_low.simps)
    then show ?thesis
      using above xs rs high Nil by (simp add: partition_body_def)
  next
    case (snoc ms x)
    define ls where "ls = takeWhile (\<lambda>y. y < flag) (x # ms)"
    define ys where "ys = dropWhile (\<lambda>y. y < flag) (x # ms)"
    have cut: "x # ms = ls @ ys" and ls: "\<forall>y \<in> set ls. y < flag"
      and ys: "ys = [] \<or> \<not> hd ys < flag"
      using hd_dropWhile [of "\<lambda>y. y < flag" "x # ms"]
      by (auto simp: ls_def ys_def dest: set_takeWhileD simp del: takeWhile.simps dropWhile.simps)
    let ?a = "pre @ (x # ms) @ x # rs @ post"
    have len: "length (x # ms) = length ls + length ys" by (simp only: cut length_append)
    have low: "scan_low ?a flag (length pre) (length pre + length (x # ms)) = Inr (length pre + length ls)"
      using scan_low_ok [OF ls ys, of pre "x # rs @ post"] unfolding len
      by (simp add: cut add.assoc)
    have body: "partition_body (pre @ h # xs @ post) flag (length pre) (length pre + length xs) =
        bindE (rd ?a (length pre + length ls)) (\<lambda>v.
          Inr (?a[length pre + length (x # ms) := v], length pre + length ls, length pre + length (x # ms)))"
      using high low xs snoc
      by (simp add: partition_body_def nth_append list_update_append)
    show ?thesis
    proof (cases ys)
      case Nil
      have "?a[length pre + length (x # ms) := x] = ?a"
        by (rule list_update_same_conv [THEN iffD2]) (simp_all add: nth_append)
      then show ?thesis
        using meet [of ms x rs] xs snoc ls rs cut body len Nil
        by (simp add: nth_append del: list_update_append)
    next
      case (Cons y zs)
      then show ?thesis
        using move [of ms x rs ls y zs] xs snoc ls rs cut ys ms' body len
        by (simp add: nth_append list_update_append)
    qed
  qed
qed

lemma partition_distinct:
  "flag \<notin> set xs \<Longrightarrow>
   \<exists>ls v rs. partition_loop (pre @ h # xs @ post) flag (length pre) (length pre + length xs) =
       Some (Inr (pre @ ls @ v # rs @ post, length pre + length ls)) \<and>
     mset (ls @ rs) = mset xs \<and> (\<forall>x \<in> set ls. x < flag) \<and> (\<forall>x \<in> set rs. flag < x)"
proof (induction "length xs" arbitrary: pre h xs post rule: less_induct)
  case less
  note loop = partition_loop.simps [of "pre @ h # xs @ post" flag "length pre" "length pre + length xs"]
  show ?case
  proof (cases rule: partition_step [where xs = xs and flag = flag and pre = pre and h = h and post = post])
    case above
    then show ?thesis
      using loop partition_loop.simps [of "pre @ h # xs @ post" flag "length pre" "length pre"]
      by (intro exI [of _ "[]"] exI [of _ h] exI [of _ xs]) auto
  next
    case (meet ms x rs)
    then show ?thesis
      using loop partition_loop.simps [of _ flag "length (pre @ x # ms)" "length (pre @ x # ms)"]
      by (intro exI [of _ "x # ms"] exI [of _ x] exI [of _ rs]) auto
  next
    case (move ms x rs ls y zs)
    have "x \<noteq> flag" using less.prems move(1) by auto
    then have "ls \<noteq> []" using move(2,5,6) by (cases ls) auto
    then have "length (zs @ [y]) < length xs"
      using move(1) arg_cong [OF move(2), of length] by (cases ls) auto
    moreover have "set (ls @ y # zs) \<subseteq> set xs" using move(1,2) by (metis Un_iff set_append set_ConsD list.set_intros subsetI)
    then have y: "flag \<notin> set (zs @ [y])" using less.prems by auto
    ultimately obtain ls' v rs' where ih:
      "partition_loop ((pre @ ls) @ y # (zs @ [y]) @ rs @ post) flag (length (pre @ ls))
         (length (pre @ ls) + length (zs @ [y])) =
       Some (Inr ((pre @ ls) @ ls' @ v # rs' @ rs @ post, length (pre @ ls) + length ls'))"
      "mset (ls' @ rs') = mset (zs @ [y])" "\<forall>x \<in> set ls'. x < flag" "\<forall>x \<in> set rs'. flag < x"
      using less.hyps [of "zs @ [y]" "pre @ ls" y "rs @ post"] by blast
    have "mset ((ls @ ls') @ rs' @ rs) = mset xs"
      using ih(2) move(1) arg_cong [OF move(2), of mset] by (simp add: ac_simps)
    then show ?thesis
      using ih loop move(1,3,4,7)
      by (intro exI [of _ "ls @ ls'"] exI [of _ v] exI [of _ "rs' @ rs"]) auto
  qed
qed

lemmas partition_loop_induct =
  partition_loop.raw_induct [rotated, consumes 1, case_names step]

text \<open>A second copy of the pivot in the range is never passed by either index.\<close>

lemma partition_stuck_aux:
  assumes "partition_loop arr flag low high = Some r"
  shows "\<forall>pre h xs post. arr = pre @ h # xs @ post \<longrightarrow> low = length pre \<longrightarrow>
     high = length pre + length xs \<longrightarrow> flag \<notin> set xs"
  using assms
proof (induction rule: partition_loop_induct)
  case (step loop arr flag low high r)
  show ?case
  proof (intro allI impI notI)
    fix pre h xs post
    assume arr: "arr = pre @ h # xs @ post" "low = length pre" "high = length pre + length xs"
      and flag: "flag \<in> set xs"
    then have "low < high" by auto
    then have *: "(case partition_body arr flag low high of Inl e \<Rightarrow> Some (Inl e)
        | Inr (a, low', high') \<Rightarrow> loop a flag low' high') = Some r"
      using step(2) by simp
    show False
    proof (cases rule: partition_step [where xs = xs and flag = flag and pre = pre and h = h and post = post])
      case (move ms x rs ls y zs)
      have "flag \<in> set (ls @ y # zs)"
        using flag move(1,3) by (auto simp flip: move(2))
      then have "flag \<in> set (zs @ [y])" using move(4) by auto
      moreover have "loop ((pre @ ls) @ y # (zs @ [y]) @ rs @ post) flag (length (pre @ ls))
          (length (pre @ ls) + length (zs @ [y])) = Some r"
        using * unfolding arr move(7) by simp
      note step(1) [OF this, rule_format, OF refl refl refl]
      ultimately show False by simp
    qed (use flag in auto)
  qed
qed

lemma partition_stuck:
  "flag \<in> set xs \<Longrightarrow>
   partition_loop (pre @ h # xs @ post) flag (length pre) (length pre + length xs) = None"
  using partition_stuck_aux by fastforce


section \<open>Quick sort\<close>

lemma my_partition_loop:
  "my_partition (pre @ x # ys @ post) (int (length pre)) (int (length pre + length ys)) =
   map_option (\<lambda>r. bindE r (\<lambda>(a, l). bindE (wr a l x) (\<lambda>a'. Inr (a', int l))))
     (partition_loop (pre @ x # ys @ post) x (length pre) (length pre + length ys))"
  by (simp add: my_partition_def rdi_def nth_append flip: of_nat_add)

lemma my_partition_distinct:
  assumes "x \<notin> set ys"
  obtains ls rs where
    "my_partition (pre @ x # ys @ post) (int (length pre)) (int (length pre + length ys)) =
       Some (Inr (pre @ ls @ x # rs @ post, int (length pre + length ls)))"
    "mset (ls @ rs) = mset ys" "\<forall>y \<in> set ls. y < x" "\<forall>y \<in> set rs. x < y"
proof -
  obtain ls v rs where
    "partition_loop (pre @ x # ys @ post) x (length pre) (length pre + length ys) =
       Some (Inr (pre @ ls @ v # rs @ post, length pre + length ls))"
    "mset (ls @ rs) = mset ys" "\<forall>y \<in> set ls. y < x" "\<forall>y \<in> set rs. x < y"
    using partition_distinct [OF assms] by blast
  then show ?thesis
    using that unfolding my_partition_loop by (simp add: list_update_append)
qed

lemma my_partition_stuck:
  "x \<in> set ys \<Longrightarrow>
   my_partition (pre @ x # ys @ post) (int (length pre)) (int (length pre + length ys)) = None"
  unfolding my_partition_loop by (simp add: partition_stuck)

text \<open>On the cells \<open>xs\<close> between \<open>pre\<close> and \<open>post\<close>, both outcomes at once.\<close>

lemma my_quick_sort_exact:
  "my_quick_sort (pre @ xs @ post) (int (length pre)) (int (length pre) + int (length xs) - 1) =
   (if distinct xs then Some (Inr (pre @ sort xs @ post)) else None)"
proof (induction "length xs" arbitrary: pre xs post rule: less_induct)
  case less
  show ?case
  proof (cases xs)
    case Nil
    then show ?thesis by (simp add: my_quick_sort.simps)
  next
    case (Cons x ys)
    have qs: "my_quick_sort (pre @ xs @ post) (int (length pre)) (int (length pre) + int (length xs) - 1) =
      (if ys \<noteq> []
       then Option.bind (my_partition (pre @ x # ys @ post) (int (length pre)) (int (length pre + length ys)))
         (\<lambda>r. case r of Inl e \<Rightarrow> Some (Inl e)
          | Inr (a1, locate) \<Rightarrow> Option.bind (my_quick_sort a1 (int (length pre)) (locate - 1))
              (\<lambda>r1. case r1 of Inl e \<Rightarrow> Some (Inl e)
               | Inr a2 \<Rightarrow> my_quick_sort a2 (locate + 1) (int (length pre + length ys))))
       else Some (Inr (pre @ xs @ post)))"
      by (subst my_quick_sort.simps) (simp add: Cons)
    show ?thesis
    proof (cases "x \<in> set ys")
      case True
      then show ?thesis unfolding qs my_partition_stuck [OF True] by (auto simp: Cons)
    next
      case False
      then obtain ls rs where p:
        "my_partition (pre @ x # ys @ post) (int (length pre)) (int (length pre + length ys)) =
           Some (Inr (pre @ ls @ x # rs @ post, int (length pre + length ls)))"
        "mset (ls @ rs) = mset ys" "\<forall>y \<in> set ls. y < x" "\<forall>y \<in> set rs. x < y"
        using my_partition_distinct by metis
      have len: "length ls + length rs = length ys"
        using arg_cong [OF p(2), of size] by simp
      have d: "distinct ys \<longleftrightarrow> distinct ls \<and> distinct rs"
        using mset_eq_imp_distinct_iff [OF p(2)] p(3,4) by fastforce
      have s: "sort xs = sort ls @ x # sort rs"
        using p(2-4) Cons by (intro sort_pivot) simp_all
      have l: "my_quick_sort (pre @ ls @ x # rs @ post) (int (length pre)) (int (length pre + length ls) - 1) =
          (if distinct ls then Some (Inr (pre @ sort ls @ x # rs @ post)) else None)"
        using less [of ls pre "x # rs @ post"] len Cons by simp
      have r: "my_quick_sort (pre @ sort ls @ x # rs @ post) (int (length pre + length ls) + 1)
          (int (length pre + length ys)) =
          (if distinct rs then Some (Inr (pre @ sort ls @ x # sort rs @ post)) else None)"
      proof -
        have "int (length (pre @ sort ls @ [x])) = int (length pre + length ls) + 1"
          "int (length (pre @ sort ls @ [x])) + int (length rs) - 1 = int (length pre + length ys)"
          using len by simp_all
        moreover have "length rs < length xs" using len Cons by simp
        ultimately show ?thesis
          using less [of rs "pre @ sort ls @ [x]" post] by (simp only: append.simps append_assoc)
      qed
      show ?thesis
      proof (cases "ys = []")
        case True
        then show ?thesis by (simp add: Cons my_quick_sort.simps)
      next
        case ys: False
        have "distinct xs \<longleftrightarrow> distinct ls \<and> distinct rs" using False d Cons by simp
        then show ?thesis
          unfolding qs p(1) s using ys by (simp add: l r del: of_nat_add)
      qed
    qed
  qed
qed

lemma quick_sort_exact:
  assumes "cnt \<le> length arr"
  shows "quick_sort arr cnt =
    (if distinct (take cnt arr)
     then Some (Inr (''quick_sort begin:'' @ comma_list (take cnt arr) @
       ''quick_sort end:'' @ comma_list (sort (take cnt arr)), sort (take cnt arr) @ drop cnt arr))
     else None)"
  using my_quick_sort_exact [of "[]" "take cnt arr" "drop cnt arr"] assms
  by (simp add: quick_sort_def min_absorb2)


section \<open>Properties\<close>

text \<open>
  C27: \<open>bubble_sort\<close> and \<open>selection_sort\<close> both sort the first \<open>cnt\<close> cells, leave the other
  cells alone, touch nothing outside the array, and print the cells before and after.
\<close>

theorem simple_sorts:
  assumes "cnt \<le> length arr"
  shows "bubble_sort arr cnt =
      Inr (''bubble_sort begin:'' @ comma_list (take cnt arr) @
           ''bubble_sort end:'' @ comma_list (sort (take cnt arr)),
           sort (take cnt arr) @ drop cnt arr) \<and>
    selection_sort arr cnt =
      Inr (''selection_sort begin:'' @ comma_list (take cnt arr) @
           ''selection_sort end:'' @ comma_list (sort (take cnt arr)),
           sort (take cnt arr) @ drop cnt arr)"
  using bubble_loop_ok [of 0 "take cnt arr" cnt "drop cnt arr"]
    selection_loop_ok [of "[]" 0 "take cnt arr" cnt "drop cnt arr"] assms
  by (simp_all add: bubble_sort_def selection_sort_def)

theorem simple_sorts_witness:
  "bubble_sort [3, 1, 2, 0] 3 =
     Inr (''bubble_sort begin:'' @ comma_list [3, 1, 2] @
          ''bubble_sort end:'' @ comma_list [1, 2, 3], [1, 2, 3, 0])"
  using simple_sorts [of 3 "[3, 1, 2, 0]"] by (simp add: eval_nat_numeral)

text \<open>
  C34: \<open>quick_sort\<close> returns exactly when the cells are pairwise different, and then they are
  sorted; with a repeated value the outer loop of \<open>my_partition\<close> never ends.
\<close>

theorem quick_sort_returns_iff_distinct:
  assumes "cnt \<le> length arr"
  shows "(quick_sort arr cnt = None \<longleftrightarrow> \<not> distinct (take cnt arr)) \<and>
    (distinct (take cnt arr) \<longrightarrow>
      (\<exists>out. quick_sort arr cnt = Some (Inr (out, sort (take cnt arr) @ drop cnt arr))))"
  by (simp add: quick_sort_exact [OF assms])

theorem quick_sort_returns_iff_distinct_witness:
  "quick_sort [1, 1] 2 = None \<and> (\<exists>out. quick_sort [2, 0, 1] 3 = Some (Inr (out, [0, 1, 2])))"
  using quick_sort_returns_iff_distinct [of 2 "[1, 1]"]
    quick_sort_returns_iff_distinct [of 3 "[2, 0, 1]"] by simp

text \<open>
  The three routines of \<open>test_sort\<close> run to their end on its array and print the digits
  in ascending order, each under its own banner.
\<close>

lemma test_sort_output:
  "test_sort =
     (let before = comma_list [4, 2, 5, 8, 7, 3, 1, 6, 9, 0];
          after = comma_list [0, 1, 2, 3, 4, 5, 6, 7, 8, 9] in
      Some (Inr (concat (map (\<lambda>name. name @ '' begin:'' @ before @ name @ '' end:'' @ after)
        [''bubble_sort'', ''selection_sort'', ''quick_sort'']))))"
proof -
  let ?a = "[4, 2, 5, 8, 7, 3, 1, 6, 9, 0] :: int list"
  have s: "sort ?a = [0, 1, 2, 3, 4, 5, 6, 7, 8, 9]" by simp
  have t: "take 10 ?a = ?a" "drop 10 ?a = []" "distinct ?a" "10 \<le> length ?a" by simp_all
  have b: "bubble_loop ?a 0 10 = Inr (sort ?a)" "selection_loop ?a 0 10 = Inr (sort ?a)"
    using bubble_loop_ok [of 0 ?a 10 "[]"] selection_loop_ok [of "[]" 0 ?a 10 "[]"] by simp_all
  have l: "length (sort ?a) = 10" "take 10 (sort ?a) = sort ?a" unfolding s by simp_all
  have "bubble_sort ?a 10 = Inr (''bubble_sort begin:'' @ comma_list ?a @
      ''bubble_sort end:'' @ comma_list (sort ?a), sort ?a)"
    "selection_sort ?a 10 = Inr (''selection_sort begin:'' @ comma_list ?a @
      ''selection_sort end:'' @ comma_list (sort ?a), sort ?a)"
    unfolding bubble_sort_def selection_sort_def b using t l by simp_all
  moreover have "quick_sort ?a 10 = Some (Inr (''quick_sort begin:'' @ comma_list ?a @
      ''quick_sort end:'' @ comma_list (sort ?a), sort ?a))"
    unfolding quick_sort_exact [OF t(4)] t(1,2) using t(3) by simp
  ultimately show ?thesis
    unfolding test_sort_def Let_def s by simp
qed

end
