(* ===== verification/AvlTree.thy ===== *)
theory AvlTree
  imports Prelude "HOL-Library.Tree"
begin

text \<open>
  The search tree of \<^verbatim>\<open>src/wzq_study/avltree.h\<close> and \<^verbatim>\<open>avltree.cpp\<close>. The heap of the program is
  the list of its nodes in the order of their allocation (nothing is ever freed here), a
  pointer is \<open>None\<close> for NULL or the place of its node in that list. The routines that
  follow pointers return an option, whose \<open>None\<close> is not returning: a cyclic structure
  would keep them busy forever.
\<close>

section \<open>The program\<close>

type_synonym position = "nat option"

record node =
  depth :: int
  element :: int
  parent :: position
  lchild :: position
  rchild :: position

type_synonym heap = "node list"

text \<open>Dereferencing a pointer, to read the node and to write a changed one back.\<close>

definition deref :: "heap \<Rightarrow> position \<Rightarrow> node res" where
  "deref s p = (case p of None \<Rightarrow> Inl NullDeref | Some a \<Rightarrow> rd s a)"

definition update :: "heap \<Rightarrow> position \<Rightarrow> (node \<Rightarrow> node) \<Rightarrow> heap res" where
  "update s p f = (case p of None \<Rightarrow> Inl NullDeref
     | Some a \<Rightarrow> bindE (rd s a) (\<lambda>n. wr s a (f n)))"

definition node_display :: "node \<Rightarrow> string" where
  "node_display n = show_int (element n) @ ''('' @ show_int (depth n) @ ''),''"

partial_function (option) plr_sort :: "heap \<Rightarrow> position \<Rightarrow> string res option" where
  "plr_sort s tr =
     (if tr = None then Some (Inr [])
      else bindO (Some (deref s tr)) (\<lambda>n.
           bindO (plr_sort s (lchild n)) (\<lambda>o1.
           bindO (plr_sort s (rchild n)) (\<lambda>o2.
             Some (Inr (node_display n @ o1 @ o2))))))"

partial_function (option) lpr_sort :: "heap \<Rightarrow> position \<Rightarrow> string res option" where
  "lpr_sort s tr =
     (if tr = None then Some (Inr [])
      else bindO (Some (deref s tr)) (\<lambda>n.
           bindO (lpr_sort s (lchild n)) (\<lambda>o1.
           bindO (lpr_sort s (rchild n)) (\<lambda>o2.
             Some (Inr (o1 @ node_display n @ o2))))))"

partial_function (option) lrp_sort :: "heap \<Rightarrow> position \<Rightarrow> string res option" where
  "lrp_sort s tr =
     (if tr = None then Some (Inr [])
      else bindO (Some (deref s tr)) (\<lambda>n.
           bindO (lrp_sort s (lchild n)) (\<lambda>o1.
           bindO (lrp_sort s (rchild n)) (\<lambda>o2.
             Some (Inr (o1 @ o2 @ node_display n))))))"

text \<open>The three headings of \<open>display\<close>, in the bytes of the source file (GBK).\<close>

definition heading_plr :: string where
  "heading_plr = endl @ [CHR 0xC7, CHR 0xB0, CHR 0xD0, CHR 0xF2, CHR 0xA3, CHR 0xBA] @ endl @ tab"

definition heading_lpr :: string where
  "heading_lpr = endl @ [CHR 0xD6, CHR 0xD0, CHR 0xD0, CHR 0xF2, CHR 0xA3, CHR 0xBA] @ endl @ tab"

definition heading_lrp :: string where
  "heading_lrp = endl @ [CHR 0xBA, CHR 0xF3, CHR 0xD0, CHR 0xF2, CHR 0xA3, CHR 0xBA] @ endl @ tab"

definition display_tree :: "heap \<Rightarrow> position \<Rightarrow> string res option" where
  "display_tree s tr =
     bindO (plr_sort s tr) (\<lambda>o1.
     bindO (lpr_sort s tr) (\<lambda>o2.
     bindO (lrp_sort s tr) (\<lambda>o3.
       Some (Inr (heading_plr @ o1 @ heading_lpr @ o2 @ heading_lrp @ o3 @ endl)))))"

definition getdepth :: "heap \<Rightarrow> position \<Rightarrow> int res" where
  "getdepth s tr =
     (if tr = None then Inr 0 else bindE (deref s tr) (\<lambda>n. Inr (depth n)))"

definition update_depth :: "heap \<Rightarrow> position \<Rightarrow> heap res" where
  "update_depth s tr =
     (if tr = None then Inr s
      else bindE (deref s tr) (\<lambda>n.
           bindE (getdepth s (lchild n)) (\<lambda>ldepth.
           bindE (getdepth s (rchild n)) (\<lambda>rdepth.
           let maxdepth = (if ldepth \<ge> rdepth then ldepth else rdepth) in
           bindE (ck (maxdepth + 1)) (\<lambda>d.
             update s tr (\<lambda>n. n\<lparr>depth := d\<rparr>))))))"

definition depth_diff :: "heap \<Rightarrow> position \<Rightarrow> int res" where
  "depth_diff s tr =
     (if tr = None then Inr 0
      else bindE (deref s tr) (\<lambda>n.
           bindE (getdepth s (lchild n)) (\<lambda>ldepth.
           bindE (getdepth s (rchild n)) (\<lambda>rdepth. ck (ldepth - rdepth)))))"

partial_function (option) insert_into_tree ::
    "heap \<Rightarrow> position \<Rightarrow> position \<Rightarrow> heap res option" where
  "insert_into_tree s tr np =
     (if tr = None then Some (Inr s)
      else bindO (Some (deref s tr)) (\<lambda>t. bindO (Some (deref s np)) (\<lambda>n.
        if element t \<ge> element n
        then (if lchild t = None
              then Some (bindE (update s np (\<lambda>n. n\<lparr>parent := tr\<rparr>)) (\<lambda>s1.
                     update s1 tr (\<lambda>t. t\<lparr>lchild := np\<rparr>)))
              else insert_into_tree s (lchild t) np)
        else (if rchild t = None
              then Some (bindE (update s np (\<lambda>n. n\<lparr>parent := tr\<rparr>)) (\<lambda>s1.
                     update s1 tr (\<lambda>t. t\<lparr>rchild := np\<rparr>)))
              else insert_into_tree s (rchild t) np))))"

text \<open>\<open>new node\<close> takes the next place; its fields are then assigned one by one.\<close>

definition new_node :: "int \<Rightarrow> node" where
  "new_node e = \<lparr>depth = 1, element = e, parent = None, lchild = None, rchild = None\<rparr>"

definition insert_value :: "heap \<Rightarrow> position \<Rightarrow> int \<Rightarrow> (heap \<times> position) res option" where
  "insert_value s tr e =
     (let np = Some (length s) in
      bindO (insert_into_tree (s @ [new_node e]) tr np) (\<lambda>s1. Some (Inr (s1, np))))"

text \<open>
  \<open>recover_avl\<close>: up the parents of the new node. A node that is out of balance is not
  changed; at the root the loop ends with \<open>tr = np\<close>.
\<close>

partial_function (option) recover_avl ::
    "heap \<Rightarrow> position \<Rightarrow> position \<Rightarrow> (heap \<times> position) res option" where
  "recover_avl s tr np =
     (if np = None then Some (Inr (s, tr))
      else bindO (Some (update_depth s np)) (\<lambda>s1.
           bindO (Some (depth_diff s1 np)) (\<lambda>idiff.
           bindO (Some (deref s1 np)) (\<lambda>n.
             if (idiff > 1 \<or> idiff < - 1) \<and> parent n = None then Some (Inr (s1, np))
             else recover_avl s1 tr (parent n)))))"

text \<open>\<open>insert\<close>: what \<open>recover_avl\<close> returns is not used.\<close>

definition avl_insert :: "heap \<Rightarrow> position \<Rightarrow> int \<Rightarrow> (heap \<times> position) res option" where
  "avl_insert s tr e =
     bindO (insert_value s tr e) (\<lambda>(s1, np).
       let tr1 = (if tr = None then np else tr) in
       bindO (recover_avl s1 tr1 np) (\<lambda>(s2, _). Some (Inr (s2, tr1))))"

text \<open>A run of insertions, as \<open>test_AVLTree\<close> makes one.\<close>

fun run_inserts :: "int list \<Rightarrow> heap \<times> position \<Rightarrow> (heap \<times> position) res option" where
  "run_inserts [] st = Some (Inr st)"
| "run_inserts (x # xs) (s, tr) = bindO (avl_insert s tr x) (run_inserts xs)"

definition test_AVLTree :: "string res option" where
  "test_AVLTree =
     bindO (run_inserts [50, 80, 70, 30, 10, 20, 40, 90, 60] ([], None)) (\<lambda>(s, tr).
       display_tree s tr)"


section \<open>The tree a heap holds\<close>

text \<open>
  Trees whose nodes carry an address, an element and a depth; \<open>rep s par t\<close> says that the
  nodes of \<open>t\<close> lie in \<open>s\<close> at their addresses with these fields, linked to each other, the
  topmost one with the parent \<open>par\<close>.
\<close>

type_synonym atree = "(nat \<times> int \<times> int) tree"

definition root_of :: "atree \<Rightarrow> position" where
  "root_of t = (case t of Leaf \<Rightarrow> None | Node l v r \<Rightarrow> Some (fst v))"

lemma root_of_simps [simp]: "root_of Leaf = None" "root_of (Node l (b, x, d) r) = Some b"
  by (simp_all add: root_of_def)

lemma root_of_None [simp]: "root_of t = None \<longleftrightarrow> t = Leaf"
  by (auto simp: root_of_def split: tree.splits)

fun rep :: "heap \<Rightarrow> position \<Rightarrow> atree \<Rightarrow> bool" where
  "rep s par Leaf \<longleftrightarrow> True"
| "rep s par (Node l (b, x, d) r) \<longleftrightarrow>
     b < length s \<and> s ! b = \<lparr>depth = d, element = x, parent = par, lchild = root_of l, rchild = root_of r\<rparr> \<and>
     rep s (Some b) l \<and> rep s (Some b) r"

definition addrs :: "atree \<Rightarrow> nat set" where
  "addrs t = fst ` set_tree t"

lemma addrs_simps [simp]:
  "addrs Leaf = {}" "addrs (Node l (b, x, d) r) = {b} \<union> addrs l \<union> addrs r"
  by (auto simp: addrs_def)

fun disj :: "atree \<Rightarrow> bool" where
  "disj Leaf \<longleftrightarrow> True"
| "disj (Node l (b, x, d) r) \<longleftrightarrow>
     b \<notin> addrs l \<and> b \<notin> addrs r \<and> addrs l \<inter> addrs r = {} \<and> disj l \<and> disj r"

text \<open>The depths are those of the tree: one more than the deeper subtree's.\<close>

definition dep :: "atree \<Rightarrow> int" where
  "dep t = (case t of Leaf \<Rightarrow> 0 | Node l v r \<Rightarrow> snd (snd v))"

lemma dep_simps [simp]: "dep Leaf = 0" "dep (Node l (b, x, d) r) = d"
  by (simp_all add: dep_def)

fun deps_ok :: "atree \<Rightarrow> bool" where
  "deps_ok Leaf \<longleftrightarrow> True"
| "deps_ok (Node l (b, x, d) r) \<longleftrightarrow> d = max (dep l) (dep r) + 1 \<and> deps_ok l \<and> deps_ok r"

lemma deps_ok_height: "deps_ok t \<Longrightarrow> dep t = int (height t)"
  by (induction t rule: deps_ok.induct) auto

text \<open>Insertion on these trees, without and with the new depths.\<close>

fun ins :: "nat \<Rightarrow> int \<Rightarrow> atree \<Rightarrow> atree" where
  "ins a e Leaf = Node Leaf (a, e, 1) Leaf"
| "ins a e (Node l (b, x, d) r) =
     (if x \<ge> e then Node (ins a e l) (b, x, d) r else Node l (b, x, d) (ins a e r))"

fun insd :: "nat \<Rightarrow> int \<Rightarrow> atree \<Rightarrow> atree" where
  "insd a e Leaf = Node Leaf (a, e, 1) Leaf"
| "insd a e (Node l (b, x, d) r) =
     (if x \<ge> e then let l' = insd a e l in Node l' (b, x, max (dep l') (dep r) + 1) r
      else let r' = insd a e r in Node l (b, x, max (dep l) (dep r') + 1) r')"

lemma root_of_ins [simp]:
  "root_of (ins a e t) = (if t = Leaf then Some a else root_of t)"
  "root_of (insd a e t) = (if t = Leaf then Some a else root_of t)"
  by (cases t rule: deps_ok.cases; simp add: Let_def)+

lemma addrs_ins [simp]:
  "addrs (ins a e t) = {a} \<union> addrs t" "addrs (insd a e t) = {a} \<union> addrs t"
  by (induction a e t rule: ins.induct) (auto simp: Let_def)

lemma disj_ins: "a \<notin> addrs t \<Longrightarrow> disj (ins a e t) = disj t \<and> disj (insd a e t) = disj t"
  by (induction a e t rule: ins.induct) (auto simp: Let_def)

lemma deps_ok_insd: "deps_ok t \<Longrightarrow> deps_ok (insd a e t)"
  by (induction a e t rule: ins.induct) (auto simp: Let_def)

lemma rep_frame:
  "rep s par t \<Longrightarrow> \<forall>b \<in> addrs t. s' ! b = s ! b \<Longrightarrow> length s \<le> length s' \<Longrightarrow> rep s' par t"
  by (induction s par t rule: rep.induct) auto

lemma rep_upd [simp]: "rep s par t \<Longrightarrow> b \<notin> addrs t \<Longrightarrow> rep (s[b := v]) par t"
  by (induction s par t rule: rep.induct) auto

lemma rep_addrs: "rep s par t \<Longrightarrow> addrs t \<subseteq> {..<length s}"
  by (induction s par t rule: rep.induct) auto

lemma deref_simps [simp]: "deref s None = Inl NullDeref" "deref s (Some a) = rd s a"
  by (simp_all add: deref_def)

lemma update_Some [simp]: "a < length s \<Longrightarrow> update s (Some a) f = Inr (s[a := f (s ! a)])"
  by (simp add: update_def)

lemma getdepth_rep [simp]: "rep s par t \<Longrightarrow> getdepth s (root_of t) = Inr (dep t)"
  by (cases t rule: deps_ok.cases) (simp_all add: getdepth_def)

lemma insert_into_tree_ok:
  "rep s par t \<Longrightarrow> t \<noteq> Leaf \<Longrightarrow> disj t \<Longrightarrow> a \<notin> addrs t \<Longrightarrow> a < length s \<Longrightarrow> s ! a = new_node e \<Longrightarrow>
   \<exists>s'. insert_into_tree s (root_of t) (Some a) = Some (Inr s') \<and> length s' = length s \<and>
     rep s' par (ins a e t) \<and> (\<forall>b. b \<notin> addrs t \<longrightarrow> b \<noteq> a \<longrightarrow> s' ! b = s ! b)"
proof (induction s par t rule: rep.induct)
  case (2 s par l b x d r)
  note step = insert_into_tree.simps [of s "Some b" "Some a"]
  note r = rep_frame [of s _ r] and l = rep_frame [of s _ l]
  have b: "b < length s" "a \<noteq> b" "b \<notin> addrs l" "b \<notin> addrs r" "addrs l \<inter> addrs r = {}"
    "a \<notin> addrs l" "a \<notin> addrs r" using "2.prems" by auto
  define s2 where "s2 f = s[a := (new_node e)\<lparr>parent := Some b\<rparr>, b := f (s ! b)]" for f
  have s2: "length (s2 f) = length s" "\<And>c. c \<noteq> b \<Longrightarrow> c \<noteq> a \<Longrightarrow> s2 f ! c = s ! c"
    "s2 f ! b = f (s ! b)" "s2 f ! a = (new_node e)\<lparr>parent := Some b\<rparr>" for f
    using b "2.prems" by (auto simp: s2_def)
  have lr: "rep (s2 f) (Some b) l" "rep (s2 f) (Some b) r" for f
    using "2.prems" b by (simp_all add: s2_def)
  show ?case
  proof (cases "x \<ge> e")
    case le: True
    show ?thesis
    proof (cases "l = Leaf")
      case True
      have "insert_into_tree s (Some b) (Some a) = Some (Inr (s2 (\<lambda>t. t\<lparr>lchild := Some a\<rparr>)))"
        using le True "2.prems" b by (simp add: step s2_def new_node_def)
      then show ?thesis
        using le True "2.prems" b s2 lr by (auto simp: new_node_def)
    next
      case False
      obtain s' where s': "insert_into_tree s (root_of l) (Some a) = Some (Inr s')"
        "length s' = length s" "rep s' (Some b) (ins a e l)"
        "\<forall>c. c \<notin> addrs l \<longrightarrow> c \<noteq> a \<longrightarrow> s' ! c = s ! c"
        using "2.IH"(1) False "2.prems" by auto
      have "\<forall>c \<in> addrs r. s' ! c = s ! c" using s'(4) b by (metis disjoint_iff)
      then have "rep s' (Some b) r" using "2.prems" s' r [of "Some b" s'] by simp
      moreover have "s' ! b = s ! b" using s'(4) b by simp
      ultimately have "rep s' par (ins a e (Node l (b, x, d) r))"
        using le False "2.prems"(1) s' by simp
      moreover have "insert_into_tree s (Some b) (Some a) = Some (Inr s')"
        using le False "2.prems" b s'(1) by (simp add: step new_node_def)
      ultimately show ?thesis
        using s' by (intro exI [of _ s']) simp
    qed
  next
    case gt: False
    show ?thesis
    proof (cases "r = Leaf")
      case True
      have "insert_into_tree s (Some b) (Some a) = Some (Inr (s2 (\<lambda>t. t\<lparr>rchild := Some a\<rparr>)))"
        using gt True "2.prems" b by (simp add: step s2_def new_node_def)
      then show ?thesis
        using gt True "2.prems" b s2 lr by (auto simp: new_node_def)
    next
      case False
      obtain s' where s': "insert_into_tree s (root_of r) (Some a) = Some (Inr s')"
        "length s' = length s" "rep s' (Some b) (ins a e r)"
        "\<forall>c. c \<notin> addrs r \<longrightarrow> c \<noteq> a \<longrightarrow> s' ! c = s ! c"
        using "2.IH"(2) False "2.prems" by auto
      have "\<forall>c \<in> addrs l. s' ! c = s ! c" using s'(4) b by (metis disjoint_iff)
      then have "rep s' (Some b) l" using "2.prems" s' l [of "Some b" s'] by simp
      moreover have "s' ! b = s ! b" using s'(4) b by simp
      ultimately have "rep s' par (ins a e (Node l (b, x, d) r))"
        using gt False "2.prems"(1) s' by simp
      moreover have "insert_into_tree s (Some b) (Some a) = Some (Inr s')"
        using gt False "2.prems" b s'(1) by (simp add: step new_node_def)
      ultimately show ?thesis
        using s' by (intro exI [of _ s']) simp
    qed
  qed
qed simp

lemma recover_avl_None [simp]: "recover_avl s tr None = Some (Inr (s, tr))"
  by (simp add: recover_avl.simps)

text \<open>One round of \<open>recover_avl\<close>, at a node whose subtrees have their depths.\<close>

lemma recover_node:
  assumes rep: "rep s par (Node l (b, x, d) r)" and disj: "disj (Node l (b, x, d) r)"
    and d': "d' = max (dep l) (dep r) + 1" "0 \<le> dep l" "0 \<le> dep r" "d' \<le> INT_MAX"
    and tr: "par = None \<Longrightarrow> tr = Some b"
  shows "recover_avl s tr (Some b) = recover_avl (s[b := (s ! b)\<lparr>depth := d'\<rparr>]) tr par"
    and "rep (s[b := (s ! b)\<lparr>depth := d'\<rparr>]) par (Node l (b, x, d') r)"
proof -
  let ?s = "s[b := (s ! b)\<lparr>depth := d'\<rparr>]"
  show rep': "rep ?s par (Node l (b, x, d') r)"
    using rep disj by simp
  have ck: "ck (max (dep l) (dep r) + 1) = Inr d'" "ck (dep l - dep r) = Inr (dep l - dep r)"
    using d' by (simp_all add: is_i32_def INT_MIN_def INT_MAX_def)
  have m: "(if dep l \<ge> dep r then dep l else dep r) = max (dep l) (dep r)" by simp
  have "update_depth s (Some b) = Inr ?s"
    using rep ck by (simp add: update_depth_def getdepth_rep [where par = "Some b"] m Let_def)
  moreover have "depth_diff ?s (Some b) = Inr (dep l - dep r)"
    using rep rep' ck by (simp add: depth_diff_def getdepth_rep [where par = "Some b"])
  ultimately show "recover_avl s tr (Some b) = recover_avl ?s tr par"
    using rep rep' tr by (cases par) (simp_all add: recover_avl.simps [of s _ "Some b"])
qed

text \<open>The whole way up a subtree in which a node has been inserted.\<close>

lemma recover_ok:
  "rep s par (ins a e t) \<Longrightarrow> disj (ins a e t) \<Longrightarrow> deps_ok t \<Longrightarrow> a \<notin> addrs t \<Longrightarrow>
   int (height (insd a e t)) \<le> INT_MAX \<Longrightarrow> (par = None \<Longrightarrow> tr = root_of (ins a e t)) \<Longrightarrow>
   \<exists>s'. recover_avl s tr (Some a) = recover_avl s' tr par \<and> length s' = length s \<and>
     rep s' par (insd a e t) \<and> (\<forall>b. b \<notin> addrs (ins a e t) \<longrightarrow> s' ! b = s ! b)"
proof (induction s par t arbitrary: tr rule: rep.induct)
  case (1 s par)
  then have "recover_avl s tr (Some a) = recover_avl (s[a := (s ! a)\<lparr>depth := 1\<rparr>]) tr par"
    "rep (s[a := (s ! a)\<lparr>depth := 1\<rparr>]) par (insd a e Leaf)"
    using recover_node [of s par Leaf a e 1 Leaf 1 tr] by (auto simp: INT_MAX_def)
  then show ?case by (intro exI [of _ "s[a := (s ! a)\<lparr>depth := 1\<rparr>]"]) simp
next
  case (2 s par l b x d r)
  define t' where "t' = insd a e (Node l (b, x, d) r)"
  have ok: "deps_ok t'" using "2.prems"(3) unfolding t'_def by (rule deps_ok_insd)
  have h: "dep t' \<le> INT_MAX"
    using "2.prems"(5) deps_ok_height [OF ok] by (simp add: t'_def)
  have b: "a \<noteq> b" "a \<notin> addrs l" "a \<notin> addrs r" "deps_ok l" "deps_ok r" "b < length s"
    using "2.prems" by (auto split: if_splits)
  have pos: "0 \<le> dep t" if "deps_ok t" for t using deps_ok_height [OF that] by simp
  note pos = pos [OF b(4)] pos [OF b(5)] pos [OF deps_ok_insd [OF b(4)]]
    pos [OF deps_ok_insd [OF b(5)]]
  have root: "root_of (ins a e l) = root_of (insd a e l)" "root_of (ins a e r) = root_of (insd a e r)"
    by simp_all
  show ?case
  proof (cases "x \<ge> e")
    case le: True
    have "\<exists>s'. recover_avl s tr (Some a) = recover_avl s' tr (Some b) \<and> length s' = length s \<and>
        rep s' (Some b) (insd a e l) \<and> (\<forall>c. c \<notin> addrs (ins a e l) \<longrightarrow> s' ! c = s ! c)"
      using "2.IH"(1) [of tr] "2.prems" b le by (simp add: Let_def)
    then obtain s' where s': "recover_avl s tr (Some a) = recover_avl s' tr (Some b)"
      "length s' = length s" "rep s' (Some b) (insd a e l)"
      "\<And>c. c \<noteq> a \<Longrightarrow> c \<notin> addrs l \<Longrightarrow> s' ! c = s ! c" by auto
    have "b \<notin> addrs l" "addrs l \<inter> addrs r = {}" "rep s (Some b) r"
      using "2.prems" le by auto
    moreover from this have "\<forall>c \<in> addrs r. s' ! c = s ! c" using s'(4) b by (metis disjoint_iff)
    ultimately have "rep s' (Some b) r" "s' ! b = s ! b"
      using rep_frame [of s "Some b" r s'] s' b by simp_all
    then have rep: "rep s' par (Node (insd a e l) (b, x, d) r)"
      using "2.prems"(1) le s' by (simp add: root)
    have dis: "disj (Node (insd a e l) (b, x, d) r)"
      using "2.prems"(2) le disj_ins [of a l e] b by auto
    have d: "dep t' = max (dep (insd a e l)) (dep r) + 1" by (simp add: t'_def le Let_def)
    have tr: "par = None \<Longrightarrow> tr = Some b" using "2.prems"(6) le by simp
    let ?s = "s'[b := (s' ! b)\<lparr>depth := dep t'\<rparr>]"
    have "recover_avl s tr (Some a) = recover_avl ?s tr par" "rep ?s par t'"
      using recover_node [OF rep dis d pos(3,2) h tr] s'(1) le
      by (simp_all add: t'_def Let_def)
    then show ?thesis
      using s' le by (intro exI [of _ ?s]) (auto simp: t'_def)
  next
    case gt: False
    have "\<exists>s'. recover_avl s tr (Some a) = recover_avl s' tr (Some b) \<and> length s' = length s \<and>
        rep s' (Some b) (insd a e r) \<and> (\<forall>c. c \<notin> addrs (ins a e r) \<longrightarrow> s' ! c = s ! c)"
      using "2.IH"(2) [of tr] "2.prems" b gt by (simp add: Let_def)
    then obtain s' where s': "recover_avl s tr (Some a) = recover_avl s' tr (Some b)"
      "length s' = length s" "rep s' (Some b) (insd a e r)"
      "\<And>c. c \<noteq> a \<Longrightarrow> c \<notin> addrs r \<Longrightarrow> s' ! c = s ! c" by auto
    have "b \<notin> addrs r" "addrs l \<inter> addrs r = {}" "rep s (Some b) l"
      using "2.prems" gt by auto
    moreover from this have "\<forall>c \<in> addrs l. s' ! c = s ! c" using s'(4) b by (metis disjoint_iff)
    ultimately have "rep s' (Some b) l" "s' ! b = s ! b"
      using rep_frame [of s "Some b" l s'] s' b by simp_all
    then have rep: "rep s' par (Node l (b, x, d) (insd a e r))"
      using "2.prems"(1) gt s' by (simp add: root)
    have dis: "disj (Node l (b, x, d) (insd a e r))"
      using "2.prems"(2) gt disj_ins [of a r e] b by auto
    have d: "dep t' = max (dep l) (dep (insd a e r)) + 1" by (simp add: t'_def gt Let_def)
    have tr: "par = None \<Longrightarrow> tr = Some b" using "2.prems"(6) gt by simp
    let ?s = "s'[b := (s' ! b)\<lparr>depth := dep t'\<rparr>]"
    have "recover_avl s tr (Some a) = recover_avl ?s tr par" "rep ?s par t'"
      using recover_node [OF rep dis d pos(1,4) h tr] s'(1) gt
      by (simp_all add: t'_def Let_def)
    then show ?thesis
      using s' gt by (intro exI [of _ ?s]) (auto simp: t'_def)
  qed
qed

text \<open>What every call of \<open>insert\<close> keeps.\<close>

definition avl_ok :: "heap \<Rightarrow> position \<Rightarrow> atree \<Rightarrow> bool" where
  "avl_ok s tr t \<longleftrightarrow> tr = root_of t \<and> rep s None t \<and> disj t \<and> deps_ok t \<and> size t = length s"

lemma avl_ok_empty: "avl_ok [] None Leaf"
  by (simp add: avl_ok_def)

lemma size_insd: "size (insd a e t) = Suc (size t)"
  by (induction a e t rule: insd.induct) (simp_all add: Let_def)

lemma height_le_size: "height (t :: 'a tree) \<le> size t"
  by (induction t) auto

lemma avl_insert_ok:
  assumes ok: "avl_ok s tr t" and n: "int (length s) < INT_MAX"
  shows "\<exists>s'. avl_insert s tr e = Some (Inr (s', root_of (insd (length s) e t))) \<and>
    avl_ok s' (root_of (insd (length s) e t)) (insd (length s) e t)"
proof -
  let ?a = "length s" and ?s = "s @ [new_node e]"
  have t: "tr = root_of t" "rep s None t" "disj t" "deps_ok t" "size t = length s"
    using ok by (simp_all add: avl_ok_def)
  have a: "?a \<notin> addrs t" using rep_addrs [OF t(2)] by auto
  have rep: "rep ?s None t"
    by (rule rep_frame [OF t(2)]) (use rep_addrs [OF t(2)] in \<open>auto simp: nth_append\<close>)
  have "\<exists>s1. insert_into_tree ?s tr (Some ?a) = Some (Inr s1) \<and> length s1 = Suc ?a \<and>
      rep s1 None (ins ?a e t)"
  proof (cases "t = Leaf")
    case True
    then show ?thesis
      using t by (simp add: insert_into_tree.simps new_node_def)
  next
    case False
    then show ?thesis
      using insert_into_tree_ok [OF rep False t(3) a, of e] by (auto simp: t(1))
  qed
  then obtain s1 where s1: "insert_into_tree ?s tr (Some ?a) = Some (Inr s1)"
    "length s1 = Suc ?a" "rep s1 None (ins ?a e t)" by blast
  have "int (height (insd ?a e t)) \<le> INT_MAX"
    using height_le_size [of "insd ?a e t"] n t(5) by (simp add: size_insd)
  then obtain s2 where s2: "recover_avl s1 (root_of (ins ?a e t)) (Some ?a) =
      recover_avl s2 (root_of (ins ?a e t)) None" "length s2 = length s1"
    "rep s2 None (insd ?a e t)"
    using recover_ok [OF s1(3) _ t(4) a] disj_ins [OF a] t(3) by blast
  have "avl_insert s tr e = Some (Inr (s2, root_of (insd ?a e t)))"
    using s1 s2 t(1) by (simp add: avl_insert_def insert_value_def Let_def recover_avl.simps [of s2])
  moreover have "avl_ok s2 (root_of (insd ?a e t)) (insd ?a e t)"
    using s1 s2 t disj_ins [OF a] deps_ok_insd by (simp add: avl_ok_def size_insd del: root_of_ins)
  ultimately show ?thesis by blast
qed

text \<open>The tree after a run of insertions.\<close>

fun grow :: "atree \<Rightarrow> int list \<Rightarrow> atree" where
  "grow t [] = t"
| "grow t (x # xs) = grow (insd (size t) x t) xs"

lemma run_inserts_ok:
  "avl_ok s tr t \<Longrightarrow> int (length s + length xs) \<le> INT_MAX \<Longrightarrow>
   \<exists>s'. run_inserts xs (s, tr) = Some (Inr (s', root_of (grow t xs))) \<and>
     avl_ok s' (root_of (grow t xs)) (grow t xs)"
proof (induction xs arbitrary: s tr t)
  case Nil
  then show ?case by (auto simp: avl_ok_def)
next
  case (Cons x xs)
  have t: "size t = length s" using Cons.prems(1) by (simp add: avl_ok_def)
  obtain s1 where s1: "avl_insert s tr x = Some (Inr (s1, root_of (insd (size t) x t)))"
    "avl_ok s1 (root_of (insd (size t) x t)) (insd (size t) x t)"
    using avl_insert_ok [OF Cons.prems(1), of x] Cons.prems(2) by (auto simp: t simp del: root_of_ins)
  have "length s1 = Suc (length s)" using s1(2) t by (simp add: avl_ok_def size_insd)
  then show ?case
    using Cons.IH [OF s1(2)] Cons.prems(2) s1(1) by (simp del: root_of_ins)
qed


section \<open>Order and output\<close>

definition elems :: "atree \<Rightarrow> int list" where
  "elems t = map (\<lambda>(b, x, d). x) (inorder t)"

lemma elems_simps [simp]:
  "elems Leaf = []" "elems (Node l (b, x, d) r) = elems l @ x # elems r"
  by (simp_all add: elems_def)

lemma mset_elems_insd [simp]: "mset (elems (insd a e t)) = add_mset e (mset (elems t))"
  by (induction a e t rule: insd.induct) (simp_all add: Let_def)

lemma set_elems_insd [simp]: "set (elems (insd a e t)) = insert e (set (elems t))"
  by (simp flip: set_mset_mset)

lemma sorted_elems_insd: "sorted (elems t) \<Longrightarrow> sorted (elems (insd a e t))"
  by (induction a e t rule: insd.induct) (auto simp: Let_def sorted_append)

lemma grow_elems: "sorted (elems t) \<Longrightarrow> elems (grow t xs) = sort (elems t @ xs)"
proof -
  assume "sorted (elems t)"
  moreover have "mset (elems (grow t xs)) = mset (elems t @ xs)"
    by (induction t xs rule: grow.induct) simp_all
  moreover have "sorted (elems t) \<Longrightarrow> sorted (elems (grow t xs))"
    by (induction t xs rule: grow.induct) (simp_all add: sorted_elems_insd)
  ultimately show ?thesis by (metis properties_for_sort)
qed

definition show_label :: "nat \<times> int \<times> int \<Rightarrow> string" where
  "show_label v = show_int (fst (snd v)) @ ''('' @ show_int (snd (snd v)) @ ''),''"

lemma traversals:
  "rep s par t \<Longrightarrow>
   plr_sort s (root_of t) = Some (Inr (concat (map show_label (preorder t)))) \<and>
   lpr_sort s (root_of t) = Some (Inr (concat (map show_label (inorder t)))) \<and>
   lrp_sort s (root_of t) = Some (Inr (concat (map show_label (postorder t))))"
proof (induction s par t rule: rep.induct)
  case (2 s par l b x d r)
  then show ?case
    by (simp add: plr_sort.simps [of s "Some b"] lpr_sort.simps [of s "Some b"]
        lrp_sort.simps [of s "Some b"] node_display_def show_label_def)
qed (simp add: plr_sort.simps lpr_sort.simps lrp_sort.simps)

lemma display_tree_ok:
  "rep s par t \<Longrightarrow> display_tree s (root_of t) = Some (Inr (
     heading_plr @ concat (map show_label (preorder t)) @
     heading_lpr @ concat (map show_label (inorder t)) @
     heading_lrp @ concat (map show_label (postorder t)) @ endl))"
  using traversals [of s par t] by (simp add: display_tree_def)

text \<open>The output of \<open>test_AVLTree\<close>.\<close>

lemma test_AVLTree_output:
  "test_AVLTree = Some (Inr (
     heading_plr @ ''50(4),30(3),10(2),20(1),40(1),80(3),70(2),60(1),90(1),'' @
     heading_lpr @ ''10(2),20(1),30(3),40(1),50(4),60(1),70(2),80(3),90(1),'' @
     heading_lrp @ ''20(1),10(2),40(1),30(3),60(1),70(2),90(1),80(3),50(4),'' @ endl))"
proof -
  let ?t = "grow Leaf [50, 80, 70, 30, 10, 20, 40, 90, 60]"
  obtain s where s: "run_inserts [50, 80, 70, 30, 10, 20, 40, 90, 60] ([], None) =
      Some (Inr (s, root_of ?t))" "rep s None ?t"
    using run_inserts_ok [OF avl_ok_empty, of "[50, 80, 70, 30, 10, 20, 40, 90, 60]"]
    by (auto simp: INT_MAX_def avl_ok_def simp del: grow.simps)
  have "concat (map show_label (preorder ?t)) =
      ''50(4),30(3),10(2),20(1),40(1),80(3),70(2),60(1),90(1),''"
    "concat (map show_label (inorder ?t)) =
      ''10(2),20(1),30(3),40(1),50(4),60(1),70(2),80(3),90(1),''"
    "concat (map show_label (postorder ?t)) =
      ''20(1),10(2),40(1),30(3),60(1),70(2),90(1),80(3),50(4),''"
    by code_simp+
  then show ?thesis
    unfolding test_AVLTree_def s(1) by (simp only: bindO_simps case_prod_conv display_tree_ok [OF s(2)])
qed

text \<open>A tree without left subtrees, as deep as it has nodes.\<close>

fun chain :: "atree \<Rightarrow> bool" where
  "chain Leaf \<longleftrightarrow> True"
| "chain (Node l v r) \<longleftrightarrow> l = Leaf \<and> chain r"

lemma chain_insd: "chain t \<Longrightarrow> \<forall>x \<in> set (elems t). x < e \<Longrightarrow> chain (insd a e t)"
  by (induction a e t rule: insd.induct) (auto simp: Let_def)

lemma elems_insd_last: "\<forall>y \<in> set (elems t). y < e \<Longrightarrow> elems (insd a e t) = elems t @ [e]"
  by (induction a e t rule: insd.induct) (auto simp: Let_def)

lemma chain_height: "chain t \<Longrightarrow> height t = size t"
  by (induction t rule: chain.induct) auto

lemma chain_grow:
  "chain t \<Longrightarrow> sorted_wrt (<) (elems t @ xs) \<Longrightarrow>
   chain (grow t xs) \<and> size (grow t xs) = size t + length xs"
proof (induction t xs rule: grow.induct)
  case (2 t x xs)
  have lt: "\<forall>y \<in> set (elems t). y < x" using "2.prems"(2) by (auto simp: sorted_wrt_append)
  have "elems (insd (size t) x t) = elems t @ [x]"
    using lt by (rule elems_insd_last)
  then show ?case
    using 2 chain_insd [OF "2.prems"(1) lt] by (simp add: size_insd)
qed simp


section \<open>Properties\<close>

text \<open>
  C10: any run of insertions into an empty tree returns. It leaves a well-formed binary
  tree: linked in both directions, every stored depth the depth of its subtree, the
  elements in order; and the in-order traversal prints them in ascending order.
\<close>

theorem insertions_sort:
  assumes "int (length xs) \<le> INT_MAX"
  shows "\<exists>s t. run_inserts xs ([], None) = Some (Inr (s, root_of t)) \<and>
    rep s None t \<and> disj t \<and> deps_ok t \<and> elems t = sort xs \<and>
    lpr_sort s (root_of t) = Some (Inr (concat (map show_label (inorder t))))"
proof -
  obtain s where "run_inserts xs ([], None) = Some (Inr (s, root_of (grow Leaf xs)))"
    "avl_ok s (root_of (grow Leaf xs)) (grow Leaf xs)"
    using run_inserts_ok [OF avl_ok_empty, of xs] assms by auto
  then show ?thesis
    using grow_elems [of Leaf xs] traversals
    by (intro exI [of _ s] exI [of _ "grow Leaf xs"]) (auto simp: avl_ok_def)
qed

theorem insertions_sort_witness:
  "\<exists>s t. run_inserts [2, 3, 1, 2] ([], None) = Some (Inr (s, root_of t)) \<and> elems t = [1, 2, 2, 3]"
  using insertions_sort [of "[2, 3, 1, 2]"] by (auto simp: INT_MAX_def)

text \<open>
  The tree is not an AVL tree. \<open>recover_avl\<close> changes no link, so ascending keys make a
  chain: the depth of the root is the number of keys.
\<close>

theorem ascending_keys_make_a_chain:
  assumes "int (length xs) \<le> INT_MAX" and "sorted_wrt (<) xs"
  shows "\<exists>s tr. run_inserts xs ([], None) = Some (Inr (s, tr)) \<and>
    getdepth s tr = Inr (int (length xs))"
proof -
  obtain s where s: "run_inserts xs ([], None) = Some (Inr (s, root_of (grow Leaf xs)))"
    "avl_ok s (root_of (grow Leaf xs)) (grow Leaf xs)"
    using run_inserts_ok [OF avl_ok_empty, of xs] assms by auto
  have "chain (grow Leaf xs) \<and> size (grow Leaf xs) = length xs"
    using chain_grow [of Leaf xs] assms by simp
  then have "dep (grow Leaf xs) = int (length xs)"
    using s(2) by (simp add: avl_ok_def deps_ok_height chain_height)
  then show ?thesis using s getdepth_rep by (auto simp: avl_ok_def)
qed

theorem ascending_keys_make_a_chain_witness:
  "\<exists>s tr. run_inserts [1, 2, 3, 4, 5] ([], None) = Some (Inr (s, tr)) \<and> getdepth s tr = Inr 5"
  using ascending_keys_make_a_chain [of "[1, 2, 3, 4, 5]"] by (simp add: INT_MAX_def)

end
