(* ===== verification/LinkedList.thy ===== *)
theory LinkedList
  imports Prelude
begin

text \<open>
  The intrusive doubly linked lists of \<^verbatim>\<open>src/temp/pthread_pool.cpp\<close>: the macros \<open>LIST_ADD\<close>
  and \<open>LIST_REMOVE\<close>, on a memory that maps the address of an allocated item to its links
  and its other fields. Both macros serve the jobs and the workers of the pool, so the
  other fields are a type parameter.
\<close>

section \<open>The macros\<close>

type_synonym pointer = "nat option"

record 'a linked =
  prev :: pointer
  next_item :: pointer
  payload :: 'a

type_synonym 'a memory = "nat \<Rightarrow> 'a linked option"

definition get_item :: "'a memory \<Rightarrow> pointer \<Rightarrow> 'a linked res" where
  "get_item m p =
     (case p of None \<Rightarrow> Inl NullDeref
      | Some a \<Rightarrow> (case m a of None \<Rightarrow> Inl Dangling | Some it \<Rightarrow> Inr it))"

definition set_item :: "'a memory \<Rightarrow> pointer \<Rightarrow> ('a linked \<Rightarrow> 'a linked) \<Rightarrow> 'a memory res" where
  "set_item m p f =
     (case p of None \<Rightarrow> Inl NullDeref
      | Some a \<Rightarrow> (case m a of None \<Rightarrow> Inl Dangling | Some it \<Rightarrow> Inr (m(a \<mapsto> f it))))"

definition LIST_ADD :: "'a memory \<Rightarrow> pointer \<Rightarrow> pointer \<Rightarrow> ('a memory \<times> pointer) res" where
  "LIST_ADD m item list =
     bindE (set_item m item (\<lambda>it. it\<lparr>prev := None\<rparr>)) (\<lambda>m1.
     bindE (set_item m1 item (\<lambda>it. it\<lparr>next_item := list\<rparr>)) (\<lambda>m2.
     bindE (if list \<noteq> None then set_item m2 list (\<lambda>it. it\<lparr>prev := item\<rparr>) else Inr m2) (\<lambda>m3.
       Inr (m3, item))))"

definition LIST_REMOVE :: "'a memory \<Rightarrow> pointer \<Rightarrow> pointer \<Rightarrow> ('a memory \<times> pointer) res" where
  "LIST_REMOVE m item list =
     bindE (get_item m item) (\<lambda>it.
     bindE (if prev it \<noteq> None
            then set_item m (prev it) (\<lambda>p. p\<lparr>next_item := next_item it\<rparr>) else Inr m) (\<lambda>m1.
     bindE (get_item m1 item) (\<lambda>it1.
     bindE (if next_item it1 \<noteq> None
            then set_item m1 (next_item it1) (\<lambda>n. n\<lparr>prev := prev it1\<rparr>) else Inr m1) (\<lambda>m2.
     bindE (get_item m2 item) (\<lambda>it2.
     let list' = (if item = list then next_item it2 else list) in
     bindE (set_item m2 item (\<lambda>it. it\<lparr>prev := None, next_item := None\<rparr>)) (\<lambda>m3.
       Inr (m3, list')))))))"


section \<open>The list a memory holds\<close>

text \<open>
  \<open>dseg m p xs n\<close>: the items \<open>xs\<close> are chained in both directions, between the items \<open>p\<close>
  and \<open>n\<close>. The pointer to a list is \<open>first xs None\<close>.
\<close>

definition first :: "nat list \<Rightarrow> pointer \<Rightarrow> pointer" where
  "first xs n = (case xs of [] \<Rightarrow> n | a # _ \<Rightarrow> Some a)"

definition final :: "pointer \<Rightarrow> nat list \<Rightarrow> pointer" where
  "final p xs = (if xs = [] then p else Some (last xs))"

lemma first_simps [simp]: "first [] n = n" "first (a # xs) n = Some a"
  "first (xs @ ys) n = first xs (first ys n)"
  by (simp_all add: first_def split: list.splits)

lemma final_simps [simp]: "final p [] = p" "final p (xs @ [a]) = Some a"
  "final p (a # xs) = final (Some a) xs" "final p (xs @ ys) = final (final p xs) ys"
  by (simp_all add: final_def)

fun dseg :: "'a memory \<Rightarrow> pointer \<Rightarrow> nat list \<Rightarrow> pointer \<Rightarrow> bool" where
  "dseg m p [] n \<longleftrightarrow> True"
| "dseg m p (a # xs) n \<longleftrightarrow>
     (\<exists>it. m a = Some it \<and> prev it = p \<and> next_item it = first xs n) \<and> dseg m (Some a) xs n"

lemma dseg_append [simp]:
  "dseg m p (xs @ ys) n \<longleftrightarrow> dseg m p xs (first ys n) \<and> dseg m (final p xs) ys n"
  by (induction m p xs n rule: dseg.induct) (auto simp: final_def)

lemma dseg_upd [simp]: "a \<notin> set xs \<Longrightarrow> dseg (m(a := v)) p xs n = dseg m p xs n"
  by (induction m p xs n rule: dseg.induct) auto

lemma dseg_dom: "dseg m p xs n \<Longrightarrow> set xs \<subseteq> dom m"
  by (induction m p xs n rule: dseg.induct) (auto split: option.splits)

definition dlist :: "'a memory \<Rightarrow> pointer \<Rightarrow> nat list \<Rightarrow> bool" where
  "dlist m p xs \<longleftrightarrow> p = first xs None \<and> distinct xs \<and> dseg m None xs None"

text \<open>Neither macro changes the other fields of any item, nor allocates or frees one.\<close>

definition same_fields :: "'a memory \<Rightarrow> 'a memory \<Rightarrow> bool" where
  "same_fields m m' \<longleftrightarrow> (\<forall>a. map_option payload (m' a) = map_option payload (m a))"

lemma same_fields_dom: "same_fields m m' \<Longrightarrow> dom m' = dom m"
  unfolding same_fields_def dom_def by (metis option.map_disc_iff)

lemma dlist_empty: "dlist m None xs \<longleftrightarrow> xs = []"
  by (cases xs) (auto simp: dlist_def)

lemma dlist_head: "dlist m (Some a) xs \<Longrightarrow> \<exists>ys. xs = a # ys"
  by (cases xs) (auto simp: dlist_def)

lemma dlist_dom: "dlist m p xs \<Longrightarrow> set xs \<subseteq> dom m"
  unfolding dlist_def using dseg_dom by blast

lemma dlist_free:
  "dlist m p xs \<Longrightarrow> a \<notin> set xs \<Longrightarrow> dlist (m(a := v)) p xs"
  by (simp add: dlist_def)

text \<open>
  \<open>LIST_ADD\<close> of an allocated item that is not in the list puts it in front.
\<close>

lemma LIST_ADD_ok:
  assumes "dlist m p xs" "a \<in> dom m" "a \<notin> set xs"
  shows "\<exists>m'. LIST_ADD m (Some a) p = Inr (m', Some a) \<and> dlist m' (Some a) (a # xs) \<and> same_fields m m'"
proof -
  obtain it where it: "m a = Some it" using assms(2) by auto
  show ?thesis
  proof (cases xs)
    case Nil
    then show ?thesis
      using assms it by (auto simp: LIST_ADD_def set_item_def dlist_def same_fields_def)
  next
    case (Cons b ys)
    then obtain ib where "m b = Some ib" "prev ib = None" "next_item ib = first ys None"
      "dseg m (Some b) ys None" "b \<notin> set ys" "distinct ys" "p = Some b" "a \<noteq> b" "a \<notin> set ys"
      using assms by (auto simp: dlist_def split: option.splits)
    then show ?thesis
      using it Cons by (auto simp: LIST_ADD_def set_item_def dlist_def same_fields_def)
  qed
qed

text \<open>\<open>LIST_REMOVE\<close> of any item of the list takes exactly that item out.\<close>

lemma LIST_REMOVE_ok:
  assumes "dlist m p (xs @ a # ys)"
  shows "\<exists>m'. LIST_REMOVE m (Some a) p = Inr (m', first (xs @ ys) None) \<and>
    dlist m' (first (xs @ ys) None) (xs @ ys) \<and> same_fields m m'"
proof -
  obtain it where it: "m a = Some it" "prev it = final None xs" "next_item it = first ys None"
    using assms by (auto simp: dlist_def split: option.splits)
  have d: "distinct (xs @ a # ys)" "dseg m None xs (Some a)" "dseg m (Some a) ys None"
    "p = first xs (Some a)" using assms by (auto simp: dlist_def)
  have p: "Some a = p \<longleftrightarrow> xs = []" using d(1,4) by (cases xs) auto
  consider "xs = []" "ys = []" | c ys' where "xs = []" "ys = c # ys'"
    | xs' b where "xs = xs' @ [b]" "ys = []" | xs' b c ys' where "xs = xs' @ [b]" "ys = c # ys'"
    by (cases xs rule: rev_cases; cases ys) auto
  then show ?thesis
    by cases (use it d p in \<open>auto simp: LIST_REMOVE_def get_item_def set_item_def dlist_def
      same_fields_def Let_def\<close>)
qed


section \<open>The interface the pool uses\<close>

text \<open>
  A list of allocated items with insertion in front and removal of any member, where
  neither operation touches what the client keeps in the items.
\<close>

locale intrusive_list =
  fixes holds :: "'m \<Rightarrow> pointer \<Rightarrow> nat list \<Rightarrow> bool"
    and add :: "'m \<Rightarrow> pointer \<Rightarrow> pointer \<Rightarrow> ('m \<times> pointer) res"
    and remove :: "'m \<Rightarrow> pointer \<Rightarrow> pointer \<Rightarrow> ('m \<times> pointer) res"
    and same :: "'m \<Rightarrow> 'm \<Rightarrow> bool"
    and alloc :: "'m \<Rightarrow> nat set"
  assumes add_ok: "\<And>m p xs a. holds m p xs \<Longrightarrow> a \<in> alloc m \<Longrightarrow> a \<notin> set xs \<Longrightarrow>
      \<exists>m'. add m (Some a) p = Inr (m', Some a) \<and> holds m' (Some a) (a # xs) \<and> same m m'"
    and remove_ok: "\<And>m p xs a ys. holds m p (xs @ a # ys) \<Longrightarrow>
      \<exists>m' p'. remove m (Some a) p = Inr (m', p') \<and> holds m' p' (xs @ ys) \<and> same m m'"
    and head: "\<And>m a xs. holds m (Some a) xs \<Longrightarrow> \<exists>ys. xs = a # ys"
    and null: "\<And>m xs. holds m None xs \<longleftrightarrow> xs = []"
    and same_alloc: "\<And>m m'. same m m' \<Longrightarrow> alloc m' = alloc m"
    and same_trans: "\<And>m m' m''. same m m' \<Longrightarrow> same m' m'' \<Longrightarrow> same m m''"
begin

lemma push:
  assumes "holds m p xs" "a \<in> alloc m" "a \<notin> set xs"
  obtains m' where "add m (Some a) p = Inr (m', Some a)" "holds m' (Some a) (a # xs)" "same m m'"
  using add_ok [OF assms] by blast

lemma take_head:
  assumes "holds m (Some a) xs"
  obtains m' p' ys where "xs = a # ys" "remove m (Some a) (Some a) = Inr (m', p')"
    "holds m' p' ys" "same m m'"
  using head [OF assms] remove_ok [of m "Some a" "[]" a] assms by fastforce

text \<open>Taken from the front, the items come out in the reverse order of their insertion.\<close>

lemma push_then_take:
  assumes "holds m p xs" "a \<in> alloc m" "a \<notin> set xs"
  shows "\<exists>m' m'' p''. add m (Some a) p = Inr (m', Some a) \<and>
    remove m' (Some a) (Some a) = Inr (m'', p'') \<and> holds m'' p'' xs \<and> same m m''"
proof -
  obtain m' where m': "add m (Some a) p = Inr (m', Some a)" "holds m' (Some a) (a # xs)" "same m m'"
    using assms by (rule push)
  then obtain m'' p'' ys where "a # xs = a # ys" "remove m' (Some a) (Some a) = Inr (m'', p'')"
    "holds m'' p'' ys" "same m' m''" using take_head by blast
  then show ?thesis using m' same_trans by blast
qed

end

lemma same_fields_trans: "same_fields m m' \<Longrightarrow> same_fields m' m'' \<Longrightarrow> same_fields m m''"
  by (simp add: same_fields_def)

interpretation links: intrusive_list dlist LIST_ADD LIST_REMOVE same_fields dom
proof unfold_locales
  fix m :: "'a memory" and p xs a ys
  show "dlist m p xs \<Longrightarrow> a \<in> dom m \<Longrightarrow> a \<notin> set xs \<Longrightarrow>
      \<exists>m'. LIST_ADD m (Some a) p = Inr (m', Some a) \<and> dlist m' (Some a) (a # xs) \<and> same_fields m m'"
    by (rule LIST_ADD_ok)
  show "dlist m p (xs @ a # ys) \<Longrightarrow>
      \<exists>m' p'. LIST_REMOVE m (Some a) p = Inr (m', p') \<and> dlist m' p' (xs @ ys) \<and> same_fields m m'"
    using LIST_REMOVE_ok by blast
  show "same_fields m m' \<Longrightarrow> dom m' = dom m" for m'
    by (rule same_fields_dom)
qed (auto simp: dlist_empty dest: dlist_head same_fields_trans)

end
