(* ===== verification/StepSystem.thy ===== *)
theory StepSystem
  imports Prelude
begin

text \<open>
  The interface between a concurrent program and its proofs: a partial step function on
  events (\<open>None\<close> when the event cannot happen), and the states reachable by its defined
  steps. An invariant holds in every reachable state, a schedule that runs reaches its
  last state.
\<close>

fun run_events :: "('e \<Rightarrow> 's \<Rightarrow> 's res option) \<Rightarrow> 'e list \<Rightarrow> 's \<Rightarrow> 's option" where
  "run_events step [] s = Some s"
| "run_events step (e # es) s =
     (case step e s of Some (Inr s') \<Rightarrow> run_events step es s' | _ \<Rightarrow> None)"

lemma run_events_Cons:
  "run_events step (e # es) s = Some t \<longleftrightarrow>
   (\<exists>s'. step e s = Some (Inr s') \<and> run_events step es s' = Some t)"
  by (auto split: option.splits sum.splits)

lemma run_events_append:
  "run_events step (es @ fs) s = Some t \<longleftrightarrow>
   (\<exists>s'. run_events step es s = Some s' \<and> run_events step fs s' = Some t)"
  by (induction step es s rule: run_events.induct) (auto split: option.splits sum.splits)

locale step_system =
  fixes step :: "'e \<Rightarrow> 's \<Rightarrow> 's res option"
    and reach :: "'s \<Rightarrow> bool"
    and start :: 's
  assumes reach_start: "reach start"
    and reach_step: "\<And>s e s'. reach s \<Longrightarrow> step e s = Some (Inr s') \<Longrightarrow> reach s'"
    and reach_least: "\<And>s P. reach s \<Longrightarrow> P start \<Longrightarrow>
      (\<And>s e s'. P s \<Longrightarrow> step e s = Some (Inr s') \<Longrightarrow> P s') \<Longrightarrow> P s"
begin

lemma run_reach: "reach s \<Longrightarrow> run_events step es s = Some s' \<Longrightarrow> reach s'"
proof (induction es arbitrary: s)
  case (Cons e es)
  then show ?case using reach_step by (auto simp: run_events_Cons simp del: run_events.simps)
qed simp

lemma schedule_reach: "run_events step es start = Some s \<Longrightarrow> reach s"
  by (rule run_reach [OF reach_start])

lemma invariant:
  assumes "reach s" and "I start"
    and "\<And>s e s'. I s \<Longrightarrow> step e s = Some (Inr s') \<Longrightarrow> I s'"
  shows "I s"
  using assms by (rule reach_least)

end

end
