(* ===== verification/ThreadPool.thy ===== *)
theory ThreadPool
  imports LinkedList StepSystem
begin

text \<open>
  The thread pool of \<^verbatim>\<open>src/temp/pthread_pool.cpp\<close> with its client: a step relation over the
  main thread and the workers. What the scheduler, \<open>malloc\<close> and \<open>pthread_create\<close> decide
  is in the events: which thread moves, the address of a new block (any address that is
  not in use) or NULL, and which blocked worker a signal wakes. A critical section of the
  main thread, and the work of a thread that touches nothing shared, is one step.
\<close>

section \<open>State\<close>

text \<open>
  A job carries the integer its \<open>data\<close> points at: that block is reachable from the job only
  and is freed with it. Its callback is always \<open>myCbFun\<close>. A worker carries \<open>terminate\<close>.
\<close>

datatype worker_pc =
    Fetch              \<comment> \<open>about to lock \<open>jobs_mtx\<close> at the top of the loop\<close>
  | Holding            \<comment> \<open>holds the mutex, at the test of the inner loop\<close>
  | Blocked            \<comment> \<open>in \<open>pthread_cond_wait\<close>\<close>
  | Signalled          \<comment> \<open>woken, about to take the mutex back\<close>
  | Running nat        \<comment> \<open>about to call the callback of this job\<close>
  | Gone               \<comment> \<open>after \<open>free(worker)\<close> and \<open>pthread_exit\<close>\<close>

datatype main_pc =
    Creating nat       \<comment> \<open>in \<open>createPool\<close>, with this many workers still to create\<close>
  | Adding nat         \<comment> \<open>in the loop of \<open>main\<close>, at this \<open>i\<close>\<close>
  | AtGetchar
  | Returned int       \<comment> \<open>\<open>main\<close> has returned: the process is gone\<close>

record thread =
  worker :: nat
  pc :: worker_pc

record nWorkerManager =
  jobs_mem :: "int memory"
  jobs :: pointer
  workers_mem :: "int memory"
  workers :: pointer
  owner :: "nat option"
  threads :: "thread list"
  main_at :: main_pc
  printed :: "(nat \<times> int) list"

definition WORKER_SIZE :: int where "WORKER_SIZE = 10"

definition JOB_SIZE :: nat where "JOB_SIZE = 1000"

text \<open>\<open>createPool\<close>, as far as its loop: the pool is zeroed, the mutex is free.\<close>

definition createPool :: "int \<Rightarrow> nWorkerManager" where
  "createPool pool_size =
     (let n = (if pool_size < 1 then 1 else pool_size) in
      \<lparr>jobs_mem = Map.empty, jobs = None, workers_mem = Map.empty, workers = None,
       owner = None, threads = [], main_at = Creating (nat n), printed = []\<rparr>)"


section \<open>Steps\<close>

datatype event =
    NewWorker pointer bool            \<comment> \<open>\<open>malloc\<close>'s result; did \<open>pthread_create\<close> succeed\<close>
  | NewJob pointer bool pointer       \<comment> \<open>\<open>malloc\<close> of the job; of its data; the worker a signal wakes\<close>
  | Getchar
  | Lock nat
  | Test nat
  | RunJob nat
  | Spurious nat                      \<comment> \<open>a wake-up without a signal, which POSIX allows\<close>

definition at :: "nWorkerManager \<Rightarrow> nat \<Rightarrow> worker_pc \<Rightarrow> bool" where
  "at s k p \<longleftrightarrow> k < length (threads s) \<and> pc (threads s ! k) = p"

definition goto :: "nat \<Rightarrow> worker_pc \<Rightarrow> nWorkerManager \<Rightarrow> nWorkerManager" where
  "goto k p s = s\<lparr>threads := (threads s)[k := (threads s ! k)\<lparr>pc := p\<rparr>]\<rparr>"

text \<open>A signal wakes one blocked worker if there is one.\<close>

definition signal_ok :: "nWorkerManager \<Rightarrow> pointer \<Rightarrow> bool" where
  "signal_ok s w =
     (case w of None \<Rightarrow> \<not> list_ex (\<lambda>t. pc t = Blocked) (threads s) | Some k \<Rightarrow> at s k Blocked)"

definition wake :: "pointer \<Rightarrow> nWorkerManager \<Rightarrow> nWorkerManager" where
  "wake w s = (case w of None \<Rightarrow> s | Some k \<Rightarrow> goto k Signalled s)"

text \<open>
  One turn of the loop of \<open>createPool\<close>. Only the first word of the worker is zeroed; the
  links are assigned by \<open>LIST_ADD\<close> before anybody reads them. When it fails, \<open>main\<close>
  returns 1.
\<close>

definition new_worker :: "nat \<Rightarrow> pointer \<Rightarrow> bool \<Rightarrow> nWorkerManager \<Rightarrow> nWorkerManager res" where
  "new_worker n mem created s =
     (case mem of
        None \<Rightarrow> Inr (s\<lparr>main_at := Returned 1\<rparr>)
      | Some a \<Rightarrow>
          if \<not> created then Inr (s\<lparr>main_at := Returned 1\<rparr>)
          else bindE (LIST_ADD ((workers_mem s)(a \<mapsto> \<lparr>prev = None, next_item = None, payload = 0\<rparr>))
                       mem (workers s)) (\<lambda>(m, l).
            Inr (s\<lparr>workers_mem := m, workers := l,
              threads := threads s @ [\<lparr>worker = a, pc = Fetch\<rparr>],
              main_at := (if n = 1 then Adding 0 else Creating (n - 1))\<rparr>)))"

text \<open>\<open>addJobToPool\<close>, run with the mutex free.\<close>

definition addJobToPool :: "nat \<Rightarrow> pointer \<Rightarrow> nWorkerManager \<Rightarrow> nWorkerManager res" where
  "addJobToPool a w s =
     bindE (LIST_ADD (jobs_mem s) (Some a) (jobs s)) (\<lambda>(m, l).
       Inr (wake w (s\<lparr>jobs_mem := m, jobs := l\<rparr>)))"

text \<open>One turn of the loop of \<open>main\<close>. The result of the second \<open>malloc\<close> is not checked.\<close>

definition new_job :: "nat \<Rightarrow> pointer \<Rightarrow> bool \<Rightarrow> pointer \<Rightarrow> nWorkerManager \<Rightarrow> nWorkerManager res" where
  "new_job i mem got_data w s =
     (case mem of
        None \<Rightarrow> Inr (s\<lparr>main_at := Returned 1\<rparr>)
      | Some a \<Rightarrow>
          if \<not> got_data then Inl NullDeref
          else bindE (addJobToPool a w (s\<lparr>jobs_mem := (jobs_mem s)
                   (a \<mapsto> \<lparr>prev = None, next_item = None, payload = int i\<rparr>)\<rparr>)) (\<lambda>s1.
            Inr (s1\<lparr>main_at := (if i + 1 < JOB_SIZE then Adding (i + 1) else AtGetchar)\<rparr>)))"

text \<open>
  A worker that holds the mutex: the test of the inner loop, and what follows it. To wait
  and to leave with a job both release the mutex.
\<close>

definition leave :: "nat \<Rightarrow> nWorkerManager \<Rightarrow> nWorkerManager" where
  "leave k s = goto k Gone (s\<lparr>owner := None,
     workers_mem := (workers_mem s)(worker (threads s ! k) := None)\<rparr>)"

definition workThread_test :: "nat \<Rightarrow> nWorkerManager \<Rightarrow> nWorkerManager res" where
  "workThread_test k s =
     bindE (get_item (workers_mem s) (Some (worker (threads s ! k)))) (\<lambda>w.
       if jobs s = None \<and> payload w = 0 then Inr (goto k Blocked (s\<lparr>owner := None\<rparr>))
       else if payload w \<noteq> 0 then Inr (leave k s)
       else bindE (LIST_REMOVE (jobs_mem s) (jobs s) (jobs s)) (\<lambda>(m, l).
              Inr (goto k (Running (the (jobs s))) (s\<lparr>jobs_mem := m, jobs := l, owner := None\<rparr>))))"

text \<open>\<open>job->cb_fun(job)\<close> with \<open>myCbFun\<close>: print the number, then free both blocks.\<close>

definition myCbFun :: "nat \<Rightarrow> nat \<Rightarrow> nWorkerManager \<Rightarrow> nWorkerManager res" where
  "myCbFun k a s =
     bindE (get_item (jobs_mem s) (Some a)) (\<lambda>job.
       Inr (goto k Fetch (s\<lparr>printed := printed s @ [(k, payload job)],
                            jobs_mem := (jobs_mem s)(a := None)\<rparr>)))"

text \<open>A new block lies where no block is in use.\<close>

definition fresh :: "nWorkerManager \<Rightarrow> pointer \<Rightarrow> bool" where
  "fresh s mem = (case mem of None \<Rightarrow> True | Some a \<Rightarrow> jobs_mem s a = None \<and> workers_mem s a = None)"

text \<open>The step of an event; \<open>None\<close> when the event cannot happen in this state.\<close>

fun pool_step :: "event \<Rightarrow> nWorkerManager \<Rightarrow> nWorkerManager res option" where
  "pool_step (NewWorker mem created) s =
     (case main_at s of
        Creating n \<Rightarrow> if fresh s mem then Some (new_worker n mem created s) else None
      | _ \<Rightarrow> None)"
| "pool_step (NewJob mem got_data w) s =
     (case main_at s of
        Adding i \<Rightarrow> if fresh s mem \<and> (mem = None \<or> \<not> got_data \<or> owner s = None \<and> signal_ok s w)
                    then Some (new_job i mem got_data w s) else None
      | _ \<Rightarrow> None)"
| "pool_step Getchar s =
     (if main_at s = AtGetchar then Some (Inr (s\<lparr>main_at := Returned 0\<rparr>)) else None)"
| "pool_step (Lock k) s =
     (case main_at s of Returned _ \<Rightarrow> None
      | _ \<Rightarrow> if (at s k Fetch \<or> at s k Signalled) \<and> owner s = None
             then Some (Inr (goto k Holding (s\<lparr>owner := Some k\<rparr>))) else None)"
| "pool_step (Test k) s =
     (case main_at s of Returned _ \<Rightarrow> None
      | _ \<Rightarrow> if at s k Holding then Some (workThread_test k s) else None)"
| "pool_step (RunJob k) s =
     (case main_at s of Returned _ \<Rightarrow> None
      | _ \<Rightarrow> if k < length (threads s)
             then (case pc (threads s ! k) of Running a \<Rightarrow> Some (myCbFun k a s) | _ \<Rightarrow> None)
             else None)"
| "pool_step (Spurious k) s =
     (case main_at s of Returned _ \<Rightarrow> None
      | _ \<Rightarrow> if at s k Blocked then Some (Inr (goto k Signalled s)) else None)"

text \<open>The states of a run of \<open>main\<close>.\<close>

inductive pool_reach :: "nWorkerManager \<Rightarrow> bool" where
  start: "pool_reach (createPool WORKER_SIZE)"
| step: "pool_reach s \<Longrightarrow> pool_step e s = Some (Inr s') \<Longrightarrow> pool_reach s'"

interpretation pool: step_system pool_step pool_reach "createPool WORKER_SIZE"
  by unfold_locales (auto intro: pool_reach.intros elim: pool_reach.induct)


section \<open>Invariants\<close>

text \<open>The job a thread has taken out of the list and not yet freed.\<close>

definition held :: "thread \<Rightarrow> nat multiset" where
  "held t = (case pc t of Running a \<Rightarrow> {#a#} | _ \<Rightarrow> {#})"

definition running :: "thread list \<Rightarrow> nat multiset" where
  "running ts = sum_list (map held ts)"

lemma running_simps [simp]: "running [] = {#}" "running (t # ts) = held t + running ts"
  "running (ts @ us) = running ts + running us"
  by (simp_all add: running_def)

lemma running_upd: "k < length ts \<Longrightarrow> running (ts[k := t]) + held (ts ! k) = running ts + held t"
  by (induction ts arbitrary: k) (auto simp: nth_Cons ac_simps split: nat.splits)

lemma held_le_running: "k < length ts \<Longrightarrow> held (ts ! k) \<subseteq># running ts"
  by (induction ts arbitrary: k) (auto simp: nth_Cons subset_mset.add_increasing subset_mset.add_increasing2
      split: nat.splits)

lemma held_simps [simp]: "held (t\<lparr>pc := Running a\<rparr>) = {#a#}"
  "(\<And>a. p \<noteq> Running a) \<Longrightarrow> held (t\<lparr>pc := p\<rparr>) = {#}"
  by (auto simp: held_def split: worker_pc.splits)

text \<open>
  The allocated jobs are those in the list and those the workers hold, each once; the
  numbers in them and the printed ones are the numbers added so far.
\<close>

definition job_inv :: "nWorkerManager \<Rightarrow> bool" where
  "job_inv s \<longleftrightarrow> (\<exists>js. dlist (jobs_mem s) (jobs s) js \<and> finite (dom (jobs_mem s)) \<and>
     mset_set (dom (jobs_mem s)) = mset js + running (threads s))"

definition jobval :: "int memory \<Rightarrow> nat \<Rightarrow> int" where
  "jobval m a = (case m a of None \<Rightarrow> 0 | Some it \<Rightarrow> payload it)"

definition added :: "nWorkerManager \<Rightarrow> nat \<Rightarrow> bool" where
  "added s n \<longleftrightarrow> n \<le> JOB_SIZE \<and>
     (case main_at s of Creating _ \<Rightarrow> n = 0 | Adding i \<Rightarrow> n = i \<and> i < JOB_SIZE
      | AtGetchar \<Rightarrow> n = JOB_SIZE | Returned r \<Rightarrow> r = 0 \<longrightarrow> n = JOB_SIZE)"

definition value_inv :: "nWorkerManager \<Rightarrow> bool" where
  "value_inv s \<longleftrightarrow> (\<exists>n. added s n \<and>
     image_mset (jobval (jobs_mem s)) (mset_set (dom (jobs_mem s))) + mset (map snd (printed s)) =
     mset (map int [0..<n]))"

text \<open>The workers are allocated, linked, alive, and not asked to terminate.\<close>

definition worker_inv :: "nWorkerManager \<Rightarrow> bool" where
  "worker_inv s \<longleftrightarrow> (\<exists>ws. dlist (workers_mem s) (workers s) ws) \<and>
     (\<forall>t \<in> set (threads s). (\<exists>it. workers_mem s (worker t) = Some it \<and> payload it = 0) \<and> pc t \<noteq> Gone)"

text \<open>The mutex: its owner, and nobody else, is in the critical section.\<close>

definition lock_inv :: "nWorkerManager \<Rightarrow> bool" where
  "lock_inv s \<longleftrightarrow> (\<forall>k. owner s = Some k \<longleftrightarrow> at s k Holding)"

text \<open>While there are jobs somebody is awake; after the creation there are workers.\<close>

definition wake_inv :: "nWorkerManager \<Rightarrow> bool" where
  "wake_inv s \<longleftrightarrow>
     (jobs s \<noteq> None \<longrightarrow> (\<exists>t \<in> set (threads s). pc t \<noteq> Blocked)) \<and>
     (case main_at s of Creating n \<Rightarrow> 0 < n \<and> jobs s = None | Returned _ \<Rightarrow> True | _ \<Rightarrow> threads s \<noteq> [])"

definition pool_inv :: "nWorkerManager \<Rightarrow> bool" where
  "pool_inv s \<longleftrightarrow> job_inv s \<and> value_inv s \<and> worker_inv s \<and> lock_inv s \<and> wake_inv s"

lemma pool_inv_start: "pool_inv (createPool WORKER_SIZE)"
  by (simp add: pool_inv_def createPool_def WORKER_SIZE_def job_inv_def value_inv_def added_def
      worker_inv_def lock_inv_def wake_inv_def at_def dlist_empty)

subsection \<open>Steps that move one thread\<close>

lemma goto_fields [simp]:
  "jobs_mem (goto k p s) = jobs_mem s" "jobs (goto k p s) = jobs s"
  "workers_mem (goto k p s) = workers_mem s" "workers (goto k p s) = workers s"
  "owner (goto k p s) = owner s" "main_at (goto k p s) = main_at s"
  "printed (goto k p s) = printed s"
  "threads (goto k p s) = (threads s)[k := (threads s ! k)\<lparr>pc := p\<rparr>]"
  by (simp_all add: goto_def)

lemma at_pool_goto: "k < length (threads s) \<Longrightarrow> at (goto k p s) l q \<longleftrightarrow> (if l = k then p = q else at s l q)"
  by (auto simp: at_def nth_list_update)

lemma threads_goto:
  "k < length ts \<Longrightarrow> t \<in> set (ts[k := (ts ! k)\<lparr>pc := p\<rparr>]) \<Longrightarrow>
   t \<in> set ts \<or> (\<exists>t0 \<in> set ts. worker t = worker t0 \<and> pc t = p)"
  by (auto dest!: subsetD [OF set_update_subset_insert])

lemma worker_inv_goto:
  "worker_inv s \<Longrightarrow> k < length (threads s) \<Longrightarrow> p \<noteq> Gone \<Longrightarrow> worker_inv (goto k p s)"
  unfolding worker_inv_def by (auto dest!: threads_goto)

lemma awake_upd:
  "k < length ts \<Longrightarrow> p \<noteq> Blocked \<Longrightarrow> \<exists>t \<in> set (ts[k := (ts ! k)\<lparr>pc := p\<rparr>]). pc t \<noteq> Blocked"
  by (rule bexI [of _ "(ts ! k)\<lparr>pc := p\<rparr>"]) (simp_all add: set_update_memI)

lemma wake_inv_goto:
  "wake_inv s \<Longrightarrow> k < length (threads s) \<Longrightarrow> p \<noteq> Blocked \<Longrightarrow> wake_inv (goto k p s)"
  unfolding wake_inv_def using awake_upd [of k "threads s" p] by (simp split: main_pc.splits)

lemma value_inv_goto [simp]: "value_inv (goto k p s) = value_inv s"
  by (simp add: value_inv_def added_def)

lemma job_inv_goto:
  "job_inv s \<Longrightarrow> k < length (threads s) \<Longrightarrow> held (threads s ! k) = {#} \<Longrightarrow>
   (\<And>a. p \<noteq> Running a) \<Longrightarrow> job_inv (goto k p s)"
  unfolding job_inv_def using running_upd [of k "threads s" "(threads s ! k)\<lparr>pc := p\<rparr>"] by simp

lemma inv_owner [simp]:
  "job_inv (s\<lparr>owner := x\<rparr>) = job_inv s" "value_inv (s\<lparr>owner := x\<rparr>) = value_inv s"
  "worker_inv (s\<lparr>owner := x\<rparr>) = worker_inv s" "wake_inv (s\<lparr>owner := x\<rparr>) = wake_inv s"
  by (simp_all add: job_inv_def value_inv_def worker_inv_def wake_inv_def added_def
      split: main_pc.splits)

lemma at_owner [simp]: "at (s\<lparr>owner := x\<rparr>) k p = at s k p"
  by (simp add: at_def)

lemma held_at: "at s k p \<Longrightarrow> (\<And>a. p \<noteq> Running a) \<Longrightarrow> held (threads s ! k) = {#}"
  by (auto simp: at_def held_def split: worker_pc.splits)

lemma at_length: "at s k p \<Longrightarrow> k < length (threads s)"
  by (simp add: at_def)

lemma at_one: "at s k p \<Longrightarrow> at s k q \<longleftrightarrow> p = q"
  by (auto simp: at_def)

lemma Lock_ok:
  assumes inv: "pool_inv s" and k: "at s k Fetch \<or> at s k Signalled" and free: "owner s = None"
  shows "pool_inv (goto k Holding (s\<lparr>owner := Some k\<rparr>))"
proof -
  have len: "k < length (threads s)" and h: "held (threads s ! k) = {#}"
    using k at_length held_at by blast+
  have "lock_inv (goto k Holding (s\<lparr>owner := Some k\<rparr>))"
    using inv free len by (auto simp: pool_inv_def lock_inv_def at_pool_goto)
  then show ?thesis
    using inv len h by (simp add: pool_inv_def job_inv_goto worker_inv_goto wake_inv_goto)
qed

lemma Spurious_ok:
  assumes inv: "pool_inv s" and k: "at s k Blocked"
  shows "pool_inv (goto k Signalled s)"
proof -
  have "lock_inv (goto k Signalled s)"
    using inv at_length [OF k] at_one [OF k, of Holding]
    by (auto simp: pool_inv_def lock_inv_def at_pool_goto)
  then show ?thesis
    using inv at_length [OF k] held_at [OF k]
    by (simp add: pool_inv_def job_inv_goto worker_inv_goto wake_inv_goto)
qed

lemma lock_inv_release:
  assumes "lock_inv s" "at s k Holding" "p \<noteq> Holding"
    and "owner s' = None" "threads s' = threads (goto k p s)"
  shows "lock_inv s'"
proof -
  have "at s' l q = at (goto k p s) l q" for l q using assms(5) by (simp add: at_def)
  moreover have "owner s = Some k" using assms(1,2) by (simp add: lock_inv_def)
  ultimately show ?thesis
    using assms(1,3,4) at_pool_goto [OF at_length [OF assms(2)], of p _ Holding] unfolding lock_inv_def
    by (metis option.inject option.simps(3))
qed

subsection \<open>Taking a job and running it\<close>

lemma once: "mset_set D = mset xs + R \<Longrightarrow> a \<in># R \<Longrightarrow> a \<notin> set xs"
proof
  assume D: "mset_set D = mset xs + R" and a: "a \<in># R" "a \<in> set xs"
  have "count (mset_set D) a \<le> 1" by (cases "finite D"; cases "a \<in> D") simp_all
  moreover have "1 \<le> count R a" "1 \<le> count (mset xs) a" using a by (simp_all add: Suc_le_eq)
  ultimately show False using D by simp
qed

lemma jobval_same: "same_fields m m' \<Longrightarrow> jobval m' = jobval m"
  unfolding same_fields_def jobval_def fun_eq_iff by (metis (no_types, lifting) option.case_eq_if option.map_disc_iff option.map_sel)

lemma Test_ok:
  assumes inv: "pool_inv s" and k: "at s k Holding"
  shows "\<exists>s'. workThread_test k s = Inr s' \<and> pool_inv s'"
proof -
  have len: "k < length (threads s)" using k by (rule at_length)
  obtain it where it: "workers_mem s (worker (threads s ! k)) = Some it" "payload it = 0"
    using inv nth_mem [OF len] by (auto simp: pool_inv_def worker_inv_def)
  show ?thesis
  proof (cases "jobs s")
    case None
    let ?s = "goto k Blocked (s\<lparr>owner := None\<rparr>)"
    have "lock_inv ?s"
      by (rule lock_inv_release [OF _ k, of Blocked]) (use inv in \<open>simp_all add: pool_inv_def\<close>)
    moreover have "wake_inv ?s"
      using inv None by (simp add: pool_inv_def wake_inv_def split: main_pc.splits)
    ultimately have "pool_inv ?s"
      using inv len held_at [OF k] by (simp add: pool_inv_def job_inv_goto worker_inv_goto)
    moreover have "workThread_test k s = Inr ?s"
      using it None by (simp add: workThread_test_def get_item_def)
    ultimately show ?thesis by blast
  next
    case (Some a)
    obtain js where js: "dlist (jobs_mem s) (Some a) js" "finite (dom (jobs_mem s))"
      "mset_set (dom (jobs_mem s)) = mset js + running (threads s)"
      using inv Some by (auto simp: pool_inv_def job_inv_def)
    obtain m l ys where take: "js = a # ys" "LIST_REMOVE (jobs_mem s) (Some a) (Some a) = Inr (m, l)"
      "dlist m l ys" "same_fields (jobs_mem s) m"
      using js(1) by (rule links.take_head)
    let ?s = "goto k (Running a) (s\<lparr>jobs_mem := m, jobs := l, owner := None\<rparr>)"
    note same = same_fields_dom [OF take(4)] jobval_same [OF take(4)]
    have "running (threads ?s) = add_mset a (running (threads s))"
      using running_upd [OF len, of "(threads s ! k)\<lparr>pc := Running a\<rparr>"] held_at [OF k] by simp
    then have "job_inv ?s"
      using js take(1,3) same by (auto simp: job_inv_def)
    moreover have "value_inv ?s"
      using inv same by (simp add: pool_inv_def value_inv_def added_def)
    moreover have "worker_inv ?s"
      using inv len unfolding pool_inv_def worker_inv_def by (auto dest!: threads_goto)
    moreover have "lock_inv ?s"
      by (rule lock_inv_release [OF _ k, of "Running a"]) (use inv in \<open>simp_all add: pool_inv_def\<close>)
    moreover have "wake_inv ?s"
      using inv Some len awake_upd [OF len, of "Running a"]
      by (simp add: pool_inv_def wake_inv_def split: main_pc.splits)
    moreover have "workThread_test k s = Inr ?s"
      using it Some take by (simp add: workThread_test_def get_item_def)
    ultimately show ?thesis unfolding pool_inv_def by blast
  qed
qed

lemma RunJob_ok:
  assumes inv: "pool_inv s" and k: "at s k (Running a)"
  shows "\<exists>s'. myCbFun k a s = Inr s' \<and> pool_inv s'"
proof -
  have len: "k < length (threads s)" using k by (rule at_length)
  have held: "held (threads s ! k) = {#a#}" using k by (simp add: at_def held_def)
  then have a: "a \<in># running (threads s)"
    using held_le_running [OF len] by simp
  obtain js where js: "dlist (jobs_mem s) (jobs s) js" "finite (dom (jobs_mem s))"
    "mset_set (dom (jobs_mem s)) = mset js + running (threads s)"
    using inv by (auto simp: pool_inv_def job_inv_def)
  have "a \<in># mset_set (dom (jobs_mem s))" using a js(3) by simp
  then obtain job where job: "jobs_mem s a = Some job" using js(2) by auto
  let ?m = "(jobs_mem s)(a := None)"
  let ?s = "goto k Fetch (s\<lparr>printed := printed s @ [(k, payload job)], jobs_mem := ?m\<rparr>)"
  have dom: "mset_set (dom ?m) = mset_set (dom (jobs_mem s)) - {#a#}"
    using job js(2) mset_set_Diff [of "dom (jobs_mem s)" "{a}"] by auto
  have "running (threads ?s) + {#a#} = running (threads s)"
    using running_upd [OF len, of "(threads s ! k)\<lparr>pc := Fetch\<rparr>"] held by simp
  then have "mset_set (dom ?m) = mset js + running (threads ?s)"
    unfolding dom js(3) by (metis add_diff_cancel_right' union_assoc)
  then have "job_inv ?s"
    using dlist_free [OF js(1) once [OF js(3) a]] js(2) by (auto simp: job_inv_def)
  moreover have "value_inv ?s"
  proof -
    obtain n where n: "added s n" "image_mset (jobval (jobs_mem s)) (mset_set (dom (jobs_mem s))) +
        mset (map snd (printed s)) = mset (map int [0..<n])"
      using inv by (auto simp: pool_inv_def value_inv_def)
    have "image_mset (jobval ?m) (mset_set (dom ?m)) = image_mset (jobval (jobs_mem s)) (mset_set (dom ?m))"
      using js(2) by (intro image_mset_cong) (auto simp: jobval_def)
    moreover have "add_mset a (mset_set (dom ?m)) = mset_set (dom (jobs_mem s))"
      unfolding dom using job js(2) by (intro insert_DiffM) auto
    then have "add_mset (payload job) (image_mset (jobval (jobs_mem s)) (mset_set (dom ?m))) =
        image_mset (jobval (jobs_mem s)) (mset_set (dom (jobs_mem s)))"
      using job by (metis image_mset_add_mset jobval_def option.simps(5))
    ultimately have "image_mset (jobval ?m) (mset_set (dom ?m)) +
        mset (map snd (printed s @ [(k, payload job)])) = mset (map int [0..<n])"
      unfolding n(2) [symmetric] by (simp only: map_append mset_append) simp
    then show ?thesis
      using n(1) unfolding value_inv_def by (intro exI [of _ n]) (simp add: added_def)
  qed
  moreover have "worker_inv ?s"
    using inv len unfolding pool_inv_def worker_inv_def by (auto dest!: threads_goto)
  moreover have "lock_inv ?s"
    using inv len at_one [OF k, of Holding]
    by (auto simp: pool_inv_def lock_inv_def at_def nth_list_update)
  moreover have "wake_inv ?s"
    using inv awake_upd [OF len, of Fetch] by (simp add: pool_inv_def wake_inv_def split: main_pc.splits)
  moreover have "myCbFun k a s = Inr ?s"
    using job by (simp add: myCbFun_def get_item_def)
  ultimately show ?thesis unfolding pool_inv_def by blast
qed

subsection \<open>Adding a job or a worker\<close>

lemma inv_main [simp]:
  "job_inv (s\<lparr>main_at := x\<rparr>) = job_inv s" "worker_inv (s\<lparr>main_at := x\<rparr>) = worker_inv s"
  "lock_inv (s\<lparr>main_at := x\<rparr>) = lock_inv s"
  by (simp_all add: job_inv_def worker_inv_def lock_inv_def at_def)

lemma wake_fields [simp]:
  "jobs_mem (wake w s) = jobs_mem s" "jobs (wake w s) = jobs s"
  "printed (wake w s) = printed s" "main_at (wake w s) = main_at s"
  "threads (wake w s) = [] \<longleftrightarrow> threads s = []"
  by (simp_all add: wake_def split: option.splits)

lemma wake_ok:
  assumes "signal_ok s w" "job_inv s" "worker_inv s" "lock_inv s"
  shows "job_inv (wake w s) \<and> worker_inv (wake w s) \<and> lock_inv (wake w s)"
proof (cases w)
  case (Some k)
  then have k: "at s k Blocked" using assms(1) by (simp add: signal_ok_def)
  have "lock_inv (goto k Signalled s)"
    using assms(4) at_pool_goto [OF at_length [OF k], of Signalled] at_one [OF k, of Holding]
    by (auto simp: lock_inv_def)
  then show ?thesis
    using assms at_length [OF k] held_at [OF k] Some
    by (simp add: wake_def job_inv_goto worker_inv_goto)
qed (use assms in \<open>simp add: wake_def\<close>)

lemma wake_awake:
  assumes "signal_ok s w" "threads s \<noteq> []"
  shows "\<exists>t \<in> set (threads (wake w s)). pc t \<noteq> Blocked"
proof (cases w)
  case None
  then show ?thesis using assms by (cases "threads s") (auto simp: signal_ok_def wake_def list_ex_iff)
next
  case (Some k)
  then show ?thesis
    using assms awake_upd [of k "threads s" Signalled] by (simp add: signal_ok_def wake_def at_def)
qed

lemma new_job_ok:
  assumes inv: "pool_inv s" and i: "main_at s = Adding i" and w: "signal_ok s w"
    and mem: "fresh s mem"
  shows "\<exists>s'. new_job i mem True w s = Inr s' \<and> pool_inv s'"
proof (cases mem)
  case None
  have "value_inv (s\<lparr>main_at := Returned 1\<rparr>)"
    using inv unfolding pool_inv_def value_inv_def by (auto simp: added_def i)
  moreover have "wake_inv (s\<lparr>main_at := Returned 1\<rparr>)"
    using inv unfolding pool_inv_def wake_inv_def by simp
  ultimately show ?thesis using inv None by (simp add: new_job_def pool_inv_def)
next
  case (Some a)
  obtain js where js: "dlist (jobs_mem s) (jobs s) js" "finite (dom (jobs_mem s))"
    "mset_set (dom (jobs_mem s)) = mset js + running (threads s)"
    using inv by (auto simp: pool_inv_def job_inv_def)
  have a: "a \<notin> dom (jobs_mem s)" using mem Some by (auto simp: fresh_def)
  have "set js \<subseteq> dom (jobs_mem s)"
    using js(1) by (rule dlist_dom)
  then have a': "a \<notin> set js" using a by auto
  let ?job = "\<lparr>prev = None, next_item = None, payload = int i\<rparr>"
  let ?m = "(jobs_mem s)(a \<mapsto> ?job)"
  obtain m where m: "LIST_ADD ?m (Some a) (jobs s) = Inr (m, Some a)"
    "dlist m (Some a) (a # js)" "same_fields ?m m"
    using links.push [OF dlist_free [OF js(1) a']] a' by (metis domI fun_upd_same)
  have dom: "dom m = insert a (dom (jobs_mem s))" using same_fields_dom [OF m(3)] by simp
  have val: "jobval m = (jobval (jobs_mem s))(a := int i)"
    using jobval_same [OF m(3)] by (auto simp: jobval_def)
  define s1 where "s1 = s\<lparr>jobs_mem := m, jobs := Some a\<rparr>"
  have "job_inv s1"
    unfolding job_inv_def s1_def using m(2) js(2,3) a dom by (intro exI [of _ "a # js"]) simp
  moreover have "worker_inv s1" "lock_inv s1" "signal_ok s1 w"
    using inv w by (simp_all add: pool_inv_def worker_inv_def lock_inv_def signal_ok_def s1_def
        at_def split: option.splits)
  ultimately have s1: "job_inv (wake w s1)" "worker_inv (wake w s1)" "lock_inv (wake w s1)"
    "signal_ok s1 w" using wake_ok by blast+
  let ?at = "if i + 1 < JOB_SIZE then Adding (i + 1) else AtGetchar"
  let ?s = "(wake w s1)\<lparr>main_at := ?at\<rparr>"
  have n: "i < JOB_SIZE" "image_mset (jobval (jobs_mem s)) (mset_set (dom (jobs_mem s))) +
      mset (map snd (printed s)) = mset (map int [0..<i])"
    using inv i by (auto simp: pool_inv_def value_inv_def added_def)
  have "image_mset (jobval m) (mset_set (dom (jobs_mem s))) =
      image_mset (jobval (jobs_mem s)) (mset_set (dom (jobs_mem s)))"
    using a js(2) unfolding val by (intro image_mset_cong) auto
  then have "image_mset (jobval m) (mset_set (dom m)) + mset (map snd (printed s)) =
      add_mset (int i) (mset (map int [0..<i]))"
    unfolding n(2) [symmetric] using a js(2) dom val by simp
  then have "value_inv ?s"
    unfolding value_inv_def by (intro exI [of _ "i + 1"]) (use n(1) in \<open>simp add: added_def s1_def\<close>)
  moreover have "wake_inv ?s"
    using wake_awake [OF s1(4)] inv i by (auto simp: pool_inv_def wake_inv_def s1_def)
  moreover have "new_job i mem True w s = Inr ?s"
    using Some m(1) by (simp add: new_job_def addJobToPool_def s1_def)
  ultimately show ?thesis using s1 by (auto simp: pool_inv_def)
qed

lemma new_worker_ok:
  assumes inv: "pool_inv s" and n: "main_at s = Creating n" and mem: "fresh s mem"
  shows "\<exists>s'. new_worker n mem created s = Inr s' \<and> pool_inv s'"
proof (cases "mem = None \<or> \<not> created")
  case True
  have "value_inv (s\<lparr>main_at := Returned 1\<rparr>)"
    using inv unfolding pool_inv_def value_inv_def by (auto simp: added_def n)
  moreover have "wake_inv (s\<lparr>main_at := Returned 1\<rparr>)"
    using inv unfolding pool_inv_def wake_inv_def by simp
  ultimately show ?thesis
    using inv True by (cases mem) (auto simp: new_worker_def pool_inv_def)
next
  case False
  then obtain a where a: "mem = Some a" created by auto
  let ?m = "(workers_mem s)(a \<mapsto> \<lparr>prev = None, next_item = None, payload = 0\<rparr>)"
  obtain ws where ws: "dlist (workers_mem s) (workers s) ws"
    using inv by (auto simp: pool_inv_def worker_inv_def)
  have "a \<notin> dom (workers_mem s)" using mem a by (auto simp: fresh_def)
  moreover have "set ws \<subseteq> dom (workers_mem s)" using ws by (rule dlist_dom)
  ultimately have a': "a \<notin> set ws" by auto
  obtain m where m: "LIST_ADD ?m (Some a) (workers s) = Inr (m, Some a)"
    "dlist m (Some a) (a # ws)" "same_fields ?m m"
    using links.push [OF dlist_free [OF ws a']] a' by (metis domI fun_upd_same)
  have alive: "\<exists>it. m b = Some it \<and> payload it = 0"
    if "b = a \<or> (\<exists>it. workers_mem s b = Some it \<and> payload it = 0)" for b
  proof -
    have "map_option payload (m b) = map_option payload (?m b)"
      using m(3) by (simp add: same_fields_def)
    also have "\<dots> = Some 0" using that by auto
    finally show ?thesis by auto
  qed
  let ?at = "if n = 1 then Adding 0 else Creating (n - 1)"
  let ?s = "s\<lparr>workers_mem := m, workers := Some a,
    threads := threads s @ [\<lparr>worker = a, pc = Fetch\<rparr>], main_at := ?at\<rparr>"
  have "job_inv ?s"
    using inv by (auto simp: pool_inv_def job_inv_def held_def)
  moreover have "value_inv ?s"
    using inv n by (auto simp: pool_inv_def value_inv_def added_def JOB_SIZE_def)
  moreover have "worker_inv ?s"
    using inv m(2) alive by (auto simp: pool_inv_def worker_inv_def)
  moreover have "lock_inv ?s"
    using inv by (auto simp: pool_inv_def lock_inv_def at_def nth_append)
  moreover have "wake_inv ?s"
    using inv n by (auto simp: pool_inv_def wake_inv_def)
  moreover have "new_worker n mem created s = Inr ?s"
    using a m(1) by (simp add: new_worker_def)
  ultimately show ?thesis by (auto simp: pool_inv_def)
qed

text \<open>Every step keeps the invariant, unless the second \<open>malloc\<close> of a job fails.\<close>

definition data_allocated :: "event \<Rightarrow> bool" where
  "data_allocated e = (case e of NewJob mem got_data w \<Rightarrow> mem \<noteq> None \<longrightarrow> got_data | _ \<Rightarrow> True)"

lemma pool_step_ok:
  assumes inv: "pool_inv s" and e: "data_allocated e" and step: "pool_step e s = Some r"
  shows "\<exists>s'. r = Inr s' \<and> pool_inv s'"
proof (cases e)
  case (NewWorker mem created)
  then show ?thesis
    using step new_worker_ok [OF inv] by (auto split: main_pc.splits if_splits)
next
  case (NewJob mem got_data w)
  show ?thesis
  proof (cases mem)
    case None
    then obtain i where "main_at s = Adding i" "r = Inr (s\<lparr>main_at := Returned 1\<rparr>)"
      using step NewJob by (auto simp: new_job_def split: main_pc.splits if_splits)
    moreover have "value_inv (s\<lparr>main_at := Returned 1\<rparr>)" "wake_inv (s\<lparr>main_at := Returned 1\<rparr>)"
      using inv calculation by (auto simp: pool_inv_def value_inv_def wake_inv_def added_def)
    ultimately show ?thesis using inv by (simp add: pool_inv_def)
  next
    case (Some a)
    then show ?thesis
      using step NewJob e new_job_ok [OF inv]
      by (auto simp: data_allocated_def split: main_pc.splits if_splits)
  qed
next
  case Getchar
  then have "main_at s = AtGetchar" "r = Inr (s\<lparr>main_at := Returned 0\<rparr>)"
    using step by (auto split: if_splits)
  moreover have "value_inv (s\<lparr>main_at := Returned 0\<rparr>)" "wake_inv (s\<lparr>main_at := Returned 0\<rparr>)"
    using inv calculation by (auto simp: pool_inv_def value_inv_def wake_inv_def added_def)
  ultimately show ?thesis using inv by (simp add: pool_inv_def)
next
  case (Lock k)
  then show ?thesis
    using step Lock_ok [OF inv] by (auto split: main_pc.splits if_splits)
next
  case (Test k)
  then show ?thesis
    using step Test_ok [OF inv] by (auto split: main_pc.splits if_splits)
next
  case (RunJob k)
  then obtain a where "at s k (Running a)" "r = myCbFun k a s"
    using step by (auto simp: at_def split: main_pc.splits if_splits worker_pc.splits)
  then show ?thesis using RunJob_ok [OF inv] by auto
next
  case (Spurious k)
  then show ?thesis
    using step Spurious_ok [OF inv] by (auto split: main_pc.splits if_splits)
qed

lemma step_allocated: "pool_step e s = Some (Inr s') \<Longrightarrow> data_allocated e"
  by (cases e) (auto simp: data_allocated_def new_job_def split: main_pc.splits if_splits option.splits)

lemma pool_reach_inv: "pool_reach s \<Longrightarrow> pool_inv s"
  by (rule pool.invariant) (use pool_inv_start pool_step_ok [OF _ step_allocated] in blast)+

subsection \<open>A run to the end\<close>

text \<open>After a round for each of the first \<open>i\<close> jobs: one worker has done them all.\<close>

definition after :: "nat \<Rightarrow> nWorkerManager \<Rightarrow> bool" where
  "after i s \<longleftrightarrow> pool_reach s \<and> main_at s = (if i < JOB_SIZE then Adding i else AtGetchar) \<and> i \<le> JOB_SIZE \<and>
     jobs s = None \<and> owner s = None \<and> threads s \<noteq> [] \<and>
     (\<forall>t \<in> set (threads s). pc t = Fetch) \<and> workers_mem s 0 = None \<and>
     printed s = map (\<lambda>j. (0, int j)) [0..<i]"

definition create_all :: "event list" where
  "create_all = map (\<lambda>a. NewWorker (Some a) True) [1..<11]"

lemma created:
  "case run_events pool_step create_all (createPool WORKER_SIZE) of None \<Rightarrow> False
   | Some s \<Rightarrow> main_at s = Adding 0 \<and> jobs s = None \<and> owner s = None \<and> threads s \<noteq> [] \<and>
       list_all (\<lambda>t. pc t = Fetch) (threads s) \<and> workers_mem s 0 = None \<and> printed s = []"
  by code_simp

lemma after_created: "\<exists>s. after 0 s"
proof -
  obtain s where s: "run_events pool_step create_all (createPool WORKER_SIZE) = Some s"
    "main_at s = Adding 0" "jobs s = None" "owner s = None" "threads s \<noteq> []"
    "list_all (\<lambda>t. pc t = Fetch) (threads s)" "workers_mem s 0 = None" "printed s = []"
    using created by (auto split: option.splits)
  have "pool_reach s" using s(1) by (rule pool.schedule_reach)
  then show ?thesis using s by (auto simp: after_def JOB_SIZE_def list_all_iff)
qed

lemma no_jobs:
  assumes "pool_inv s" "jobs s = None" "\<forall>t \<in> set (threads s). held t = {#}"
  shows "jobs_mem s = Map.empty"
proof -
  have "running ts = {#}" if "\<forall>t \<in> set ts. held t = {#}" for ts
    using that by (induction ts) auto
  then have "running (threads s) = {#}" using assms(3) by blast
  then show ?thesis
    using assms(1,2) by (auto simp: pool_inv_def job_inv_def dlist_empty mset_set_empty_iff)
qed

text \<open>The state in which the next job has been added, and no worker has moved yet.\<close>

definition with_job :: "nat \<Rightarrow> nWorkerManager \<Rightarrow> nWorkerManager" where
  "with_job i s = s\<lparr>
     jobs_mem := [0 \<mapsto> \<lparr>prev = None, next_item = None, payload = int i\<rparr>], jobs := Some 0,
     main_at := (if i + 1 < JOB_SIZE then Adding (i + 1) else AtGetchar)\<rparr>"

lemma after_add:
  assumes s: "after i s" and i: "i < JOB_SIZE"
  shows "pool_step (NewJob (Some 0) True None) s = Some (Inr (with_job i s))"
proof -
  have "jobs_mem s = Map.empty"
    using s by (intro no_jobs) (auto simp: after_def pool_reach_inv held_def)
  then show ?thesis
    using s i by (auto simp: after_def fresh_def signal_ok_def list_ex_iff new_job_def
        addJobToPool_def LIST_ADD_def set_item_def wake_def with_job_def)
qed

lemma after_round:
  assumes s: "after i s" and i: "i < JOB_SIZE"
  shows "\<exists>s'. after (i + 1) s'"
proof -
  let ?s1 = "with_job i s"
  obtain t ts where ts: "threads s = t # ts" "pc t = Fetch" using s by (cases "threads s") (auto simp: after_def)
  have reach: "pool_reach ?s1"
    by (rule pool_reach.step [OF _ after_add [OF s i]]) (use s in \<open>simp add: after_def\<close>)
  have "worker_inv ?s1" using pool_reach_inv [OF reach] by (simp add: pool_inv_def)
  then obtain it where it: "workers_mem s (worker t) = Some it" "payload it = 0"
    using ts by (auto simp: worker_inv_def with_job_def)
  define s' where "s' = ?s1\<lparr>jobs_mem := Map.empty, jobs := None, owner := None,
    threads := t # ts, printed := printed s @ [(0, int i)]\<rparr>"
  have "run_events pool_step [Lock 0, Test 0, RunJob 0] ?s1 = Some s'"
    using s i ts it
    by (simp add: after_def at_def goto_def workThread_test_def get_item_def LIST_REMOVE_def
        set_item_def myCbFun_def with_job_def s'_def Let_def)
  then have "pool_reach s'" using reach by (rule pool.run_reach [rotated])
  then show ?thesis
    using s i ts by (intro exI [of _ s']) (auto simp: after_def s'_def with_job_def)
qed

lemma after_all: "i \<le> JOB_SIZE \<Longrightarrow> \<exists>s. after i s"
proof (induction i)
  case (Suc i)
  then show ?case using after_round by auto
qed (simp add: after_created)


section \<open>Properties\<close>

text \<open>
  C6: in every reachable state of the pool the only undefined behaviour within reach is
  the one of \<open>main\<close> itself, which writes through the unchecked result of its second
  \<open>malloc\<close>: no thread follows a NULL pointer or touches a freed job or worker.
\<close>

theorem pool_memory_safe:
  assumes "pool_reach s" and "pool_step e s = Some (Inl u)"
  shows "u = NullDeref \<and> (\<exists>a w. e = NewJob (Some a) False w)"
proof -
  have "\<not> data_allocated e"
    using pool_step_ok [OF pool_reach_inv [OF assms(1)] _ assms(2)] by auto
  then obtain a w where "e = NewJob (Some a) False w"
    by (auto simp: data_allocated_def split: event.splits)
  then show ?thesis
    using assms(2) by (auto simp: new_job_def split: main_pc.splits if_splits)
qed

theorem pool_memory_safe_witness:
  "\<exists>s. pool_reach s \<and> pool_step (NewJob (Some 0) False None) s = Some (Inl NullDeref)"
proof -
  obtain s where s: "after 0 s" using after_all by blast
  then have reach: "pool_reach s" and "\<exists>u. pool_step (NewJob (Some 0) False None) s = Some (Inl u)"
    using no_jobs [of s] pool_reach_inv
    by (auto simp: after_def fresh_def held_def new_job_def JOB_SIZE_def)
  then obtain u where u: "pool_step (NewJob (Some 0) False None) s = Some (Inl u)" by blast
  show ?thesis using reach u pool_memory_safe [OF reach u] by blast
qed

text \<open>
  C4: no job is run twice and no number is made up; and once \<open>main\<close> waits at \<open>getchar\<close>,
  the list is empty and no worker holds a job, each of the 1000 jobs has been run.
\<close>

theorem pool_runs_each_job_once:
  assumes "pool_reach s"
  shows "mset (map snd (printed s)) \<subseteq># mset (map int [0..<JOB_SIZE]) \<and>
    (main_at s = AtGetchar \<and> jobs s = None \<and> (\<forall>t \<in> set (threads s). held t = {#}) \<longrightarrow>
      mset (map snd (printed s)) = mset (map int [0..<JOB_SIZE]))"
proof -
  have inv: "pool_inv s" using assms by (rule pool_reach_inv)
  then obtain n where n: "added s n" "image_mset (jobval (jobs_mem s)) (mset_set (dom (jobs_mem s))) +
      mset (map snd (printed s)) = mset (map int [0..<n])"
    by (auto simp: pool_inv_def value_inv_def)
  have "mset (map snd (printed s)) \<subseteq># mset (map int [0..<n])"
    unfolding n(2) [symmetric] by simp
  moreover have upt: "[0..<JOB_SIZE] = [0..<n] @ [n..<JOB_SIZE]"
    using n(1) upt_add_eq_append [of 0 n "JOB_SIZE - n"] by (simp add: added_def)
  ultimately have "mset (map snd (printed s)) \<subseteq># mset (map int [0..<JOB_SIZE])"
    unfolding upt map_append mset_append by (blast intro: subset_mset.order_trans mset_subset_eq_add_left)
  moreover have "mset (map snd (printed s)) = mset (map int [0..<JOB_SIZE])"
    if "main_at s = AtGetchar" "jobs s = None" "\<forall>t \<in> set (threads s). held t = {#}"
    using n no_jobs [OF inv that(2,3)] that(1) by (simp add: added_def)
  ultimately show ?thesis by blast
qed

theorem pool_runs_each_job_once_witness:
  "\<exists>s. pool_reach s \<and> mset (map snd (printed s)) = mset (map int [0..<JOB_SIZE])"
proof -
  obtain s where s: "after JOB_SIZE s" using after_all by blast
  then have "pool_reach s" "main_at s = AtGetchar \<and> jobs s = None \<and> (\<forall>t \<in> set (threads s). held t = {#})"
    by (auto simp: after_def held_def)
  then show ?thesis using pool_runs_each_job_once by blast
qed

text \<open>
  C5: no wake-up is lost. When \<open>main\<close> waits at \<open>getchar\<close> and not all jobs have been run,
  some worker can make a step of its own, whatever the schedule was.
\<close>

theorem pool_never_stuck:
  assumes "pool_reach s" and "main_at s = AtGetchar" and "length (printed s) < JOB_SIZE"
  shows "\<exists>k e s'. e \<in> {Lock k, Test k, RunJob k} \<and> pool_step e s = Some (Inr s')"
proof -
  have inv: "pool_inv s" using assms(1) by (rule pool_reach_inv)
  have "mset (map snd (printed s)) \<noteq> mset (map int [0..<JOB_SIZE])"
    using assms(3) by (metis length_map length_upt diff_zero mset_eq_length nat_neq_iff)
  moreover obtain n where "added s n" "image_mset (jobval (jobs_mem s)) (mset_set (dom (jobs_mem s))) +
      mset (map snd (printed s)) = mset (map int [0..<n])"
    using inv by (auto simp: pool_inv_def value_inv_def)
  ultimately have "jobs_mem s \<noteq> Map.empty" using assms(2) by (auto simp: added_def)
  then consider (run) t where "t \<in> set (threads s)" "held t \<noteq> {#}"
    | (waiting) "jobs s \<noteq> None" using no_jobs [OF inv] by blast
  then show ?thesis
  proof cases
    case run
    then obtain k a where "at s k (Running a)"
      by (auto simp: in_set_conv_nth held_def at_def split: worker_pc.splits)
    then show ?thesis
      using RunJob_ok [OF inv] assms(2) by (intro exI [of _ k] exI [of _ "RunJob k"]) (auto simp: at_def)
  next
    case waiting
    then obtain t where "t \<in> set (threads s)" "pc t \<noteq> Blocked" "pc t \<noteq> Gone"
      using inv by (auto simp: pool_inv_def wake_inv_def worker_inv_def)
    then obtain l where l: "at s l (pc t)" by (auto simp: in_set_conv_nth at_def)
    show ?thesis
    proof (cases "owner s")
      case (Some k)
      then have "at s k Holding" using inv by (auto simp: pool_inv_def lock_inv_def)
      then show ?thesis
        using Test_ok [OF inv] assms(2) by (intro exI [of _ k] exI [of _ "Test k"]) auto
    next
      case None
      show ?thesis
      proof (cases "pc t")
        case (Running a)
        then show ?thesis
          using RunJob_ok [OF inv] l assms(2) by (intro exI [of _ l] exI [of _ "RunJob l"]) (auto simp: at_def)
      qed (use None l assms(2) inv \<open>pc t \<noteq> Blocked\<close> \<open>pc t \<noteq> Gone\<close> in
          \<open>auto intro!: exI [of _ l] exI [of _ "Lock l"] simp: pool_inv_def lock_inv_def\<close>)
    qed
  qed
qed

theorem pool_never_stuck_witness:
  "\<exists>s k e s'. pool_reach s \<and> e \<in> {Lock k, Test k, RunJob k} \<and> pool_step e s = Some (Inr s')"
proof -
  obtain s where s: "after 999 s" using after_all [of 999] by (auto simp: JOB_SIZE_def)
  have step: "pool_step (NewJob (Some 0) True None) s = Some (Inr (with_job 999 s))"
    using s by (rule after_add) (simp add: JOB_SIZE_def)
  have "pool_reach s" "length (printed s) = 999" using s by (simp_all add: after_def)
  then have "pool_reach (with_job 999 s)" "main_at (with_job 999 s) = AtGetchar"
    "length (printed (with_job 999 s)) < JOB_SIZE"
    using pool_reach.step [OF _ step] by (simp_all add: with_job_def JOB_SIZE_def)
  then show ?thesis using pool_never_stuck by blast
qed

end
