(* ===== verification/AddMinus.thy ===== *)
theory AddMinus
  imports StepSystem
begin

text \<open>
  \<^verbatim>\<open>src/wzq_study/thread_add_minus.cpp\<close>: ten threads that add to or decrement a global sum
  under one mutex and one condition variable, and the main thread that creates and joins
  them. A step of a thread is what it does between two points at which it may be delayed:
  taking the mutex, its critical section up to the release of the mutex, and its end.
\<close>

section \<open>State\<close>

definition NUM_THREADS :: nat where "NUM_THREADS = 10"

definition BOUNDARY :: int where "BOUNDARY = 3"

datatype thread_pc =
    NotCreated       \<comment> \<open>\<open>pthread_create\<close> failed: \<open>tids[i]\<close> was never assigned\<close>
  | Entry            \<comment> \<open>about to lock the mutex\<close>
  | Inside           \<comment> \<open>holds the mutex, at the start of the critical section\<close>
  | CondWait         \<comment> \<open>\<open>minus\<close>, in \<open>pthread_cond_wait\<close>\<close>
  | Woken            \<comment> \<open>\<open>minus\<close>, about to take the mutex back\<close>
  | Resumed          \<comment> \<open>\<open>minus\<close>, holds the mutex again, behind the wait\<close>
  | Outside          \<comment> \<open>after the unlock, in \<open>sleep(1)\<close>\<close>
  | Exited

datatype main_pc = Create nat | Join nat

record state =
  g_sum :: int
  mutex :: "nat option"
  pcs :: "thread_pc list"
  main_at :: main_pc
  out :: string

definition init :: state where
  "init = \<lparr>g_sum = 0, mutex = None, pcs = [], main_at = Create 0, out = []\<rparr>"

text \<open>The threads with an even index run \<open>add\<close>, the others \<open>minus\<close>.\<close>

definition is_add :: "nat \<Rightarrow> bool" where
  "is_add i \<longleftrightarrow> i mod 2 = 0"

definition at :: "state \<Rightarrow> nat \<Rightarrow> thread_pc \<Rightarrow> bool" where
  "at s i p \<longleftrightarrow> i < length (pcs s) \<and> pcs s ! i = p"

definition goto :: "nat \<Rightarrow> thread_pc \<Rightarrow> state \<Rightarrow> state" where
  "goto i p s = s\<lparr>pcs := (pcs s)[i := p]\<rparr>"

definition print :: "string \<Rightarrow> state \<Rightarrow> state" where
  "print t s = s\<lparr>out := out s @ t @ endl\<rparr>"


section \<open>Steps\<close>

text \<open>\<open>pthread_cond_signal\<close> wakes a waiting thread if there is one.\<close>

definition signal_ok :: "state \<Rightarrow> nat option \<Rightarrow> bool" where
  "signal_ok s w = (case w of None \<Rightarrow> CondWait \<notin> set (pcs s) | Some k \<Rightarrow> at s k CondWait)"

definition wake :: "nat option \<Rightarrow> state \<Rightarrow> state" where
  "wake w s = (case w of None \<Rightarrow> s | Some k \<Rightarrow> goto k Woken s)"

definition report :: "string \<Rightarrow> nat \<Rightarrow> string \<Rightarrow> state \<Rightarrow> state" where
  "report who i stage s = print (who @ ''...'' @ show_nat i @ stage @ show_int (g_sum s)) s"

text \<open>\<open>add\<close>, from behind the lock to the unlock; \<open>w\<close> is the thread a signal would wake.\<close>

definition add_body :: "nat \<Rightarrow> nat option \<Rightarrow> state \<Rightarrow> state" where
  "add_body i w s =
     (let s1 = report ''add'' i ''..begin..'' s;
          s2 = s1\<lparr>g_sum := g_sum s1 + int i\<rparr>;
          s3 = (if g_sum s2 > BOUNDARY then wake w s2 else s2);
          s4 = report ''add'' i ''..end..'' s3
      in goto i Outside (s4\<lparr>mutex := None\<rparr>))"

text \<open>\<open>minus\<close>: up to the wait or through, and what follows the wait.\<close>

definition minus_rest :: "nat \<Rightarrow> state \<Rightarrow> state" where
  "minus_rest i s =
     (let s1 = s\<lparr>g_sum := g_sum s - 1\<rparr>;
          s2 = report ''minus'' i ''..end..'' s1
      in goto i Outside (s2\<lparr>mutex := None\<rparr>))"

definition minus_body :: "nat \<Rightarrow> state \<Rightarrow> state" where
  "minus_body i s =
     (let s1 = report ''minus'' i ''..begin..'' s
      in if g_sum s1 \<le> 3 then goto i CondWait (s1\<lparr>mutex := None\<rparr>) else minus_rest i s1)"

datatype event =
    CreateThread int            \<comment> \<open>what \<open>pthread_create\<close> returns\<close>
  | JoinThread
  | Lock nat
  | Section nat "nat option"    \<comment> \<open>the critical section; the thread a signal wakes\<close>
  | End nat
  | Spurious nat                \<comment> \<open>a wake-up without a signal\<close>

text \<open>
  Joining a thread that has exited reads through the pointer it returned, which points at
  a local variable of that thread; joining one that was never created uses an
  uninitialised thread id.
\<close>

fun thread_step :: "event \<Rightarrow> state \<Rightarrow> state res option" where
  "thread_step (CreateThread iRet) s =
     (case main_at s of
        Create i \<Rightarrow>
          let s1 = (if iRet \<noteq> 0 then print (''pthread_create failed'' @ show_int iRet) s else s) in
          Some (Inr (s1\<lparr>pcs := pcs s @ [if iRet \<noteq> 0 then NotCreated else Entry],
            main_at := (if i + 1 < NUM_THREADS then Create (i + 1) else Join 0)\<rparr>))
      | _ \<Rightarrow> None)"
| "thread_step JoinThread s =
     (case main_at s of
        Join i \<Rightarrow> if at s i NotCreated then Some (Inl Uninitialised)
                  else if at s i Exited then Some (Inl Dangling) else None
      | _ \<Rightarrow> None)"
| "thread_step (Lock i) s =
     (if mutex s \<noteq> None then None
      else if at s i Entry then Some (Inr (goto i Inside (s\<lparr>mutex := Some i\<rparr>)))
      else if at s i Woken then Some (Inr (goto i Resumed (s\<lparr>mutex := Some i\<rparr>)))
      else None)"
| "thread_step (Section i w) s =
     (if at s i Inside
      then (if is_add i then (if signal_ok s w then Some (Inr (add_body i w s)) else None)
            else Some (Inr (minus_body i s)))
      else if at s i Resumed then Some (Inr (minus_rest i s)) else None)"
| "thread_step (End i) s = (if at s i Outside then Some (Inr (goto i Exited s)) else None)"
| "thread_step (Spurious i) s =
     (if at s i CondWait then Some (Inr (goto i Woken s)) else None)"

inductive reach :: "state \<Rightarrow> bool" where
  start: "reach init"
| step: "reach s \<Longrightarrow> thread_step e s = Some (Inr s') \<Longrightarrow> reach s'"

interpretation add_minus: step_system thread_step reach init
  by unfold_locales (auto intro: reach.intros elim: reach.induct)


section \<open>The sum\<close>

text \<open>What a thread at a point of its code has done to the sum.\<close>

definition effect :: "nat \<Rightarrow> thread_pc \<Rightarrow> int" where
  "effect i p = (if p = Outside \<or> p = Exited then (if is_add i then int i else - 1) else 0)"

definition balance :: "thread_pc list \<Rightarrow> int" where
  "balance ps = (\<Sum>i<length ps. effect i (ps ! i))"

lemma balance_upd:
  assumes "i < length ps"
  shows "balance (ps[i := p]) = balance ps - effect i (ps ! i) + effect i p"
proof -
  have "balance (ps[i := p]) = effect i p + (\<Sum>j \<in> {..<length ps} - {i}. effect j (ps ! j))"
    using assms by (simp add: balance_def sum.remove [of _ i])
  moreover have "balance ps = effect i (ps ! i) + (\<Sum>j \<in> {..<length ps} - {i}. effect j (ps ! j))"
    using assms by (simp add: balance_def sum.remove [of _ i])
  ultimately show ?thesis by simp
qed

lemma balance_snoc [simp]: "balance (ps @ [p]) = balance ps + effect (length ps) p"
  by (simp add: balance_def nth_append)

definition thread_inv :: "state \<Rightarrow> bool" where
  "thread_inv s \<longleftrightarrow> g_sum s = balance (pcs s) \<and>
     (\<forall>i. at s i CondWait \<or> at s i Woken \<or> at s i Resumed \<longrightarrow> \<not> is_add i) \<and>
     (\<forall>i. mutex s = Some i \<longleftrightarrow> at s i Inside \<or> at s i Resumed)"

lemma at_goto: "at (goto i p s) j q \<longleftrightarrow> (if j = i then i < length (pcs s) \<and> p = q else at s j q)"
  by (auto simp: at_def goto_def nth_list_update)

lemma goto_simps [simp]:
  "g_sum (goto i p s) = g_sum s" "mutex (goto i p s) = mutex s" "main_at (goto i p s) = main_at s"
  "pcs (goto i p s) = (pcs s)[i := p]"
  by (simp_all add: goto_def)

lemma report_simps [simp]:
  "g_sum (report who i stage s) = g_sum s" "mutex (report who i stage s) = mutex s"
  "pcs (report who i stage s) = pcs s" "at (report who i stage s) = at s"
  by (simp_all add: report_def print_def at_def fun_eq_iff)

lemma at_simps [simp]:
  "at (s\<lparr>g_sum := x\<rparr>) = at s" "at (s\<lparr>mutex := m\<rparr>) = at s" "at (s\<lparr>main_at := a\<rparr>) = at s"
  by (simp_all add: at_def fun_eq_iff)

lemma at_unique: "at s i p \<Longrightarrow> at s i q \<longleftrightarrow> q = p"
  by (auto simp: at_def)

lemma move_inv:
  assumes inv: "thread_inv s" and p: "at s i p"
    and s': "pcs s' = (pcs s)[i := q]" "g_sum s' = g_sum s - effect i p + effect i q"
    and q: "q \<in> {CondWait, Woken, Resumed} \<Longrightarrow> \<not> is_add i"
    and m: "\<And>j. mutex s' = Some j \<longleftrightarrow> (if j = i then q \<in> {Inside, Resumed} else mutex s = Some j)"
  shows "thread_inv s'"
proof -
  have at: "at s' j r \<longleftrightarrow> (if j = i then r = q else at s j r)" for j r
    using p s'(1) by (auto simp: at_def nth_list_update)
  have "balance (pcs s') = balance (pcs s) - effect i p + effect i q"
    using p s'(1) balance_upd [of i "pcs s" q] by (simp add: at_def)
  then show ?thesis
    using inv s'(2) q unfolding thread_inv_def by (simp add: at m) blast
qed

lemma wake_inv:
  assumes "thread_inv s" "signal_ok s w"
  shows "thread_inv (wake w s)"
proof (cases w)
  case (Some k)
  then have k: "at s k CondWait" using assms(2) by (simp add: signal_ok_def)
  then have "mutex s \<noteq> Some k" "\<not> is_add k"
    using assms(1) at_unique [OF k] by (auto simp: thread_inv_def)
  then have "thread_inv (goto k Woken s)"
    using move_inv [OF assms(1) k, of "goto k Woken s" Woken] by (auto simp: effect_def)
  then show ?thesis using Some by (simp add: wake_def)
qed (use assms in \<open>simp add: wake_def\<close>)

lemma wake_simps [simp]: "g_sum (wake w s) = g_sum s" "mutex (wake w s) = mutex s"
  by (simp_all add: wake_def split: option.splits)

lemma wake_at: "signal_ok s w \<Longrightarrow> at s i Inside \<Longrightarrow> at (wake w s) i Inside"
  by (auto simp: wake_def signal_ok_def at_goto at_def nth_list_update split: option.splits)

lemma inside_owner: "thread_inv s \<Longrightarrow> at s i Inside \<or> at s i Resumed \<Longrightarrow> mutex s = Some i"
  by (simp add: thread_inv_def)

lemma add_inv:
  assumes inv: "thread_inv s" and i: "at s i Inside" "is_add i" and w: "signal_ok s w"
  shows "thread_inv (add_body i w s)"
proof -
  define t where "t = (if g_sum s + int i > BOUNDARY then wake w s else s)"
  have t: "thread_inv t" "at t i Inside" "g_sum t = g_sum s" "mutex t = mutex s"
    using wake_inv [OF inv w] wake_at [OF w i(1)] inv i by (simp_all add: t_def)
  have "pcs (add_body i w s) = (pcs t)[i := Outside]"
    by (simp add: add_body_def Let_def t_def wake_def split: option.splits)
  moreover have "g_sum (add_body i w s) = g_sum t - effect i Inside + effect i Outside"
    using i(2) t(3) by (simp add: add_body_def Let_def effect_def)
  moreover have "mutex (add_body i w s) = None" by (simp add: add_body_def Let_def)
  moreover have "mutex t = Some i" using inside_owner [OF t(1)] t(2) by blast
  ultimately show ?thesis
    by (intro move_inv [OF t(1,2), of _ Outside]) simp_all
qed

lemma minus_rest_inv:
  assumes inv: "thread_inv s" and i: "at s i p" "p = Inside \<or> p = Resumed" "\<not> is_add i"
  shows "thread_inv (minus_rest i s)"
proof (rule move_inv [OF inv i(1)])
  show "pcs (minus_rest i s) = (pcs s)[i := Outside]"
    "g_sum (minus_rest i s) = g_sum s - effect i p + effect i Outside"
    using i(2,3) by (auto simp: minus_rest_def Let_def effect_def)
  have "mutex s = Some i" using inside_owner [OF inv] i by blast
  then show "mutex (minus_rest i s) = Some j \<longleftrightarrow>
      (if j = i then Outside \<in> {Inside, Resumed} else mutex s = Some j)" for j
    by (simp add: minus_rest_def Let_def)
qed simp

lemma thread_inv_report [simp]: "thread_inv (report who i stage s) = thread_inv s"
  by (simp add: thread_inv_def)

lemma minus_inv:
  assumes inv: "thread_inv s" and i: "at s i Inside" "\<not> is_add i"
  shows "thread_inv (minus_body i s)"
proof -
  have "mutex s = Some i" using inside_owner [OF inv] i by blast
  then have "thread_inv (goto i CondWait ((report ''minus'' i ''..begin..'' s)\<lparr>mutex := None\<rparr>))"
    using i by (intro move_inv [OF inv i(1), of _ CondWait]) (simp_all add: effect_def)
  moreover have "thread_inv (minus_rest i (report ''minus'' i ''..begin..'' s))"
    using inv i by (intro minus_rest_inv [of _ i Inside]) simp_all
  ultimately show ?thesis by (simp add: minus_body_def Let_def)
qed

lemma thread_step_inv:
  assumes inv: "thread_inv s" and step: "thread_step e s = Some (Inr s')"
  shows "thread_inv s'"
proof (cases e)
  case (CreateThread r)
  let ?p = "if r \<noteq> 0 then NotCreated else Entry"
  have s': "g_sum s' = g_sum s" "mutex s' = mutex s" "pcs s' = pcs s @ [?p]"
    using step CreateThread by (auto simp: print_def Let_def split: main_pc.splits)
  then have "at s' i p \<longleftrightarrow> at s i p \<or> i = length (pcs s) \<and> p = ?p" for i p
    by (auto simp: at_def nth_append less_Suc_eq)
  then show ?thesis using inv s' by (auto simp: thread_inv_def effect_def)
next
  case JoinThread
  then show ?thesis using step by (auto split: main_pc.splits if_splits)
next
  case (Lock i)
  then have free: "mutex s = None" and "at s i Entry \<and> s' = goto i Inside (s\<lparr>mutex := Some i\<rparr>) \<or>
      at s i Woken \<and> s' = goto i Resumed (s\<lparr>mutex := Some i\<rparr>)"
    using step by (auto split: if_splits)
  then show ?thesis
  proof (elim disjE conjE)
    assume "at s i Entry" "s' = goto i Inside (s\<lparr>mutex := Some i\<rparr>)"
    then show ?thesis using free by (intro move_inv [OF inv, of i Entry _ Inside]) (simp_all add: effect_def)
  next
    assume i: "at s i Woken" "s' = goto i Resumed (s\<lparr>mutex := Some i\<rparr>)"
    then have "\<not> is_add i" using inv by (auto simp: thread_inv_def)
    then show ?thesis using i free by (intro move_inv [OF inv, of i Woken _ Resumed]) (simp_all add: effect_def)
  qed
next
  case (Section i w)
  have "at s i Resumed \<Longrightarrow> \<not> is_add i" using inv by (auto simp: thread_inv_def)
  then show ?thesis
    using step Section add_inv [OF inv] minus_inv [OF inv] minus_rest_inv [OF inv, of i Resumed]
    by (auto split: if_splits)
next
  case (End i)
  then have i: "at s i Outside" "s' = goto i Exited s" using step by (auto split: if_splits)
  moreover have "mutex s \<noteq> Some i"
    using inv at_unique [OF i(1)] by (auto simp: thread_inv_def)
  ultimately show ?thesis by (intro move_inv [OF inv, of i Outside _ Exited]) (auto simp: effect_def)
next
  case (Spurious i)
  then have i: "at s i CondWait" "s' = goto i Woken s" using step by (auto split: if_splits)
  moreover have "mutex s \<noteq> Some i" "\<not> is_add i"
    using inv i(1) at_unique [OF i(1)] by (auto simp: thread_inv_def)
  ultimately show ?thesis by (intro move_inv [OF inv, of i CondWait _ Woken]) (auto simp: effect_def)
qed

lemma thread_inv_init: "thread_inv init"
  by (simp add: thread_inv_def init_def balance_def at_def)

lemma reach_inv: "reach s \<Longrightarrow> thread_inv s"
  by (rule add_minus.invariant) (use thread_inv_init thread_step_inv in blast)+


section \<open>Schedules\<close>

text \<open>
  The five \<open>minus\<close> threads come first and wait. Of the \<open>add\<close> threads only the last three
  find the sum above the boundary after their addition, so they wake three of the five.
\<close>

definition lost_schedule :: "event list" where
  "lost_schedule = replicate 10 (CreateThread 0) @
     concat (map (\<lambda>i. [Lock i, Section i None]) [1, 3, 5, 7, 9]) @
     concat (map (\<lambda>(i, w). [Lock i, Section i (Some w), End i]) [(0, 1), (2, 1), (4, 1), (6, 3), (8, 5)]) @
     concat (map (\<lambda>i. [Lock i, Section i None, End i]) [1, 3, 5])"

lemma lost_run:
  "case run_events thread_step lost_schedule init of None \<Rightarrow> False
   | Some s \<Rightarrow> g_sum s = 17 \<and> mutex s = None \<and> main_at s = Join 0 \<and>
       pcs s = [Exited, Exited, Exited, Exited, Exited, Exited, Exited, CondWait, Exited, CondWait]"
  by code_simp

text \<open>
  A woken thread does not test the sum again: between the signal and its return from the
  wait three other \<open>minus\<close> threads bring the sum down to the boundary.
\<close>

definition below_schedule :: "event list" where
  "below_schedule = replicate 10 (CreateThread 0) @ [Lock 1, Section 1 None] @
     concat (map (\<lambda>i. [Lock i, Section i (Some 1)]) [0, 2, 4]) @
     concat (map (\<lambda>i. [Lock i, Section i None]) [3, 5, 7]) @ [Lock 1]"

lemma below_run:
  "case run_events thread_step below_schedule init of None \<Rightarrow> False
   | Some s \<Rightarrow> g_sum s = 3 \<and> at s 1 Resumed \<and>
       (case thread_step (Section 1 None) s of Some (Inr s') \<Rightarrow> g_sum s' = 2 | _ \<Rightarrow> False)"
  by code_simp

text \<open>With the \<open>add\<close> threads first nobody waits, and all threads end.\<close>

definition complete_schedule :: "event list" where
  "complete_schedule = replicate 10 (CreateThread 0) @
     concat (map (\<lambda>i. [Lock i, Section i None, End i]) [0, 2, 4, 6, 8, 1, 3, 5, 7, 9])"

lemma complete_run:
  "case run_events thread_step complete_schedule init of None \<Rightarrow> False
   | Some s \<Rightarrow> pcs s = replicate NUM_THREADS Exited"
  by code_simp


section \<open>Properties\<close>

text \<open>
  C23: the mutex protects the sum. In every reachable state at most the owner is in a
  critical section, and the sum is what the threads behind theirs have added and taken
  away; so when all ten have exited it is 15, whatever the schedule.
\<close>

theorem sum_is_protected:
  assumes "reach s"
  shows "(\<forall>i. (mutex s = Some i) = (at s i Inside \<or> at s i Resumed)) \<and>
    g_sum s = (\<Sum>i<length (pcs s). effect i (pcs s ! i)) \<and>
    (pcs s = replicate NUM_THREADS Exited \<longrightarrow> g_sum s = 15)"
proof -
  have inv: "thread_inv s" using assms by (rule reach_inv)
  have "balance (replicate NUM_THREADS Exited) = 15" by code_simp
  then show ?thesis using inv by (auto simp: thread_inv_def balance_def)
qed

theorem sum_is_protected_witness:
  "\<exists>s. reach s \<and> pcs s = replicate NUM_THREADS Exited \<and> g_sum s = 15"
proof -
  obtain s where s: "run_events thread_step complete_schedule init = Some s"
    "pcs s = replicate NUM_THREADS Exited"
    using complete_run by (auto split: option.splits)
  have "reach s" using s(1) by (rule add_minus.schedule_reach)
  then show ?thesis using sum_is_protected [of s] s(2) by auto
qed

text \<open>
  Two \<open>minus\<close> threads can wait forever. In a reachable state every other thread has
  exited, the sum is far above the boundary, and nothing but a wake-up out of thin air can
  happen to a thread: no lock, no critical section, no end.
\<close>

theorem waiting_threads_are_lost:
  "\<exists>s. reach s \<and> g_sum s = 17 \<and> at s 7 CondWait \<and> at s 9 CondWait \<and>
     (\<forall>i w. thread_step (Lock i) s = None \<and> thread_step (Section i w) s = None \<and>
        thread_step (End i) s = None)"
proof -
  obtain s where s: "run_events thread_step lost_schedule init = Some s" "g_sum s = 17"
    "pcs s = [Exited, Exited, Exited, Exited, Exited, Exited, Exited, CondWait, Exited, CondWait]"
    using lost_run by (auto split: option.splits)
  have pc: "p = Exited \<or> p = CondWait" if "at s i p" for i p
  proof -
    have "p \<in> set (pcs s)" using that by (auto simp: at_def)
    then show ?thesis by (auto simp: s(3))
  qed
  have "\<not> at s i Entry" "\<not> at s i Woken" "\<not> at s i Inside" "\<not> at s i Resumed" "\<not> at s i Outside" for i
    using pc [of i] by blast+
  moreover have "at s 7 CondWait" "at s 9 CondWait" by (simp_all add: at_def s(3))
  moreover have "reach s" using s(1) by (rule add_minus.schedule_reach)
  ultimately show ?thesis using s(2) by (intro exI [of _ s]) simp
qed

end
