(* ===== verification/FifoChannel.thy ===== *)
theory FifoChannel
  imports Prelude
begin

text \<open>
  The contract between a bounded message channel and its clients: a send either appends
  the message or refuses it and keeps the contents, a receive removes the oldest message
  or reports that there is none. A channel may only serve a bounded number of calls (its
  budget). The client runs any interleaving of sends and receives; what it receives is a
  prefix of what was accepted, in order, and nothing is lost in between.
\<close>

datatype 'm chan_op = Send 'm | Recv

fun run_ops :: "('m \<Rightarrow> 's \<Rightarrow> (bool \<times> 's) res) \<Rightarrow> ('s \<Rightarrow> ('m option \<times> 's) res) \<Rightarrow>
    'm chan_op list \<Rightarrow> 's \<Rightarrow> ('m list \<times> 'm list \<times> 's) res" where
  "run_ops send recv [] s = Inr ([], [], s)"
| "run_ops send recv (Send m # ops) s =
     bindE (send m s) (\<lambda>(ok, s').
     bindE (run_ops send recv ops s') (\<lambda>(acc, got, s'').
       Inr (if ok then m # acc else acc, got, s'')))"
| "run_ops send recv (Recv # ops) s =
     bindE (recv s) (\<lambda>(r, s').
     bindE (run_ops send recv ops s') (\<lambda>(acc, got, s'').
       Inr (acc, case r of None \<Rightarrow> got | Some m \<Rightarrow> m # got, s'')))"

fun good_op :: "('m \<Rightarrow> bool) \<Rightarrow> 'm chan_op \<Rightarrow> bool" where
  "good_op ok (Send m) = ok m"
| "good_op ok Recv = True"

locale fifo_channel =
  fixes send :: "'m \<Rightarrow> 's \<Rightarrow> (bool \<times> 's) res"
    and recv :: "'s \<Rightarrow> ('m option \<times> 's) res"
    and rep :: "'s \<Rightarrow> 'm list \<Rightarrow> bool"
    and good :: "'m \<Rightarrow> bool"
    and budget :: "'s \<Rightarrow> nat"
  assumes send_ok: "rep s q \<Longrightarrow> good m \<Longrightarrow> 0 < budget s \<Longrightarrow>
      \<exists>ok s'. send m s = Inr (ok, s') \<and> rep s' (if ok then q @ [m] else q) \<and>
              budget s \<le> Suc (budget s')"
    and recv_ok: "rep s q \<Longrightarrow> 0 < budget s \<Longrightarrow>
      \<exists>s'. recv s = Inr (case q of [] \<Rightarrow> None | m # _ \<Rightarrow> Some m, s') \<and> rep s' (tl q) \<and>
           budget s \<le> Suc (budget s')"
begin

lemma run_ok:
  "rep s q \<Longrightarrow> list_all (good_op good) ops \<Longrightarrow> length ops \<le> budget s \<Longrightarrow>
   \<exists>acc got s' q'. run_ops send recv ops s = Inr (acc, got, s') \<and> rep s' q' \<and>
     q @ acc = got @ q'"
proof (induction ops arbitrary: s q)
  case Nil
  then show ?case by auto
next
  case (Cons a ops)
  show ?case
  proof (cases a)
    case (Send m)
    with Cons.prems send_ok [of s q m] obtain ok s1 where 1: "send m s = Inr (ok, s1)"
      "rep s1 (if ok then q @ [m] else q)" "budget s \<le> Suc (budget s1)" by auto
    with Cons.prems Cons.IH [of s1 "if ok then q @ [m] else q"] obtain acc got s' q'
      where "run_ops send recv ops s1 = Inr (acc, got, s')" "rep s' q'"
        "(if ok then q @ [m] else q) @ acc = got @ q'" by auto
    with 1 show ?thesis by (cases ok) (auto simp: Send)
  next
    case Recv
    with Cons.prems recv_ok [of s q] obtain s1 where 1:
      "recv s = Inr (case q of [] \<Rightarrow> None | m # _ \<Rightarrow> Some m, s1)" "rep s1 (tl q)"
      "budget s \<le> Suc (budget s1)" by auto
    with Cons.prems Cons.IH [of s1 "tl q"] obtain acc got s' q'
      where "run_ops send recv ops s1 = Inr (acc, got, s')" "rep s' q'"
        "tl q @ acc = got @ q'" by auto
    with 1 show ?thesis by (cases q) (auto simp: Recv)
  qed
qed

end

end
