(* ===== verification/ShmRing.thy ===== *)
theory ShmRing
  imports Bytes FifoChannel
begin

text \<open>
  The shared-memory message ring of \<^verbatim>\<open>src/wzq_project/src/component/shm.{h,cpp}\<close> and its
  driver \<^verbatim>\<open>application/app_shm.cpp\<close>: the class \<open>Shm\<close> around the System V calls, the
  control block at the front of the segment, and the class \<open>ShareMemory\<close> with its two
  positions \<open>readPos\<close> and \<open>writePos\<close> and the direction \<open>iDir\<close>.

  A process state holds the fields of its \<open>ShareMemory\<close> object, the addresses at which
  the segment is attached, and the lines that \<open>display\<close> printed; the segment is shared.
  Every access through \<open>m_shmCtrl\<close> or \<open>m_addr\<close> checks that the address is attached.
\<close>

section \<open>The model\<close>

datatype ResultCode = RS_SUCCESS | RS_COMMON | RS_ALLOC | RS_NO_SHM

text \<open>
  The System V calls are a parameter: \<open>shmget\<close> (key, size, flags), \<open>shmat\<close> (addresses
  attached so far, id; \<open>None\<close> for failure), \<open>shmdt\<close> (address) and \<open>shmctl(IPC_RMID)\<close> (id).
\<close>

record shm_os =
  os_shmget :: "int \<Rightarrow> int \<Rightarrow> int \<Rightarrow> int"
  os_shmat :: "nat list \<Rightarrow> int \<Rightarrow> nat option"
  os_shmdt :: "nat \<Rightarrow> int"
  os_shmctl :: "int \<Rightarrow> int"

record Shm =
  iShmId :: int
  iShmKey :: int
  iShmSize :: int

definition Shm_new :: Shm where
  "Shm_new = \<lparr>iShmId = 0, iShmKey = 0, iShmSize = 0\<rparr>"

definition Shm_init :: "int \<Rightarrow> int \<Rightarrow> Shm \<Rightarrow> Shm" where
  "Shm_init key sz s = s\<lparr>iShmKey := key, iShmSize := sz\<rparr>"

text \<open>A failing \<open>shmget\<close> makes the result \<open>RS_SUCCESS\<close>, which is 0.\<close>

definition getShmId :: "shm_os \<Rightarrow> int \<Rightarrow> Shm \<Rightarrow> int \<times> Shm" where
  "getShmId os flag s =
     (if iShmId s > 0 then (iShmId s, s)
      else let i = os_shmget os (iShmKey s) (iShmSize s) flag; s' = s\<lparr>iShmId := i\<rparr> in
        if i < 0 then (0, s') else (i, s'))"

definition getAddr :: "shm_os \<Rightarrow> Shm \<Rightarrow> nat list \<Rightarrow> nat option \<times> nat list" where
  "getAddr os s att =
     (if iShmId s \<le> 0 then (None, att)
      else case os_shmat os att (iShmId s) of
        None \<Rightarrow> (None, att)
      | Some a \<Rightarrow> (Some a, a # att))"

definition getShm :: "shm_os \<Rightarrow> int \<Rightarrow> Shm \<Rightarrow> nat list \<Rightarrow> nat option \<times> Shm \<times> nat list" where
  "getShm os flag s att =
     (let (i, s') = getShmId os flag s in
      if i \<le> 0 then (None, s', att)
      else let (a, att') = getAddr os s' att in (a, s', att'))"

text \<open>The result is \<open>shmdt\<close>'s, or \<open>RS_COMMON\<close> (which is 1) for a NULL address.\<close>

definition detach :: "shm_os \<Rightarrow> nat option \<Rightarrow> nat list \<Rightarrow> int \<times> nat list" where
  "detach os addr att =
     (case addr of
        None \<Rightarrow> (1, att)
      | Some a \<Rightarrow> let r = os_shmdt os a in
          if r \<noteq> 0 then (r, att) else (r, remove1 a att))"

text \<open>After \<open>shmctl\<close> the id is tested again instead of the call's result.\<close>

definition delShm :: "shm_os \<Rightarrow> Shm \<Rightarrow> ResultCode" where
  "delShm os s =
     (if iShmId s \<le> 0 then RS_COMMON
      else let iRet = os_shmctl os (iShmId s) in
        if iShmId s \<le> 0 then RS_SUCCESS else RS_SUCCESS)"

record SHM_CONTROL =
  iInitFlag :: int
  iDir :: int
  startPos :: int
  endPos :: int
  readPos :: int
  writePos :: int

record SHM_DATA_HEAD =
  iFlag :: int
  iSize :: int

definition head_bytes :: "SHM_DATA_HEAD \<Rightarrow> byte list" where
  "head_bytes h = put_i32 (iFlag h) @ put_i32 (iSize h)"

definition bytes_head :: "byte list \<Rightarrow> SHM_DATA_HEAD" where
  "bytes_head bs = \<lparr>iFlag = get_i32 (take 4 bs), iSize = get_i32 (drop 4 bs)\<rparr>"

text \<open>
  A segment: the control block, and all its bytes. The first 24 bytes are the control
  block's, so data accesses below offset 24 count as out of bounds.
\<close>

record shm_seg =
  ctrl :: SHM_CONTROL
  body :: "byte list"

definition ctrl_size :: nat where "ctrl_size = 24"

definition head_size :: int where "head_size = 8"

definition new_seg :: "nat \<Rightarrow> shm_seg" where
  "new_seg n = \<lparr>ctrl = \<lparr>iInitFlag = 0, iDir = 0, startPos = 0, endPos = 0, readPos = 0,
       writePos = 0\<rparr>,
     body = replicate n 0\<rparr>"

record ShareMemory =
  m_shm :: "Shm option"
  m_addr :: "nat option"
  m_shmCtrl :: "nat option"
  attached :: "nat list"
  shown :: "(string \<times> SHM_CONTROL) list"

definition ShareMemory_new :: ShareMemory where
  "ShareMemory_new = \<lparr>m_shm = None, m_addr = None, m_shmCtrl = None, attached = [], shown = []\<rparr>"

text \<open>Dereferencing \<open>m_shmCtrl\<close>.\<close>

definition ShareMemory_delete :: "ShareMemory \<Rightarrow> ShareMemory" where
  "ShareMemory_delete p = p\<lparr>m_shm := None\<rparr>"

definition the_ctrl :: "ShareMemory \<Rightarrow> shm_seg \<Rightarrow> SHM_CONTROL res" where
  "the_ctrl p g =
     (case m_shmCtrl p of
        None \<Rightarrow> Inl NullDeref
      | Some a \<Rightarrow> if a \<in> set (attached p) then
                   (if ctrl_size \<le> length (body g) then Inr (ctrl g) else Inl OutOfBounds)
                 else Inl Dangling)"

definition display :: "string \<Rightarrow> ShareMemory \<Rightarrow> shm_seg \<Rightarrow> ShareMemory res" where
  "display label p g = bindE (the_ctrl p g) (\<lambda>c. Inr (p\<lparr>shown := shown p @ [(label, c)]\<rparr>))"

text \<open>\<open>m_addr = m_shm->getShm(IPC_MODE)\<close>; the flags are \<open>IPC_CREAT|0666\<close>.\<close>

definition IPC_MODE :: int where "IPC_MODE = 950"

definition attach :: "shm_os \<Rightarrow> ShareMemory \<Rightarrow> ShareMemory res" where
  "attach os p =
     (case m_shm p of
        None \<Rightarrow> Inl NullDeref
      | Some s \<Rightarrow> let (a, s', att) = getShm os IPC_MODE s (attached p) in
          Inr (p\<lparr>m_shm := Some s', m_addr := a, attached := att\<rparr>))"

text \<open>The tail of every operation: detach, and \<open>RS_COMMON\<close> when that fails.\<close>

definition finish :: "shm_os \<Rightarrow> ShareMemory \<Rightarrow> ResultCode \<times> ShareMemory" where
  "finish os p =
     (let (iRet, att) = detach os (m_addr p) (attached p); p' = p\<lparr>attached := att\<rparr> in
      if iRet \<noteq> 0 then (RS_COMMON, p') else (RS_SUCCESS, p'))"

definition init :: "shm_os \<Rightarrow> int \<Rightarrow> int \<Rightarrow> ShareMemory \<Rightarrow> shm_seg \<Rightarrow>
    (ResultCode \<times> ShareMemory \<times> shm_seg) res" where
  "init os key sz p0 g =
     (let s = (case m_shm p0 of None \<Rightarrow> Shm_new | Some s \<Rightarrow> s);
          p1 = p0\<lparr>m_shm := Some (Shm_init key sz s)\<rparr> in
      bindE (attach os p1) (\<lambda>p2.
        if m_addr p2 = None then Inr (RS_COMMON, p2, g)
        else let p = p2\<lparr>m_shmCtrl := m_addr p2\<rparr> in
          bindE (the_ctrl p g) (\<lambda>c.
            let g' = (if iInitFlag c \<noteq> 1
                      then g\<lparr>ctrl := \<lparr>iInitFlag = 1, iDir = 1, startPos = int ctrl_size,
                             endPos = sz, readPos = int ctrl_size,
                             writePos = int ctrl_size\<rparr>\<rparr>
                      else g);
                (r, p') = finish os p
            in Inr (r, p', g'))))"

text \<open>
  \<open>judegeWrite\<close>: the sum with \<open>sizeof\<close> is a \<open>size_t\<close> that is converted back to \<open>int\<close>,
  the positions are added as \<open>int\<close>s.
\<close>

definition judegeWrite :: "SHM_DATA_HEAD \<Rightarrow> SHM_CONTROL \<Rightarrow> (bool \<times> SHM_CONTROL) res" where
  "judegeWrite head c0 =
     (let sz = to_i32 (to_u64 (iSize head) + head_size);
          second = (\<lambda>c. if writePos c < readPos c
                        then bindE (ck (writePos c + sz)) (\<lambda>e. Inr (e \<le> readPos c, c))
                        else Inr (False, c))
      in if writePos c0 > readPos c0 \<or> iDir c0 > 0 \<and> writePos c0 = readPos c0
         then bindE (ck (writePos c0 + sz)) (\<lambda>e.
           if e \<le> endPos c0 then Inr (True, c0)
           else bindE (ck (iDir c0 * - 1)) (\<lambda>d.
             second (c0\<lparr>writePos := startPos c0, iDir := d\<rparr>)))
         else second c0)"

text \<open>
  \<open>judegeRead\<close>: the comparisons with \<open>endPos\<close> are made on \<open>size_t\<close>; the head is only
  looked at when it lies in front of \<open>endPos\<close>.
\<close>

definition judegeRead :: "byte list \<Rightarrow> SHM_CONTROL \<Rightarrow> (bool \<times> SHM_CONTROL) res" where
  "judegeRead m c0 =
     (let last = (\<lambda>c. (writePos c > readPos c, c));
          turn = bindE (ck (iDir c0 * - 1)) (\<lambda>d.
                   Inr (last (c0\<lparr>readPos := startPos c0, iDir := d\<rparr>)))
      in if writePos c0 < readPos c0 \<or> iDir c0 < 0 \<and> writePos c0 = readPos c0
         then if to_u64 (readPos c0 + head_size) < to_u64 (endPos c0)
              then bindE (peek ctrl_size m (readPos c0 + 4) 4) (\<lambda>bs.
                let isz = get_i32 bs in
                if isz > 0 \<and> to_u64 (readPos c0 + head_size + isz) \<le> to_u64 (endPos c0)
                then Inr (True, c0) else turn)
              else turn
         else Inr (last c0))"

text \<open>
  \<open>readData\<close>: the head and the content are copied to the caller's buffer (\<open>buf\<close>, which
  must have room for the content), the bytes of the message are zeroed and \<open>readPos\<close> moves
  on. The first \<open>display\<close> still uses the \<open>m_shmCtrl\<close> of the previous call. A refusal
  returns without detaching.
\<close>

definition copy_out :: "byte list \<Rightarrow> SHM_CONTROL \<Rightarrow> byte list \<Rightarrow>
    (SHM_DATA_HEAD \<times> byte list \<times> SHM_CONTROL \<times> byte list) res" where
  "copy_out m c buf =
     bindE (peek ctrl_size m (readPos c) 8) (\<lambda>hb.
     let head = bytes_head hb; n = nat (to_u64 (iSize head)) in
     bindE (peek ctrl_size m (readPos c + head_size) n) (\<lambda>bs.
     if length buf < n then Inl OutOfBounds
     else bindE (poke ctrl_size m (readPos c)
            (replicate (nat (to_u64 (head_size + iSize head))) 0)) (\<lambda>m'.
       Inr (head, bs @ drop n buf,
            c\<lparr>readPos := to_i32 (to_u64 (readPos c) + (head_size + iSize head))\<rparr>, m'))))"

definition readData :: "shm_os \<Rightarrow> SHM_DATA_HEAD \<Rightarrow> byte list \<Rightarrow> ShareMemory \<Rightarrow> shm_seg \<Rightarrow>
    (ResultCode \<times> SHM_DATA_HEAD \<times> byte list \<times> ShareMemory \<times> shm_seg) res" where
  "readData os head buf p0 g =
     bindE (attach os p0) (\<lambda>p1.
     if m_addr p1 = None then Inr (RS_COMMON, head, buf, p1, g)
     else bindE (display ''ReadBefore:'' p1 g) (\<lambda>p2.
       let p3 = p2\<lparr>m_shmCtrl := m_addr p2\<rparr> in
       bindE (the_ctrl p3 g) (\<lambda>c.
       bindE (judegeRead (body g) c) (\<lambda>(ok, c1).
         if \<not> ok then Inr (RS_NO_SHM, head, buf, p3, g\<lparr>ctrl := c1\<rparr>)
         else bindE (copy_out (body g) c1 buf) (\<lambda>(head', buf', c2, m).
           let g' = g\<lparr>ctrl := c2, body := m\<rparr> in
           bindE (display ''ReadEnd:'' p3 g') (\<lambda>p4.
             let (r, p5) = finish os p4 in Inr (r, head', buf', p5, g')))))))"

definition copy_in :: "byte list \<Rightarrow> SHM_CONTROL \<Rightarrow> SHM_DATA_HEAD \<Rightarrow> byte list \<Rightarrow>
    (SHM_CONTROL \<times> byte list) res" where
  "copy_in m c head content =
     bindE (poke ctrl_size m (writePos c) (head_bytes head)) (\<lambda>m1.
     let n = nat (to_u64 (iSize head)) in
     if length content < n then Inl OutOfBounds
     else bindE (poke ctrl_size m1 (writePos c + head_size) (take n content)) (\<lambda>m2.
       Inr (c\<lparr>writePos := to_i32 (to_u64 (writePos c) + (head_size + iSize head))\<rparr>, m2)))"

definition writeData :: "shm_os \<Rightarrow> SHM_DATA_HEAD \<Rightarrow> byte list \<Rightarrow> ShareMemory \<Rightarrow> shm_seg \<Rightarrow>
    (ResultCode \<times> ShareMemory \<times> shm_seg) res" where
  "writeData os head content p0 g =
     bindE (attach os p0) (\<lambda>p1.
     if m_addr p1 = None then Inr (RS_COMMON, p1, g)
     else let p2 = p1\<lparr>m_shmCtrl := m_addr p1\<rparr> in
       bindE (display ''WriteBefore:'' p2 g) (\<lambda>p3.
       bindE (judegeWrite head (ctrl g)) (\<lambda>(ok, c1).
         if \<not> ok then Inr (RS_NO_SHM, p3, g\<lparr>ctrl := c1\<rparr>)
         else bindE (copy_in (body g) c1 head content) (\<lambda>(c2, m).
           let g' = g\<lparr>ctrl := c2, body := m\<rparr> in
           bindE (display ''WriteEnd:'' p3 g') (\<lambda>p4.
             let (r, p5) = finish os p4 in Inr (r, p5, g'))))))"


section \<open>Messages in the segment\<close>

type_synonym msg = "int \<times> byte list"

abbreviation zeros :: "nat \<Rightarrow> byte list" where "zeros n \<equiv> replicate n 0"

definition head_of :: "msg \<Rightarrow> SHM_DATA_HEAD" where
  "head_of m = \<lparr>iFlag = fst m, iSize = int (length (snd m))\<rparr>"

definition enc :: "msg \<Rightarrow> byte list" where
  "enc m = head_bytes (head_of m) @ snd m"

definition encs :: "msg list \<Rightarrow> byte list" where
  "encs q = concat (map enc q)"

text \<open>A message that fits \<open>int\<close> arithmetic on positions of a segment of \<open>n\<close> bytes.\<close>

definition good_msg :: "nat \<Rightarrow> msg \<Rightarrow> bool" where
  "good_msg n m \<longleftrightarrow> is_i32 (fst m) \<and> snd m \<noteq> [] \<and> int (length (snd m) + 8 + n) \<le> INT_MAX"

lemma length_head_bytes [simp]: "length (head_bytes h) = 8"
  by (simp add: head_bytes_def)

lemma length_enc: "length (enc m) = 8 + length (snd m)"
  by (simp add: enc_def)

lemma encs_simps [simp]:
  "encs [] = []" "encs (m # q) = enc m @ encs q" "encs (q @ q') = encs q @ encs q'"
  by (simp_all add: encs_def)

lemma bytes_head_of:
  "good_msg n m \<Longrightarrow> bytes_head (head_bytes (head_of m)) = head_of m"
  by (simp add: bytes_head_def head_bytes_def head_of_def good_msg_def is_i32_nonneg)

lemma zeros_add: "zeros (a + b) = zeros a @ zeros b"
  by (rule replicate_add)

lemma poke_at:
  "off = int (length a) \<Longrightarrow> lo \<le> length a \<Longrightarrow> length bs = k \<Longrightarrow>
   poke lo (a @ zeros k @ c) off bs = Inr (a @ bs @ c)"
  by (rule poke_mid) simp_all

lemma copy_in_mid:
  assumes w: "writePos c = int (length A)" and lo: "24 \<le> length A"
    and k: "k = length (enc m)" and m: "good_msg n m" and le: "int (length A + k) \<le> INT_MAX"
  shows "copy_in (A @ zeros k @ C) c (head_of m) (snd m @ extra) =
    Inr (c\<lparr>writePos := int (length A + k)\<rparr>, A @ enc m @ C)"
proof -
  let ?n = "length (snd m)"
  have k8: "k = 8 + ?n" using k by (simp add: length_enc)
  have n: "nat (to_u64 (int ?n)) = ?n"
    using le k8 by (simp add: INT_MAX_def)
  have 1: "poke ctrl_size (A @ zeros k @ C) (writePos c) (head_bytes (head_of m)) =
      Inr (A @ head_bytes (head_of m) @ zeros ?n @ C)"
    using poke_at [of "writePos c" A ctrl_size "head_bytes (head_of m)" 8 "zeros ?n @ C"]
    by (simp add: k8 zeros_add w lo ctrl_size_def)
  have 2: "poke ctrl_size (A @ head_bytes (head_of m) @ zeros ?n @ C)
      (writePos c + head_size) (snd m) = Inr (A @ enc m @ C)"
    using poke_at [of "writePos c + head_size" "A @ head_bytes (head_of m)" ctrl_size "snd m" ?n C] lo
    by (simp add: w ctrl_size_def head_size_def enc_def)
  have "to_i32 (to_u64 (writePos c) + (head_size + int ?n)) = int (length A + k)"
  proof -
    have u: "to_u64 (int (length A)) = int (length A)"
      using le by (simp add: INT_MAX_def)
    have "is_i32 (int (length A) + (8 + int ?n))"
      using le k8 by (simp add: is_i32_nonneg)
    then show ?thesis
      unfolding w u by (simp add: head_size_def k8)
  qed
  then show ?thesis
    unfolding copy_in_def 1 using n 2 by (simp add: head_of_def)
qed

lemma copy_out_mid:
  assumes r: "readPos c = int (length A)" and lo: "24 \<le> length A"
    and k: "k = length (enc m)" and m: "good_msg n m" and le: "int (length A + k) \<le> INT_MAX"
    and buf: "length (snd m) \<le> length buf"
  shows "copy_out (A @ enc m @ C) c buf =
    Inr (head_of m, snd m @ drop (length (snd m)) buf, c\<lparr>readPos := int (length A + k)\<rparr>,
         A @ zeros k @ C)"
proof -
  let ?n = "length (snd m)"
  have k8: "k = 8 + ?n" using k by (simp add: length_enc)
  have u: "to_u64 (int x) = int x" if "x \<le> length A + k" for x
  proof -
    have "int x \<le> INT_MAX" using le that by simp
    then show ?thesis by (simp add: INT_MAX_def)
  qed
  have n: "nat (to_u64 (iSize (head_of m))) = ?n" "nat (to_u64 (head_size + iSize (head_of m))) = k"
    using u [of ?n] u [of k] k8 by (simp_all add: head_size_def head_of_def)
  have 1: "peek ctrl_size (A @ enc m @ C) (readPos c) 8 = Inr (head_bytes (head_of m))"
    using peek_mid [of "readPos c" A ctrl_size 8 "head_bytes (head_of m)" "snd m @ C"]
    by (simp add: r lo ctrl_size_def enc_def)
  have 2: "peek ctrl_size (A @ enc m @ C) (readPos c + head_size) ?n = Inr (snd m)"
    using peek_mid [of "readPos c + head_size" "A @ head_bytes (head_of m)" ctrl_size ?n "snd m" C] lo
    by (simp add: r ctrl_size_def head_size_def enc_def)
  have 3: "poke ctrl_size (A @ enc m @ C) (readPos c) (zeros k) = Inr (A @ zeros k @ C)"
    using poke_mid [of "readPos c" A ctrl_size "zeros k" "enc m" C]
    by (simp add: r lo ctrl_size_def k)
  have "is_i32 (int (length A) + (8 + int ?n))"
    using le k8 by (simp add: is_i32_nonneg)
  then have "to_i32 (to_u64 (readPos c) + (head_size + iSize (head_of m))) = int (length A + k)"
    using u [of "length A"] by (simp add: r head_size_def head_of_def k8)
  then show ?thesis
    unfolding copy_out_def 1 using bytes_head_of [OF m] n 2 3 buf
    by (simp add: Let_def)
qed

section \<open>The two shapes of the ring\<close>

definition frame :: "nat \<Rightarrow> SHM_CONTROL \<Rightarrow> byte list \<Rightarrow> bool" where
  "frame n c b \<longleftrightarrow> iInitFlag c = 1 \<and> startPos c = 24 \<and> endPos c = int n \<and>
     24 \<le> n \<and> int n \<le> INT_MAX \<and> length b = n"

text \<open>Straight: the messages lie between \<open>readPos\<close> and \<open>writePos\<close>.\<close>

definition straight :: "nat \<Rightarrow> SHM_CONTROL \<Rightarrow> byte list \<Rightarrow> msg list \<Rightarrow> bool" where
  "straight n c b q \<longleftrightarrow> frame n c b \<and> iDir c = 1 \<and> list_all (good_msg n) q \<and>
     (\<exists>pre a z. length pre = 24 \<and> b = pre @ zeros a @ encs q @ zeros z \<and>
        readPos c = int (24 + a) \<and> writePos c = int (24 + a + length (encs q)))"

text \<open>Wrapped: the older messages start at \<open>readPos\<close>, the newer ones end at \<open>writePos\<close>.\<close>

definition wrapped :: "nat \<Rightarrow> SHM_CONTROL \<Rightarrow> byte list \<Rightarrow> msg list \<Rightarrow> msg list \<Rightarrow> bool" where
  "wrapped n c b q1 q2 \<longleftrightarrow> frame n c b \<and> iDir c = - 1 \<and> list_all (good_msg n) (q1 @ q2) \<and>
     (\<exists>pre a z. length pre = 24 \<and> b = pre @ encs q2 @ zeros a @ encs q1 @ zeros z \<and>
        writePos c = int (24 + length (encs q2)) \<and>
        readPos c = int (24 + length (encs q2) + a))"

definition layout :: "nat \<Rightarrow> SHM_CONTROL \<Rightarrow> byte list \<Rightarrow> msg list \<Rightarrow> bool" where
  "layout n c b q \<longleftrightarrow> straight n c b q \<or> (\<exists>q1 q2. q = q1 @ q2 \<and> wrapped n c b q1 q2)"


lemma straightI:
  "frame n c b \<Longrightarrow> iDir c = 1 \<Longrightarrow> list_all (good_msg n) q \<Longrightarrow> length pre = 24 \<Longrightarrow>
   b = pre @ zeros a @ encs q @ zeros z \<Longrightarrow> readPos c = int (24 + a) \<Longrightarrow>
   writePos c = int (24 + a + length (encs q)) \<Longrightarrow> straight n c b q"
  unfolding straight_def by blast

lemma wrappedI:
  "frame n c b \<Longrightarrow> iDir c = - 1 \<Longrightarrow> list_all (good_msg n) (q1 @ q2) \<Longrightarrow> length pre = 24 \<Longrightarrow>
   b = pre @ encs q2 @ zeros a @ encs q1 @ zeros z \<Longrightarrow>
   writePos c = int (24 + length (encs q2)) \<Longrightarrow>
   readPos c = int (24 + length (encs q2) + a) \<Longrightarrow> wrapped n c b q1 q2"
  unfolding wrapped_def by blast

lemma encs_Nil_iff [simp]: "encs q = [] \<longleftrightarrow> q = []"
  by (cases q) (simp_all add: enc_def head_bytes_def put_i32_def)

lemma frame_upd [simp]:
  "frame n (c\<lparr>iDir := d\<rparr>) b = frame n c b" "frame n (c\<lparr>readPos := x\<rparr>) b = frame n c b"
  "frame n (c\<lparr>writePos := y\<rparr>) b = frame n c b"
  by (simp_all add: frame_def)

lemma straight_wrapped:
  assumes "straight n c b q" shows "wrapped n (c\<lparr>writePos := 24, iDir := - 1\<rparr>) b q []"
proof -
  obtain pre a z where "length pre = 24" "b = pre @ zeros a @ encs q @ zeros z"
    "readPos c = int (24 + a)" using assms by (auto simp: straight_def)
  then show ?thesis
    using assms by (intro wrappedI [of _ _ _ _ _ pre a z]) (auto simp: straight_def)
qed

lemma wrapped_straight:
  assumes "wrapped n c b [] q" shows "straight n (c\<lparr>readPos := 24, iDir := 1\<rparr>) b q"
proof -
  obtain pre a z where "length pre = 24" "b = pre @ encs q @ zeros a @ zeros z"
    "writePos c = int (24 + length (encs q))" using assms by (auto simp: wrapped_def)
  then show ?thesis
    using assms by (intro straightI [of _ _ _ _ pre 0 "a + z"]) (auto simp: wrapped_def zeros_add)
qed

section \<open>Writing\<close>

lemma write_size:
  assumes "good_msg n m"
  shows "to_i32 (to_u64 (iSize (head_of m)) + head_size) = int (length (enc m))"
proof -
  have "to_u64 (int (length (snd m))) = int (length (snd m))"
    using assms by (simp add: good_msg_def INT_MAX_def)
  moreover have "is_i32 (int (length (snd m)) + 8)"
    using assms by (simp add: good_msg_def is_i32_nonneg)
  ultimately show ?thesis
    by (simp add: head_of_def head_size_def length_enc)
qed

lemma ck_pos: "good_msg n m \<Longrightarrow> 0 \<le> x \<Longrightarrow> x \<le> int n \<Longrightarrow>
    ck (x + int (length (enc m))) = Inr (x + int (length (enc m)))"
  by (simp add: good_msg_def is_i32_nonneg length_enc)

lemma straight_pos:
  assumes "straight n c b q"
  shows "24 \<le> readPos c" "readPos c \<le> writePos c" "writePos c \<le> int n" "startPos c = 24"
    "endPos c = int n" "iDir c = 1" "writePos c = readPos c \<longleftrightarrow> q = []"
  using assms by (auto simp: straight_def frame_def length_enc neq_Nil_conv)

lemma wrapped_pos:
  assumes "wrapped n c b q1 q2"
  shows "24 \<le> writePos c" "writePos c \<le> readPos c" "readPos c \<le> int n" "startPos c = 24"
    "endPos c = int n" "iDir c = - 1" "q1 \<noteq> [] \<Longrightarrow> readPos c + 8 < int n"
  using assms
  by (auto simp: wrapped_def frame_def length_enc neq_Nil_conv good_msg_def)

lemma judegeWrite_wrapped:
  assumes "wrapped n c b q1 q2" "good_msg n m"
  shows "judegeWrite (head_of m) c =
    Inr (writePos c + int (length (enc m)) \<le> readPos c, c)"
proof -
  have "0 < length (enc m)" by (simp add: length_enc)
  then show ?thesis
    using wrapped_pos [OF assms(1)] ck_pos [OF assms(2), of "writePos c"]
    unfolding judegeWrite_def write_size [OF assms(2)] by auto
qed

lemma judegeWrite_straight:
  assumes "straight n c b q" "good_msg n m"
  shows "judegeWrite (head_of m) c =
    (if writePos c + int (length (enc m)) \<le> int n then Inr (True, c)
     else Inr (24 + int (length (enc m)) \<le> readPos c, c\<lparr>writePos := 24, iDir := - 1\<rparr>))"
proof -
  have "0 < length (enc m)" by (simp add: length_enc)
  moreover have "ck (- 1) = Inr (- 1)"
    by (simp add: is_i32_def INT_MIN_def INT_MAX_def)
  ultimately show ?thesis
    using straight_pos [OF assms(1)] ck_pos [OF assms(2), of "writePos c"]
      ck_pos [OF assms(2), of 24]
    unfolding judegeWrite_def write_size [OF assms(2)] by auto
qed

lemma copy_in_straight:
  assumes s: "straight n c b q" and m: "good_msg n m"
    and fit: "writePos c + int (length (enc m)) \<le> int n"
  shows "\<exists>c' b'. copy_in b c (head_of m) (snd m @ extra) = Inr (c', b') \<and> straight n c' b' (q @ [m]) \<and>
    readPos c' = readPos c \<and> writePos c' = writePos c + int (length (enc m))"
proof -
  obtain pre a z where b: "length pre = 24" "b = pre @ zeros a @ encs q @ zeros z"
    "readPos c = int (24 + a)" "writePos c = int (24 + a + length (encs q))"
    using s by (auto simp: straight_def)
  let ?k = "length (enc m)" and ?A = "pre @ zeros a @ encs q"
  have len: "length b = n" "int n \<le> INT_MAX" using s by (auto simp: straight_def frame_def)
  then have "24 + a + length (encs q) + z = n" using b by simp
  then obtain z' where z: "z = ?k + z'"
    using fit b(4) le_Suc_ex [of ?k z] by auto
  have "copy_in (?A @ zeros ?k @ zeros z') c (head_of m) (snd m @ extra) =
      Inr (c\<lparr>writePos := int (length ?A + ?k)\<rparr>, ?A @ enc m @ zeros z')"
    using b fit len m by (intro copy_in_mid) auto
  moreover have "?A @ zeros ?k @ zeros z' = b" using b z by (simp add: zeros_add)
  moreover have "straight n (c\<lparr>writePos := int (length ?A + ?k)\<rparr>) (?A @ enc m @ zeros z') (q @ [m])"
    using s m b len z by (intro straightI [of _ _ _ _ pre a z']) (auto simp: straight_def frame_def)
  ultimately show ?thesis
    using b by (intro exI [of _ "c\<lparr>writePos := int (length ?A + ?k)\<rparr>"]) auto
qed

lemma copy_in_wrapped:
  assumes s: "wrapped n c b q1 q2" and m: "good_msg n m"
    and fit: "writePos c + int (length (enc m)) \<le> readPos c"
  shows "\<exists>c' b'. copy_in b c (head_of m) (snd m @ extra) = Inr (c', b') \<and>
    wrapped n c' b' q1 (q2 @ [m]) \<and>
    readPos c' = readPos c \<and> writePos c' = writePos c + int (length (enc m))"
proof -
  obtain pre a z where b: "length pre = 24" "b = pre @ encs q2 @ zeros a @ encs q1 @ zeros z"
    "writePos c = int (24 + length (encs q2))" "readPos c = int (24 + length (encs q2) + a)"
    using s by (auto simp: wrapped_def)
  let ?k = "length (enc m)" and ?A = "pre @ encs q2"
  have len: "length b = n" "int n \<le> INT_MAX" using s by (auto simp: wrapped_def frame_def)
  obtain a' where a: "a = ?k + a'"
    using fit b(3,4) le_Suc_ex [of ?k a] by auto
  let ?C = "zeros a' @ encs q1 @ zeros z"
  have "int (length ?A + ?k) \<le> INT_MAX" using b len fit by auto
  moreover have eq: "b = ?A @ zeros ?k @ ?C" using b a by (simp add: zeros_add)
  ultimately have "copy_in b c (head_of m) (snd m @ extra) =
      Inr (c\<lparr>writePos := int (length ?A + ?k)\<rparr>, ?A @ enc m @ ?C)"
    unfolding eq using b m by (intro copy_in_mid) auto
  moreover have "wrapped n (c\<lparr>writePos := int (length ?A + ?k)\<rparr>) (?A @ enc m @ ?C) q1 (q2 @ [m])"
    using s m b len a by (intro wrappedI [of _ _ _ _ _ pre a' z]) (auto simp: wrapped_def frame_def)
  ultimately show ?thesis
    using b by (intro exI [of _ "c\<lparr>writePos := int (length ?A + ?k)\<rparr>"]) auto
qed

lemma ring_write:
  assumes "layout n c b q" "good_msg n m"
  shows "\<exists>ok c1. judegeWrite (head_of m) c = Inr (ok, c1) \<and>
    (if ok then \<exists>c2 b2. copy_in b c1 (head_of m) (snd m @ extra) = Inr (c2, b2) \<and> layout n c2 b2 (q @ [m])
     else layout n c1 b q)"
  using assms(1) unfolding layout_def
proof
  assume s: "straight n c b q"
  have w: "wrapped n (c\<lparr>writePos := 24, iDir := - 1\<rparr>) b q []" by (rule straight_wrapped [OF s])
  show "\<exists>ok c1. judegeWrite (head_of m) c = Inr (ok, c1) \<and>
    (if ok then \<exists>c2 b2. copy_in b c1 (head_of m) (snd m @ extra) = Inr (c2, b2) \<and>
        (straight n c2 b2 (q @ [m]) \<or> (\<exists>q1 q2. q @ [m] = q1 @ q2 \<and> wrapped n c2 b2 q1 q2))
     else straight n c1 b q \<or> (\<exists>q1 q2. q = q1 @ q2 \<and> wrapped n c1 b q1 q2))"
    using judegeWrite_straight [OF s assms(2)] copy_in_straight [OF s assms(2)]
      copy_in_wrapped [OF w assms(2)] w
    by (cases "writePos c + int (length (enc m)) \<le> int n";
        cases "24 + int (length (enc m)) \<le> readPos c") fastforce+
next
  assume "\<exists>q1 q2. q = q1 @ q2 \<and> wrapped n c b q1 q2"
  then obtain q1 q2 where s: "q = q1 @ q2" "wrapped n c b q1 q2" by auto
  show "\<exists>ok c1. judegeWrite (head_of m) c = Inr (ok, c1) \<and>
    (if ok then \<exists>c2 b2. copy_in b c1 (head_of m) (snd m @ extra) = Inr (c2, b2) \<and>
        (straight n c2 b2 (q @ [m]) \<or> (\<exists>q1 q2. q @ [m] = q1 @ q2 \<and> wrapped n c2 b2 q1 q2))
     else straight n c1 b q \<or> (\<exists>q1 q2. q = q1 @ q2 \<and> wrapped n c1 b q1 q2))"
    using judegeWrite_wrapped [OF s(2) assms(2)] copy_in_wrapped [OF s(2) assms(2)] s
    by (cases "writePos c + int (length (enc m)) \<le> readPos c") fastforce+
qed


section \<open>Reading\<close>

lemma enc_size_bytes:
  assumes "good_msg n m"
  shows "enc m = put_i32 (fst m) @ put_i32 (int (length (snd m))) @ snd m"
  by (simp add: enc_def head_bytes_def head_of_def)

lemma frame_u64:
  "frame n c b \<Longrightarrow> 0 \<le> x \<Longrightarrow> x \<le> int n + INT_MAX \<Longrightarrow> to_u64 x = x"
  by (simp add: frame_def INT_MAX_def)

lemma judegeRead_straight:
  assumes "straight n c b q"
  shows "judegeRead b c = Inr (q \<noteq> [], c)"
  using straight_pos [OF assms] unfolding judegeRead_def Let_def by auto

lemma judegeRead_older:
  assumes s: "wrapped n c b (m # q1) q2"
  shows "judegeRead b c = Inr (True, c)"
proof -
  obtain pre a z where b: "length pre = 24" "b = pre @ encs q2 @ zeros a @ encs (m # q1) @ zeros z"
    "readPos c = int (24 + length (encs q2) + a)"
    using s by (auto simp: wrapped_def)
  have m: "good_msg n m" and fr: "frame n c b" using s by (simp_all add: wrapped_def)
  let ?A = "pre @ encs q2 @ zeros a @ put_i32 (fst m)"
  let ?C = "snd m @ encs q1 @ zeros z"
  have "b = ?A @ put_i32 (int (length (snd m))) @ ?C"
    by (simp add: b(2) enc_size_bytes [OF m])
  moreover have "peek ctrl_size (?A @ put_i32 (int (length (snd m))) @ ?C) (readPos c + 4) 4 =
      Inr (put_i32 (int (length (snd m))))"
    by (rule peek_mid) (simp_all add: b ctrl_size_def)
  ultimately have peek: "peek ctrl_size b (readPos c + 4) 4 = Inr (put_i32 (int (length (snd m))))"
    by simp
  have get: "get_i32 (put_i32 (int (length (snd m)))) = int (length (snd m))"
    using m by (simp add: good_msg_def is_i32_nonneg)
  have le: "readPos c + 8 + int (length (snd m)) \<le> int n"
    using b fr by (simp add: frame_def enc_def)
  have ne: "snd m \<noteq> []" using m by (simp add: good_msg_def)
  have lt: "readPos c + 8 < int n" using wrapped_pos [OF s] by simp
  note u = frame_u64 [OF fr]
  have u': "to_u64 (readPos c + 8) = readPos c + 8" "to_u64 (int n) = int n"
    "to_u64 (readPos c + 8 + int (length (snd m))) = readPos c + 8 + int (length (snd m))"
    using u [of "readPos c + 8"] u [of "int n"] u [of "readPos c + 8 + int (length (snd m))"]
      wrapped_pos [OF s] le by (simp_all add: INT_MAX_def)
  show ?thesis
    using wrapped_pos [OF s] peek get le lt ne u'
    by (auto simp: judegeRead_def Let_def head_size_def)
qed

lemma judegeRead_turn:
  assumes s: "wrapped n c b [] q"
  shows "judegeRead b c = Inr (q \<noteq> [], c\<lparr>readPos := 24, iDir := 1\<rparr>)"
proof -
  obtain pre a z where b: "length pre = 24" "b = pre @ encs q @ zeros a @ zeros z"
    "readPos c = int (24 + length (encs q) + a)" "writePos c = int (24 + length (encs q))"
    using s by (auto simp: wrapped_def)
  have fr: "frame n c b" using s by (simp add: wrapped_def)
  then have len: "n = 24 + length (encs q) + a + z" using b by (simp add: frame_def)
  have peek: "peek ctrl_size b (readPos c + 4) 4 = Inr (zeros 4)" if "readPos c + 8 < int n"
  proof -
    from that len b obtain z' where z: "z = 4 + (4 + z')"
      using le_Suc_ex [of 8 z] by auto
    have "b = (pre @ encs q @ zeros a @ zeros 4) @ zeros 4 @ zeros z'"
      unfolding b(2) z zeros_add by simp
    moreover have "peek ctrl_size ((pre @ encs q @ zeros a @ zeros 4) @ zeros 4 @ zeros z')
        (readPos c + 4) 4 = Inr (zeros 4)"
      by (rule peek_mid) (simp_all add: b ctrl_size_def)
    ultimately show ?thesis by simp
  qed
  have u: "to_u64 (readPos c + 8) = readPos c + 8" "to_u64 (int n) = int n"
    using frame_u64 [OF fr, of "readPos c + 8"] frame_u64 [OF fr, of "int n"] wrapped_pos [OF s]
    by (simp_all add: INT_MAX_def)
  have 1: "ck 1 = Inr 1" by (simp add: is_i32_def INT_MIN_def INT_MAX_def)
  have w: "writePos c > 24 \<longleftrightarrow> q \<noteq> []" using b by auto
  have get: "get_i32 (zeros 4) = 0" by (rule get_i32_zeros)
  show ?thesis
  proof (cases "readPos c + 8 < int n")
    case True
    then show ?thesis
      using wrapped_pos [OF s] peek u 1 w get
      by (auto simp: judegeRead_def Let_def head_size_def)
  next
    case False
    then show ?thesis
      using wrapped_pos [OF s] u 1 w by (auto simp: judegeRead_def Let_def head_size_def)
  qed
qed

lemma copy_out_straight:
  assumes s: "straight n c b (m # q)" and buf: "length (snd m) \<le> length buf"
  shows "\<exists>c' b'. copy_out b c buf = Inr (head_of m, snd m @ drop (length (snd m)) buf, c', b') \<and>
    straight n c' b' q \<and>
    writePos c' = writePos c \<and> readPos c' = readPos c + int (length (enc m))"
proof -
  obtain pre a z where b: "length pre = 24" "b = pre @ zeros a @ encs (m # q) @ zeros z"
    "readPos c = int (24 + a)" "writePos c = int (24 + a + length (encs (m # q)))"
    using s by (auto simp: straight_def)
  let ?k = "length (enc m)" and ?A = "pre @ zeros a" and ?C = "encs q @ zeros z"
  let ?c = "c\<lparr>readPos := int (length ?A + ?k)\<rparr>"
  have len: "length b = n" "int n \<le> INT_MAX" and m: "good_msg n m"
    using s by (auto simp: straight_def frame_def)
  have eq: "b = ?A @ enc m @ ?C" using b by simp
  have "copy_out b c buf = Inr (head_of m, snd m @ drop (length (snd m)) buf, ?c, ?A @ zeros ?k @ ?C)"
    unfolding eq using b len m buf by (intro copy_out_mid) auto
  moreover have "straight n ?c (?A @ zeros ?k @ ?C) q"
    using s b len by (intro straightI [of _ _ _ _ pre "a + ?k" z])
      (auto simp: straight_def frame_def zeros_add)
  ultimately show ?thesis
    using b by (intro exI [of _ ?c]) auto
qed

lemma copy_out_wrapped:
  assumes s: "wrapped n c b (m # q1) q2" and buf: "length (snd m) \<le> length buf"
  shows "\<exists>c' b'. copy_out b c buf = Inr (head_of m, snd m @ drop (length (snd m)) buf, c', b') \<and>
    wrapped n c' b' q1 q2"
proof -
  obtain pre a z where b: "length pre = 24" "b = pre @ encs q2 @ zeros a @ encs (m # q1) @ zeros z"
    "writePos c = int (24 + length (encs q2))" "readPos c = int (24 + length (encs q2) + a)"
    using s by (auto simp: wrapped_def)
  let ?k = "length (enc m)" and ?A = "pre @ encs q2 @ zeros a" and ?C = "encs q1 @ zeros z"
  let ?c = "c\<lparr>readPos := int (length ?A + ?k)\<rparr>"
  have len: "length b = n" "int n \<le> INT_MAX" and m: "good_msg n m"
    using s by (auto simp: wrapped_def frame_def)
  have eq: "b = ?A @ enc m @ ?C" using b by simp
  have "copy_out b c buf = Inr (head_of m, snd m @ drop (length (snd m)) buf, ?c, ?A @ zeros ?k @ ?C)"
    unfolding eq using b len m buf by (intro copy_out_mid) auto
  moreover have "wrapped n ?c (?A @ zeros ?k @ ?C) q1 q2"
    using s b len by (intro wrappedI [of _ _ _ _ _ pre "a + ?k" z])
      (auto simp: wrapped_def frame_def zeros_add)
  ultimately show ?thesis by blast
qed

text \<open>One read from either shape: the oldest message, or a refusal of an empty ring.\<close>

lemma ring_read_some:
  assumes "layout n c b (m # q)" "length (snd m) \<le> length buf"
  shows "\<exists>c1 c2 b2. judegeRead b c = Inr (True, c1) \<and>
    copy_out b c1 buf = Inr (head_of m, snd m @ drop (length (snd m)) buf, c2, b2) \<and>
    layout n c2 b2 q"
proof -
  from assms(1) consider (straight) "straight n c b (m # q)"
    | (older) q1 q2 where "q = q1 @ q2" "wrapped n c b (m # q1) q2"
    | (turn) "wrapped n c b [] (m # q)"
    unfolding layout_def by (metis append_eq_Cons_conv)
  then show ?thesis
  proof cases
    case straight
    then show ?thesis
      using judegeRead_straight [OF straight] copy_out_straight [OF straight assms(2)]
      by (auto simp: layout_def)
  next
    case older
    then show ?thesis
      using judegeRead_older [OF older(2)] copy_out_wrapped [OF older(2) assms(2)]
      by (auto simp: layout_def)
  next
    case turn
    then show ?thesis
      using judegeRead_turn [OF turn] copy_out_straight [OF wrapped_straight [OF turn] assms(2)]
      by (auto simp: layout_def)
  qed
qed

lemma ring_read_none:
  assumes "layout n c b []"
  shows "\<exists>c1. judegeRead b c = Inr (False, c1) \<and> straight n c1 b []"
  using assms judegeRead_straight judegeRead_turn wrapped_straight
  unfolding layout_def by fastforce


section \<open>The calls of a process\<close>

text \<open>
  What the System V calls promise: \<open>shmget\<close> returns a positive id, \<open>shmat\<close> a new
  address as long as fewer than \<open>limit\<close> attachments exist, and \<open>shmdt\<close> succeeds.
\<close>

definition healthy :: "shm_os \<Rightarrow> nat \<Rightarrow> bool" where
  "healthy os limit \<longleftrightarrow>
     (\<forall>k s f. 0 < os_shmget os k s f) \<and>
     (\<forall>att i. 0 < i \<longrightarrow> length att < limit \<longrightarrow>
        (\<exists>a. os_shmat os att i = Some a \<and> a \<notin> set att)) \<and>
     (\<forall>a. os_shmdt os a = 0)"

text \<open>
  A process after \<open>init\<close>: \<open>m_shmCtrl\<close> still points into an attachment that was leaked,
  or to the address the next \<open>shmat\<close> returns.
\<close>

definition proc_ok :: "shm_os \<Rightarrow> ShareMemory \<Rightarrow> bool" where
  "proc_ok os p \<longleftrightarrow> (\<exists>s c. m_shm p = Some s \<and> 0 < iShmId s \<and> m_shmCtrl p = Some c \<and>
     (c \<in> set (attached p) \<or> os_shmat os (attached p) (iShmId s) = Some c))"

lemma attach_ok:
  assumes "healthy os limit" "proc_ok os p" "length (attached p) < limit"
  obtains s a c where "attach os p = Inr (p\<lparr>m_addr := Some a, attached := a # attached p\<rparr>)"
    "m_shm p = Some s" "0 < iShmId s" "os_shmat os (attached p) (iShmId s) = Some a"
    "m_shmCtrl p = Some c" "c \<in> set (a # attached p)"
proof -
  obtain s c where s: "m_shm p = Some s" "0 < iShmId s" "m_shmCtrl p = Some c"
    "c \<in> set (attached p) \<or> os_shmat os (attached p) (iShmId s) = Some c"
    using assms(2) by (auto simp: proc_ok_def)
  obtain a where a: "os_shmat os (attached p) (iShmId s) = Some a"
    using assms(1,3) s(2) unfolding healthy_def by blast
  have "attach os p = Inr (p\<lparr>m_shm := Some s, m_addr := Some a, attached := a # attached p\<rparr>)"
    using s a by (simp add: attach_def getShm_def getShmId_def getAddr_def)
  also have "p\<lparr>m_shm := Some s, m_addr := Some a, attached := a # attached p\<rparr> =
      p\<lparr>m_addr := Some a, attached := a # attached p\<rparr>"
    using s(1) by (cases p) simp
  finally show ?thesis using that s a by auto
qed

lemma the_ctrl_ok:
  "m_shmCtrl p = Some a \<Longrightarrow> a \<in> set (attached p) \<Longrightarrow> 24 \<le> length (body g) \<Longrightarrow>
   the_ctrl p g = Inr (ctrl g)"
  by (simp add: the_ctrl_def ctrl_size_def)

lemma finish_ok:
  "healthy os limit \<Longrightarrow> m_addr p = Some a \<Longrightarrow> attached p = a # att \<Longrightarrow>
   finish os p = (RS_SUCCESS, p\<lparr>attached := att\<rparr>)"
  by (simp add: finish_def detach_def healthy_def)

lemma copy_in_length:
  "copy_in m c h content = Inr (c', m') \<Longrightarrow> length m' = length m"
  by (auto simp: copy_in_def Let_def res_simps split: if_splits dest!: poke_length)

lemma copy_out_length:
  "copy_out m c buf = Inr (h, bs, c', m') \<Longrightarrow> length m' = length m"
  by (auto simp: copy_out_def Let_def res_simps split: if_splits dest!: poke_length)

lemma writeData_accept:
  assumes "healthy os limit" "proc_ok os p" "length (attached p) < limit" "24 \<le> length (body g)"
    and j: "judegeWrite head (ctrl g) = Inr (True, c1)"
    and w: "copy_in (body g) c1 head content = Inr (c2, m)"
  shows "\<exists>p'. writeData os head content p g = Inr (RS_SUCCESS, p', g\<lparr>ctrl := c2, body := m\<rparr>) \<and>
    proc_ok os p' \<and> attached p' = attached p"
proof -
  obtain s a where a: "attach os p = Inr (p\<lparr>m_addr := Some a, attached := a # attached p\<rparr>)"
    "m_shm p = Some s" "0 < iShmId s" "os_shmat os (attached p) (iShmId s) = Some a"
    using attach_ok [OF assms(1-3)] by blast
  have "length m = length (body g)" by (rule copy_in_length [OF w])
  then show ?thesis
    using a j w assms(1,4)
    by (auto simp: writeData_def Let_def display_def the_ctrl_ok finish_ok proc_ok_def)
qed

lemma writeData_refuse:
  assumes "healthy os limit" "proc_ok os p" "length (attached p) < limit" "24 \<le> length (body g)"
    and j: "judegeWrite head (ctrl g) = Inr (False, c1)"
  shows "\<exists>p' a. writeData os head content p g = Inr (RS_NO_SHM, p', g\<lparr>ctrl := c1\<rparr>) \<and>
    proc_ok os p' \<and> attached p' = a # attached p"
proof -
  obtain s a where a: "attach os p = Inr (p\<lparr>m_addr := Some a, attached := a # attached p\<rparr>)"
    "m_shm p = Some s" "0 < iShmId s"
    using attach_ok [OF assms(1-3)] by blast
  then show ?thesis
    using j assms(4) by (auto simp: writeData_def Let_def display_def the_ctrl_ok proc_ok_def)
qed

lemma readData_accept:
  assumes "healthy os limit" "proc_ok os p" "length (attached p) < limit" "24 \<le> length (body g)"
    and j: "judegeRead (body g) (ctrl g) = Inr (True, c1)"
    and w: "copy_out (body g) c1 buf = Inr (head', buf', c2, m)"
  shows "\<exists>p'. readData os head buf p g =
      Inr (RS_SUCCESS, head', buf', p', g\<lparr>ctrl := c2, body := m\<rparr>) \<and>
    proc_ok os p' \<and> attached p' = attached p"
proof -
  obtain s a c where a: "attach os p = Inr (p\<lparr>m_addr := Some a, attached := a # attached p\<rparr>)"
    "m_shm p = Some s" "0 < iShmId s" "os_shmat os (attached p) (iShmId s) = Some a"
    "m_shmCtrl p = Some c" "c \<in> set (a # attached p)"
    using attach_ok [OF assms(1-3)] by blast
  have "length m = length (body g)" by (rule copy_out_length [OF w])
  then show ?thesis
    using a j w assms(1,4)
    by (auto simp: readData_def Let_def display_def the_ctrl_ok finish_ok proc_ok_def)
qed

lemma readData_refuse:
  assumes "healthy os limit" "proc_ok os p" "length (attached p) < limit" "24 \<le> length (body g)"
    and j: "judegeRead (body g) (ctrl g) = Inr (False, c1)"
  shows "\<exists>p' a. readData os head buf p g = Inr (RS_NO_SHM, head, buf, p', g\<lparr>ctrl := c1\<rparr>) \<and>
    proc_ok os p' \<and> attached p' = a # attached p"
proof -
  obtain s a c where a: "attach os p = Inr (p\<lparr>m_addr := Some a, attached := a # attached p\<rparr>)"
    "m_shm p = Some s" "0 < iShmId s"
    "m_shmCtrl p = Some c" "c \<in> set (a # attached p)"
    using attach_ok [OF assms(1-3)] by blast
  then show ?thesis
    using j assms(4)
    by (auto simp: readData_def Let_def display_def the_ctrl_ok proc_ok_def)
qed

lemma init_ok:
  assumes "healthy os limit" "0 < limit" "24 \<le> length (body g)"
  shows "\<exists>p. init os key sz ShareMemory_new g =
      Inr (RS_SUCCESS, p, if iInitFlag (ctrl g) = 1 then g
         else g\<lparr>ctrl := \<lparr>iInitFlag = 1, iDir = 1, startPos = 24, endPos = sz,
                        readPos = 24, writePos = 24\<rparr>\<rparr>) \<and>
    proc_ok os p \<and> attached p = []"
proof -
  let ?i = "os_shmget os key sz IPC_MODE"
  have i: "0 < ?i" using assms(1) by (simp add: healthy_def)
  obtain a where a: "os_shmat os [] ?i = Some a"
    using assms(1,2) i unfolding healthy_def by (metis list.size(3))
  define p where "p = \<lparr>m_shm = Some \<lparr>iShmId = ?i, iShmKey = key, iShmSize = sz\<rparr>,
    m_addr = Some a, m_shmCtrl = None, attached = [a], shown = []\<rparr>"
  have "attach os (ShareMemory_new\<lparr>m_shm := Some (Shm_init key sz Shm_new)\<rparr>) = Inr p"
    using i a by (simp add: attach_def getShm_def getShmId_def getAddr_def p_def
      ShareMemory_new_def Shm_new_def Shm_init_def Let_def)
  then show ?thesis
    using assms(1,3) i a
    by (auto simp: init_def ShareMemory_new_def Let_def p_def the_ctrl_ok finish_ok proc_ok_def
      ctrl_size_def)
qed

section \<open>Two processes on one ring\<close>

type_synonym ring = "ShareMemory \<times> ShareMemory \<times> shm_seg"

definition ring_send :: "shm_os \<Rightarrow> msg \<Rightarrow> ring \<Rightarrow> (bool \<times> ring) res" where
  "ring_send os m = (\<lambda>(pw, pr, g).
     bindE (writeData os (head_of m) (snd m) pw g) (\<lambda>(r, pw', g').
       Inr (r = RS_SUCCESS, (pw', pr, g'))))"

definition ring_recv :: "shm_os \<Rightarrow> nat \<Rightarrow> ring \<Rightarrow> (msg option \<times> ring) res" where
  "ring_recv os room = (\<lambda>(pw, pr, g).
     bindE (readData os \<lparr>iFlag = 0, iSize = 0\<rparr> (zeros room) pr g) (\<lambda>(r, h, buf, pr', g').
       Inr (if r = RS_SUCCESS then Some (iFlag h, take (nat (iSize h)) buf) else None,
            (pw, pr', g'))))"

definition ring_rep :: "shm_os \<Rightarrow> nat \<Rightarrow> nat \<Rightarrow> nat \<Rightarrow> ring \<Rightarrow> msg list \<Rightarrow> bool" where
  "ring_rep os limit n room = (\<lambda>(pw, pr, g) q. healthy os limit \<and> proc_ok os pw \<and> proc_ok os pr \<and>
     layout n (ctrl g) (body g) q \<and> list_all (\<lambda>m. length (snd m) \<le> room) q)"

definition ring_msg :: "nat \<Rightarrow> nat \<Rightarrow> msg \<Rightarrow> bool" where
  "ring_msg n room m \<longleftrightarrow> good_msg n m \<and> length (snd m) \<le> room"

definition ring_budget :: "nat \<Rightarrow> ring \<Rightarrow> nat" where
  "ring_budget limit = (\<lambda>(pw, pr, g). limit - max (length (attached pw)) (length (attached pr)))"

lemma layout_length: "layout n c b q \<Longrightarrow> 24 \<le> length b"
  by (auto simp: layout_def straight_def wrapped_def frame_def)

lemma ring_send_ok:
  assumes "ring_rep os limit n room s q" "ring_msg n room m" "0 < ring_budget limit s"
  shows "\<exists>ok s'. ring_send os m s = Inr (ok, s') \<and>
    ring_rep os limit n room s' (if ok then q @ [m] else q) \<and>
    ring_budget limit s \<le> Suc (ring_budget limit s')"
proof -
  obtain pw pr g where s: "s = (pw, pr, g)" by (cases s)
  have p: "healthy os limit" "proc_ok os pw" "length (attached pw) < limit"
    "layout n (ctrl g) (body g) q" "proc_ok os pr" "list_all (\<lambda>m. length (snd m) \<le> room) q"
    using assms by (auto simp: s ring_rep_def ring_budget_def)
  note len = layout_length [OF p(4)]
  obtain ok c1 where j: "judegeWrite (head_of m) (ctrl g) = Inr (ok, c1)"
    "if ok then \<exists>c2 b2. copy_in (body g) c1 (head_of m) (snd m @ []) = Inr (c2, b2) \<and>
        layout n c2 b2 (q @ [m]) else layout n c1 (body g) q"
    using ring_write [OF p(4), of m "[]"] assms(2) by (auto simp: ring_msg_def)
  show ?thesis
  proof (cases ok)
    case True
    with j obtain c2 b2 where c2: "copy_in (body g) c1 (head_of m) (snd m) = Inr (c2, b2)"
      "layout n c2 b2 (q @ [m])" by auto
    then obtain p' where "writeData os (head_of m) (snd m) pw g =
        Inr (RS_SUCCESS, p', g\<lparr>ctrl := c2, body := b2\<rparr>)" "proc_ok os p'"
        "attached p' = attached pw"
      using writeData_accept [OF p(1-3) len] j True by metis
    then show ?thesis
      using c2 p assms(2) True
      by (intro exI [of _ True] exI [of _ "(p', pr, g\<lparr>ctrl := c2, body := b2\<rparr>)"])
        (simp add: s ring_send_def ring_rep_def ring_budget_def ring_msg_def)
  next
    case False
    with j obtain p' a where "writeData os (head_of m) (snd m) pw g =
        Inr (RS_NO_SHM, p', g\<lparr>ctrl := c1\<rparr>)" "proc_ok os p'" "attached p' = a # attached pw"
      using writeData_refuse [OF p(1-3) len] by metis
    then show ?thesis
      using j(2) False p
      by (intro exI [of _ False] exI [of _ "(p', pr, g\<lparr>ctrl := c1\<rparr>)"])
        (simp add: s ring_send_def ring_rep_def ring_budget_def)
  qed
qed

lemma ring_recv_ok:
  assumes "ring_rep os limit n room s q" "0 < ring_budget limit s"
  shows "\<exists>s'. ring_recv os room s = Inr (case q of [] \<Rightarrow> None | m # _ \<Rightarrow> Some m, s') \<and>
    ring_rep os limit n room s' (tl q) \<and> ring_budget limit s \<le> Suc (ring_budget limit s')"
proof -
  obtain pw pr g where s: "s = (pw, pr, g)" by (cases s)
  have p: "healthy os limit" "proc_ok os pr" "length (attached pr) < limit"
    "layout n (ctrl g) (body g) q" "proc_ok os pw" "list_all (\<lambda>m. length (snd m) \<le> room) q"
    using assms by (auto simp: s ring_rep_def ring_budget_def)
  note len = layout_length [OF p(4)]
  show ?thesis
  proof (cases q)
    case Nil
    with p(4) obtain c1 where c1: "judegeRead (body g) (ctrl g) = Inr (False, c1)"
      "straight n c1 (body g) []" using ring_read_none by blast
    then obtain p' a where "readData os \<lparr>iFlag = 0, iSize = 0\<rparr> (zeros room) pr g =
        Inr (RS_NO_SHM, \<lparr>iFlag = 0, iSize = 0\<rparr>, zeros room, p', g\<lparr>ctrl := c1\<rparr>)"
        "proc_ok os p'" "attached p' = a # attached pr"
      using readData_refuse [OF p(1-3) len c1(1)] by metis
    then show ?thesis
      using c1(2) p Nil
      by (intro exI [of _ "(pw, p', g\<lparr>ctrl := c1\<rparr>)"])
        (simp add: s ring_recv_def ring_rep_def ring_budget_def layout_def)
  next
    case (Cons m q')
    then have room: "length (snd m) \<le> room" using p(6) by simp
    with p(4) Cons obtain c1 c2 b2 where c: "judegeRead (body g) (ctrl g) = Inr (True, c1)"
      "copy_out (body g) c1 (zeros room) =
         Inr (head_of m, snd m @ drop (length (snd m)) (zeros room), c2, b2)"
      "layout n c2 b2 q'"
      using ring_read_some [of n "ctrl g" "body g" m q' "zeros room"] by auto
    then obtain p' where "readData os \<lparr>iFlag = 0, iSize = 0\<rparr> (zeros room) pr g =
        Inr (RS_SUCCESS, head_of m, snd m @ drop (length (snd m)) (zeros room), p',
             g\<lparr>ctrl := c2, body := b2\<rparr>)" "proc_ok os p'" "attached p' = attached pr"
      using readData_accept [OF p(1-3) len c(1,2)] by metis
    then show ?thesis
      using c(3) p Cons
      by (intro exI [of _ "(pw, p', g\<lparr>ctrl := c2, body := b2\<rparr>)"])
        (simp add: s ring_recv_def ring_rep_def ring_budget_def head_of_def)
  qed
qed

interpretation ring: fifo_channel "ring_send os" "ring_recv os room"
  "ring_rep os limit n room" "ring_msg n room" "ring_budget limit" for os room limit n
  by unfold_locales (rule ring_send_ok ring_recv_ok; assumption)+


section \<open>The driver\<close>

text \<open>
  The loop of \<^verbatim>\<open>app_shm.cpp\<close>: \<open>iType\<close> 1 writes, 2 reads, 0 does both in turn. The
  loop ends only with an error code (\<open>Some\<close>); after \<open>k\<close> full iterations the result is
  \<open>None\<close>. The last buffer is part of the result.
\<close>

definition BUFFER_MAX_SIZE :: nat where "BUFFER_MAX_SIZE = 1024"

definition test_data :: "byte list" where
  "test_data = map of_char ''test-data-wzq''"

definition strcpy_buf :: "byte list \<Rightarrow> byte list" where
  "strcpy_buf s = s @ zeros (BUFFER_MAX_SIZE - length s)"

fun app_loop :: "shm_os \<Rightarrow> int \<Rightarrow> nat \<Rightarrow> byte list \<Rightarrow> ShareMemory \<Rightarrow> shm_seg \<Rightarrow>
    (ResultCode option \<times> byte list \<times> ShareMemory \<times> shm_seg) res" where
  "app_loop os iType 0 buf p g = Inr (None, buf, p, g)"
| "app_loop os iType (Suc k) buf p g =
     bindE (if iType = 1 \<or> iType = 0
            then let buf1 = strcpy_buf test_data;
                     head = \<lparr>iFlag = 0, iSize = int (length test_data)\<rparr> in
              bindE (writeData os head buf1 p g) (\<lambda>(r, p1, g1). Inr (r, buf1, p1, g1))
            else Inr (RS_SUCCESS, buf, p, g)) (\<lambda>(r, buf1, p1, g1).
     if r \<noteq> RS_SUCCESS then Inr (Some r, buf1, p1, g1)
     else bindE (if iType = 2 \<or> iType = 0
            then bindE (readData os \<lparr>iFlag = 0, iSize = 0\<rparr> (zeros BUFFER_MAX_SIZE) p1 g1)
              (\<lambda>(r, h, buf2, p2, g2). Inr (r, buf2, p2, g2))
            else Inr (RS_SUCCESS, buf1, p1, g1)) (\<lambda>(r2, buf2, p2, g2).
     if r2 \<noteq> RS_SUCCESS then Inr (Some r2, buf2, p2, g2)
     else app_loop os iType k buf2 p2 g2))"

abbreviation test_msg :: msg where "test_msg \<equiv> (0, test_data)"

lemma length_test_data: "length test_data = 13"
  by (simp add: test_data_def)

lemma length_test_enc: "length (enc test_msg) = 21"
  by (simp add: length_enc length_test_data)

lemma test_head: "head_of test_msg = \<lparr>iFlag = 0, iSize = int (length test_data)\<rparr>"
  by (simp add: head_of_def)

text \<open>An empty straight ring whose position is a whole number of test messages away.\<close>

definition at_test :: "nat \<Rightarrow> shm_seg \<Rightarrow> bool" where
  "at_test n g \<longleftrightarrow> straight n (ctrl g) (body g) [] \<and> (\<exists>j. readPos (ctrl g) = 24 + 21 * int j)"

lemma test_round:
  assumes g: "at_test n g" and n: "45 \<le> n" "int n + 21 \<le> INT_MAX"
  shows "\<exists>c1 c2 b2 c3 c4 b4.
    judegeWrite (head_of test_msg) (ctrl g) = Inr (True, c1) \<and>
    copy_in (body g) c1 (head_of test_msg) (strcpy_buf test_data) = Inr (c2, b2) \<and>
    judegeRead b2 c2 = Inr (True, c3) \<and>
    copy_out b2 c3 (zeros BUFFER_MAX_SIZE) =
      Inr (head_of test_msg, strcpy_buf test_data, c4, b4) \<and>
    at_test n (g\<lparr>ctrl := c4, body := b4\<rparr>)"
proof -
  let ?c = "ctrl g" and ?b = "body g"
  have s: "straight n ?c ?b []" using g by (simp add: at_test_def)
  obtain j where j: "readPos ?c = 24 + 21 * int j" using g by (auto simp: at_test_def)
  have m: "good_msg n test_msg"
    using n by (simp add: good_msg_def length_test_data) (simp add: test_data_def)
  have buf: "length (snd test_msg) \<le> length (zeros BUFFER_MAX_SIZE)"
    "snd test_msg @ drop (length (snd test_msg)) (zeros BUFFER_MAX_SIZE) = strcpy_buf test_data"
    "strcpy_buf test_data = snd test_msg @ zeros (BUFFER_MAX_SIZE - 13)"
    by (simp_all add: length_test_data BUFFER_MAX_SIZE_def strcpy_buf_def)
  note out = copy_out_straight [where m = test_msg and buf = "zeros BUFFER_MAX_SIZE", OF _ buf(1),
      unfolded buf(2)]
  show ?thesis
  proof (cases "writePos ?c + 21 \<le> int n")
    case True
    then obtain c2 b2 where c2: "copy_in ?b ?c (head_of test_msg) (strcpy_buf test_data) = Inr (c2, b2)"
      "straight n c2 b2 [test_msg]" "readPos c2 = readPos ?c"
      using copy_in_straight [OF s m, of "zeros (BUFFER_MAX_SIZE - 13)"] buf(3)
      by (auto simp: length_test_enc)
    obtain c4 b4 where c4: "copy_out b2 c2 (zeros BUFFER_MAX_SIZE) =
        Inr (head_of test_msg, strcpy_buf test_data, c4, b4)" "straight n c4 b4 []"
        "readPos c4 = 24 + 21 * int (Suc j)"
      using out [OF c2(2)] c2(3) j by (auto simp: length_test_enc)
    have "judegeWrite (head_of test_msg) ?c = Inr (True, ?c)"
      using judegeWrite_straight [OF s m] True by (simp add: length_test_enc)
    moreover have "judegeRead b2 c2 = Inr (True, c2)"
      using judegeRead_straight [OF c2(2)] by simp
    moreover have "at_test n (g\<lparr>ctrl := c4, body := b4\<rparr>)"
      using c4(2,3) unfolding at_test_def by (intro conjI exI [of _ "Suc j"]) simp_all
    ultimately show ?thesis using c2(1) c4(1) by blast
  next
    case False
    have "0 < j" using False n(1) j straight_pos(7) [OF s] by (cases j) auto
    then have fit: "24 + 21 \<le> readPos ?c" using j by simp
    let ?c1 = "?c\<lparr>writePos := 24, iDir := - 1\<rparr>"
    have w: "wrapped n ?c1 ?b [] []" by (rule straight_wrapped [OF s])
    obtain c2 b2 where c2: "copy_in ?b ?c1 (head_of test_msg) (strcpy_buf test_data) = Inr (c2, b2)"
      "wrapped n c2 b2 [] [test_msg]"
      using copy_in_wrapped [OF w m, of "zeros (BUFFER_MAX_SIZE - 13)"] buf(3) fit
      by (auto simp: length_test_enc)
    let ?c3 = "c2\<lparr>readPos := 24, iDir := 1\<rparr>"
    obtain c4 b4 where c4: "copy_out b2 ?c3 (zeros BUFFER_MAX_SIZE) =
        Inr (head_of test_msg, strcpy_buf test_data, c4, b4)" "straight n c4 b4 []"
        "readPos c4 = 24 + 21 * int (Suc 0)"
      using out [OF wrapped_straight [OF c2(2)]] by (auto simp: length_test_enc)
    have "judegeWrite (head_of test_msg) ?c = Inr (True, ?c1)"
      using judegeWrite_straight [OF s m] False fit by (simp add: length_test_enc)
    moreover have "judegeRead b2 c2 = Inr (True, ?c3)"
      using judegeRead_turn [OF c2(2)] by simp
    moreover have "at_test n (g\<lparr>ctrl := c4, body := b4\<rparr>)"
      using c4(2,3) unfolding at_test_def by (intro conjI exI [of _ "Suc 0"]) simp_all
    ultimately show ?thesis using c2(1) c4(1) by blast
  qed
qed

lemma app_round:
  assumes os: "healthy os limit" "0 < limit" "45 \<le> n" "int n + 21 \<le> INT_MAX"
    and g: "at_test n g" and p: "proc_ok os p" "attached p = []"
  shows "\<exists>p' g'. app_loop os 0 (Suc k) buf p g = app_loop os 0 k (strcpy_buf test_data) p' g' \<and>
    at_test n g' \<and> proc_ok os p' \<and> attached p' = []"
proof -
  obtain c1 c2 b2 c3 c4 b4 where r:
    "judegeWrite (head_of test_msg) (ctrl g) = Inr (True, c1)"
    "copy_in (body g) c1 (head_of test_msg) (strcpy_buf test_data) = Inr (c2, b2)"
    "judegeRead b2 c2 = Inr (True, c3)"
    "copy_out b2 c3 (zeros BUFFER_MAX_SIZE) = Inr (head_of test_msg, strcpy_buf test_data, c4, b4)"
    "at_test n (g\<lparr>ctrl := c4, body := b4\<rparr>)"
    using test_round [OF g os(3,4)] by auto
  have len: "24 \<le> length (body g)"
    using g by (auto simp: at_test_def straight_def frame_def)
  have att: "length (attached p) < limit" using p os by simp
  let ?g1 = "g\<lparr>ctrl := c2, body := b2\<rparr>"
  obtain p1 where p1: "writeData os (head_of test_msg) (strcpy_buf test_data) p g =
      Inr (RS_SUCCESS, p1, ?g1)" "proc_ok os p1" "attached p1 = attached p"
    using writeData_accept [OF os(1) p(1) att len r(1,2)] by auto
  have g1: "judegeRead (body ?g1) (ctrl ?g1) = Inr (True, c3)"
    "copy_out (body ?g1) c3 (zeros BUFFER_MAX_SIZE) =
       Inr (head_of test_msg, strcpy_buf test_data, c4, b4)"
    "24 \<le> length (body ?g1)"
    using r len copy_in_length [OF r(2)] by simp_all
  obtain p2 where p2: "readData os \<lparr>iFlag = 0, iSize = 0\<rparr> (zeros BUFFER_MAX_SIZE) p1 ?g1 =
      Inr (RS_SUCCESS, head_of test_msg, strcpy_buf test_data, p2, g\<lparr>ctrl := c4, body := b4\<rparr>)"
      "proc_ok os p2" "attached p2 = attached p1"
    using readData_accept [OF os(1) p1(2) _ g1(3,1,2)] p1(3) att by auto
  have "app_loop os 0 (Suc k) buf p g =
      app_loop os 0 k (strcpy_buf test_data) p2 (g\<lparr>ctrl := c4, body := b4\<rparr>)"
    using p1(1) p2(1) by (simp add: test_head)
  then show ?thesis using r(5) p2(2,3) p1(3) p(2) by metis
qed

lemma app_loop_runs:
  assumes "healthy os limit" "0 < limit" "45 \<le> n" "int n + 21 \<le> INT_MAX"
  shows "at_test n g \<Longrightarrow> proc_ok os p \<Longrightarrow> attached p = [] \<Longrightarrow>
    \<exists>p' g'. app_loop os 0 k buf p g =
      Inr (None, if k = 0 then buf else strcpy_buf test_data, p', g')"
proof (induction k arbitrary: buf p g)
  case (Suc k buf p g)
  obtain p1 g1 where 1: "app_loop os 0 (Suc k) buf p g =
      app_loop os 0 k (strcpy_buf test_data) p1 g1" "at_test n g1" "proc_ok os p1" "attached p1 = []"
    using app_round [OF assms Suc.prems] by blast
  show ?case using Suc.IH [OF 1(2-4), of "strcpy_buf test_data"] unfolding 1(1) by simp
qed simp

section \<open>Concrete system calls for the examples\<close>

definition demo_os :: shm_os where
  "demo_os = \<lparr>os_shmget = (\<lambda>k s f. 7), os_shmat = (\<lambda>att i. Some (1 + sum_list att)),
     os_shmdt = (\<lambda>a. 0), os_shmctl = (\<lambda>i. 0)\<rparr>"

lemma healthy_demo: "healthy demo_os limit"
proof -
  have "1 + sum_list xs \<notin> set xs" for xs :: "nat list"
    using member_le_sum_list [of "1 + sum_list xs" xs] by auto
  then show ?thesis by (simp add: healthy_def demo_os_def)
qed

lemma fresh_straight:
  assumes "24 \<le> n" "int n \<le> INT_MAX"
  shows "straight n \<lparr>iInitFlag = 1, iDir = 1, startPos = 24, endPos = int n, readPos = 24,
    writePos = 24\<rparr> (zeros n) []"
proof -
  obtain k where "n = 24 + k" using le_Suc_ex [OF assms(1)] by auto
  then show ?thesis
    using assms by (intro straightI [of _ _ _ _ "zeros 24" 0 k]) (auto simp: frame_def zeros_add)
qed

definition fresh_ctrl :: "nat \<Rightarrow> SHM_CONTROL" where
  "fresh_ctrl n = \<lparr>iInitFlag = 1, iDir = 1, startPos = 24, endPos = int n, readPos = 24,
     writePos = 24\<rparr>"

lemma init_fresh:
  assumes "healthy os limit" "0 < limit" "24 \<le> n"
  shows "\<exists>p. init os key (int n) ShareMemory_new (new_seg n) =
      Inr (RS_SUCCESS, p, \<lparr>ctrl = fresh_ctrl n, body = zeros n\<rparr>) \<and>
    proc_ok os p \<and> attached p = []"
  using init_ok [OF assms(1,2), of "new_seg n" key "int n"] assms(3)
  by (simp add: new_seg_def fresh_ctrl_def)

lemma init_again:
  assumes "healthy os limit" "0 < limit" "24 \<le> n"
  shows "\<exists>p. init os key sz ShareMemory_new \<lparr>ctrl = fresh_ctrl n, body = zeros n\<rparr> =
      Inr (RS_SUCCESS, p, \<lparr>ctrl = fresh_ctrl n, body = zeros n\<rparr>) \<and>
    proc_ok os p \<and> attached p = []"
  using init_ok [OF assms(1,2), of "\<lparr>ctrl = fresh_ctrl n, body = zeros n\<rparr>" key sz] assms(3)
  by (simp add: fresh_ctrl_def)

lemma app_loop_forever:
  assumes "healthy os limit" "0 < limit" "45 \<le> n" "int n + 21 \<le> INT_MAX"
  shows "\<exists>p g. init os 1 (int n) ShareMemory_new (new_seg n) = Inr (RS_SUCCESS, p, g) \<and>
    (\<forall>k. \<exists>p' g'. app_loop os 0 (Suc k) buf p g = Inr (None, strcpy_buf test_data, p', g'))"
proof -
  let ?g = "\<lparr>ctrl = fresh_ctrl n, body = zeros n\<rparr>"
  obtain p where p: "init os 1 (int n) ShareMemory_new (new_seg n) = Inr (RS_SUCCESS, p, ?g)"
    "proc_ok os p" "attached p = []"
    using init_fresh [OF assms(1,2), of n 1] assms(3) by auto
  have "at_test n ?g"
    using fresh_straight [of n] assms(3,4)
    by (auto simp: at_test_def fresh_ctrl_def intro: exI [of _ "0 :: nat"])
  then show ?thesis
    using app_loop_runs [OF assms, of ?g p "Suc _" buf] p by auto
qed

section \<open>Properties\<close>



text \<open>
  A message that is larger than the whole ring locks a new ring: \<open>judegeWrite\<close> refuses
  it but has reset \<open>writePos\<close> and negated \<open>iDir\<close>, so every later write of any size is
  refused as well, until a (failing) read turns the direction back.
\<close>

theorem oversized_write_locks:
  assumes "24 \<le> n" "int n \<le> INT_MAX" "good_msg n m" "int n < 24 + int (length (enc m))"
  shows "\<exists>c. judegeWrite (head_of m) (fresh_ctrl n) = Inr (False, c) \<and>
    (\<forall>m'. good_msg n m' \<longrightarrow> judegeWrite (head_of m') c = Inr (False, c)) \<and>
    judegeRead (zeros n) c = Inr (False, fresh_ctrl n)"
proof -
  let ?c = "(fresh_ctrl n)\<lparr>writePos := 24, iDir := - 1\<rparr>"
  have s: "straight n (fresh_ctrl n) (zeros n) []"
    using fresh_straight [OF assms(1,2)] by (simp add: fresh_ctrl_def)
  note w = straight_wrapped [OF s]
  have "judegeWrite (head_of m) (fresh_ctrl n) = Inr (False, ?c)"
    using judegeWrite_straight [OF s assms(3)] assms(4)
    by (simp add: fresh_ctrl_def length_enc)
  moreover have "judegeWrite (head_of m') ?c = Inr (False, ?c)" if "good_msg n m'" for m'
    using judegeWrite_wrapped [OF w that] by (simp add: fresh_ctrl_def length_enc)
  moreover have "judegeRead (zeros n) ?c = Inr (False, fresh_ctrl n)"
    using judegeRead_turn [OF w] by (simp add: fresh_ctrl_def)
  ultimately show ?thesis by blast
qed

theorem oversized_write_locks_witness:
  "\<exists>c. judegeWrite \<lparr>iFlag = 0, iSize = 9\<rparr> (fresh_ctrl 40) = Inr (False, c) \<and>
    (\<forall>m'. good_msg 40 m' \<longrightarrow> judegeWrite (head_of m') c = Inr (False, c)) \<and>
    judegeRead (zeros 40) c = Inr (False, fresh_ctrl 40)"
  using oversized_write_locks [of 40 "(0, replicate 9 1)"]
  by (simp add: good_msg_def length_enc head_of_def INT_MAX_def is_i32_def INT_MIN_def)

text \<open>
  Every refused \<open>readData\<close> on an empty ring returns without detaching, so polling an
  empty ring leaks one attachment per call.
\<close>

theorem refused_read_leaks:
  assumes "ring_rep os limit n room (pw, pr, g) []" "length (attached pr) < limit"
  shows "\<exists>pr' g' a. readData os head buf pr g = Inr (RS_NO_SHM, head, buf, pr', g') \<and>
    ring_rep os limit n room (pw, pr', g') [] \<and> attached pr' = a # attached pr"
proof -
  have p: "healthy os limit" "proc_ok os pr" "layout n (ctrl g) (body g) []" "proc_ok os pw"
    using assms(1) by (simp_all add: ring_rep_def)
  obtain c1 where c1: "judegeRead (body g) (ctrl g) = Inr (False, c1)" "straight n c1 (body g) []"
    using ring_read_none [OF p(3)] by blast
  then show ?thesis
    using readData_refuse [OF p(1,2) assms(2) layout_length [OF p(3)] c1(1), of head buf] p
    by (auto simp: ring_rep_def layout_def)
qed

theorem refused_read_leaks_witness:
  "\<exists>p pr' g' a. init demo_os 1 64 ShareMemory_new (new_seg 64) =
      Inr (RS_SUCCESS, p, \<lparr>ctrl = fresh_ctrl 64, body = zeros 64\<rparr>) \<and>
    readData demo_os \<lparr>iFlag = 0, iSize = 0\<rparr> [] p \<lparr>ctrl = fresh_ctrl 64, body = zeros 64\<rparr> =
      Inr (RS_NO_SHM, \<lparr>iFlag = 0, iSize = 0\<rparr>, [], pr', g') \<and> attached pr' = a # attached p"
proof -
  obtain p where p: "init demo_os 1 (int 64) ShareMemory_new (new_seg 64) =
      Inr (RS_SUCCESS, p, \<lparr>ctrl = fresh_ctrl 64, body = zeros 64\<rparr>)"
    "proc_ok demo_os p" "attached p = []"
    using init_fresh [OF healthy_demo [of 1], of 64 1] by auto
  then have "ring_rep demo_os 1 64 8 (p, p, \<lparr>ctrl = fresh_ctrl 64, body = zeros 64\<rparr>) []"
    using fresh_straight [of 64] healthy_demo
    by (simp add: ring_rep_def layout_def fresh_ctrl_def INT_MAX_def)
  then show ?thesis
    using refused_read_leaks [of demo_os 1 64 8 p p "\<lparr>ctrl = fresh_ctrl 64, body = zeros 64\<rparr>"
      "\<lparr>iFlag = 0, iSize = 0\<rparr>" "[]"]
      p by auto
qed

text \<open>
  \<open>readData\<close> prints the control block through the pointer of the previous call: when
  the segment is now attached at another address, that access is to unmapped memory.
\<close>

theorem readData_stale_pointer:
  assumes "m_shm p = Some s" "0 < iShmId s" "m_shmCtrl p = Some c" "c \<notin> set (attached p)"
    and "os_shmat os (attached p) (iShmId s) = Some a" "a \<noteq> c"
  shows "readData os head buf p g = Inl Dangling"
  using assms
  by (simp add: readData_def attach_def getShm_def getShmId_def getAddr_def display_def
    the_ctrl_def Let_def)

theorem readData_stale_pointer_witness:
  "readData demo_os \<lparr>iFlag = 0, iSize = 0\<rparr> [] \<lparr>m_shm = Some \<lparr>iShmId = 7, iShmKey = 1, iShmSize = 64\<rparr>,
     m_addr = Some 5, m_shmCtrl = Some 5, attached = [], shown = []\<rparr> (new_seg 64) = Inl Dangling"
  by (rule readData_stale_pointer [where a = 1 and c = 5
      and s = "\<lparr>iShmId = 7, iShmKey = 1, iShmSize = 64\<rparr>"]) (simp_all add: demo_os_def)

text \<open>\<open>delShm\<close> reports success whatever \<open>shmctl\<close> returns.\<close>

theorem delShm_ignores_failure:
  "delShm os s = (if iShmId s \<le> 0 then RS_COMMON else RS_SUCCESS)"
  by (simp add: delShm_def)

end
