(* ===== verification/StdMap.thy ===== *)
theory StdMap
  imports Prelude
begin

text \<open>
  \<open>std::map\<close> with a comparison of the program's own: an association list in ascending key
  order. \<open>insert\<close> keeps the entry that is there when an equivalent key exists, \<open>find\<close>
  looks for an equivalent key, \<open>operator[]\<close> is an insertion followed by an assignment.
  The laws hold for a comparison that is a strict total order on the keys in use.
\<close>

fun map_insert :: "('k \<Rightarrow> 'k \<Rightarrow> bool) \<Rightarrow> 'k \<Rightarrow> 'v \<Rightarrow> ('k \<times> 'v) list \<Rightarrow> ('k \<times> 'v) list" where
  "map_insert cmp k v [] = [(k, v)]"
| "map_insert cmp k v ((k', v') # xs) =
     (if cmp k k' then (k, v) # (k', v') # xs
      else if cmp k' k then (k', v') # map_insert cmp k v xs
      else (k', v') # xs)"

fun map_find :: "('k \<Rightarrow> 'k \<Rightarrow> bool) \<Rightarrow> 'k \<Rightarrow> ('k \<times> 'v) list \<Rightarrow> 'v option" where
  "map_find cmp k [] = None"
| "map_find cmp k ((k', v') # xs) =
     (if cmp k k' then None else if cmp k' k then map_find cmp k xs else Some v')"

fun map_set :: "('k \<Rightarrow> 'k \<Rightarrow> bool) \<Rightarrow> 'k \<Rightarrow> 'v \<Rightarrow> ('k \<times> 'v) list \<Rightarrow> ('k \<times> 'v) list" where
  "map_set cmp k v [] = [(k, v)]"
| "map_set cmp k v ((k', v') # xs) =
     (if cmp k k' then (k, v) # (k', v') # xs
      else if cmp k' k then (k', v') # map_set cmp k v xs
      else (k', v) # xs)"

locale std_map =
  fixes cmp :: "'k \<Rightarrow> 'k \<Rightarrow> bool" and K :: "'k set"
  assumes trans: "a \<in> K \<Longrightarrow> b \<in> K \<Longrightarrow> c \<in> K \<Longrightarrow> cmp a b \<Longrightarrow> cmp b c \<Longrightarrow> cmp a c"
    and irrefl: "a \<in> K \<Longrightarrow> \<not> cmp a a"
    and total: "a \<in> K \<Longrightarrow> b \<in> K \<Longrightarrow> \<not> cmp a b \<Longrightarrow> \<not> cmp b a \<Longrightarrow> a = b"
begin

definition ok :: "('k \<times> 'v) list \<Rightarrow> bool" where
  "ok xs \<longleftrightarrow> sorted_wrt cmp (map fst xs) \<and> fst ` set xs \<subseteq> K"

lemma ok_Nil [simp]: "ok []"
  by (simp add: ok_def)

lemma ok_Cons: "ok ((k, v) # xs) \<longleftrightarrow> k \<in> K \<and> (\<forall>x\<in>set xs. cmp k (fst x)) \<and> ok xs"
  by (auto simp: ok_def)

lemma in_insert: "p \<in> set (map_insert cmp k v xs) \<Longrightarrow> fst p = k \<or> p \<in> set xs"
  by (induction xs) (auto split: if_splits)

lemma in_set: "p \<in> set (map_set cmp k v xs) \<Longrightarrow> fst p = k \<or> fst p \<in> fst ` set xs"
  by (induction xs) (auto split: if_splits intro: rev_image_eqI)

lemma ok_insert: "k \<in> K \<Longrightarrow> ok xs \<Longrightarrow> ok (map_insert cmp k v xs)"
proof (induction xs)
  case (Cons x xs)
  obtain k' v' where x: "x = (k', v')" by (cases x)
  have "\<forall>y\<in>set (map_insert cmp k v xs). cmp k' (fst y)" if "cmp k' k"
    using Cons.prems that by (auto simp: x ok_Cons dest!: in_insert)
  moreover have "\<forall>y\<in>set xs. cmp k (fst y)" if "cmp k k'"
    using Cons.prems that trans [of k k'] by (force simp: x ok_Cons ok_def)
  ultimately show ?case using Cons by (auto simp: x ok_Cons)
qed (simp add: ok_Cons)

lemma ok_set: "k \<in> K \<Longrightarrow> ok xs \<Longrightarrow> ok (map_set cmp k v xs)"
proof (induction xs)
  case (Cons x xs)
  obtain k' v' where x: "x = (k', v')" by (cases x)
  have "\<forall>y\<in>set (map_set cmp k v xs). cmp k' (fst y)" if "cmp k' k"
    using Cons.prems that by (fastforce simp: x ok_Cons dest!: in_set)
  moreover have "\<forall>y\<in>set xs. cmp k (fst y)" if "cmp k k'"
    using Cons.prems that trans [of k k'] by (force simp: x ok_Cons ok_def)
  ultimately show ?case using Cons by (auto simp: x ok_Cons)
qed (simp add: ok_Cons)

lemma find_map_of: "k \<in> K \<Longrightarrow> ok xs \<Longrightarrow> map_find cmp k xs = map_of xs k"
proof (induction xs)
  case (Cons x xs)
  obtain k' v' where x: "x = (k', v')" by (cases x)
  have "map_of xs k = None" if "cmp k k'"
  proof -
    have "k \<notin> fst ` set xs"
      using Cons.prems that trans [of k k' k] irrefl [of k] by (auto simp: x ok_Cons)
    then show ?thesis by (simp add: map_of_eq_None_iff)
  qed
  then show ?case using Cons irrefl [of k] total [of k k'] by (auto simp: x ok_Cons)
qed simp

lemma map_of_insert:
  "k \<in> K \<Longrightarrow> ok xs \<Longrightarrow>
   map_of (map_insert cmp k v xs) = (if map_of xs k = None then (map_of xs)(k \<mapsto> v) else map_of xs)"
proof (induction xs)
  case (Cons x xs)
  obtain k' v' where x: "x = (k', v')" by (cases x)
  have "map_of xs k = None" if "cmp k k'"
    using Cons.prems that find_map_of [of k "x # xs"] by (auto simp: x ok_Cons split: if_splits)
  then show ?case using Cons irrefl [of k] total [of k k'] by (auto simp: x ok_Cons fun_eq_iff)
qed simp

lemma map_of_set:
  "k \<in> K \<Longrightarrow> ok xs \<Longrightarrow> map_of (map_set cmp k v xs) = (map_of xs)(k \<mapsto> v)"
proof (induction xs)
  case (Cons x xs)
  obtain k' v' where x: "x = (k', v')" by (cases x)
  show ?case using Cons irrefl [of k] total [of k k'] by (auto simp: x ok_Cons fun_eq_iff)
qed simp

lemma mset_insert:
  "k \<in> K \<Longrightarrow> ok xs \<Longrightarrow> map_of xs k = None \<Longrightarrow>
   mset (map_insert cmp k v xs) = add_mset (k, v) (mset xs)"
proof (induction xs)
  case (Cons x xs)
  obtain k' v' where x: "x = (k', v')" by (cases x)
  show ?case using Cons total [of k k'] by (auto simp: x ok_Cons split: if_splits)
qed simp

lemma insert_known: "k \<in> K \<Longrightarrow> ok xs \<Longrightarrow> map_of xs k \<noteq> None \<Longrightarrow> map_insert cmp k v xs = xs"
proof (induction xs)
  case (Cons x xs)
  obtain k' v' where x: "x = (k', v')" by (cases x)
  have "map_of xs k = None \<and> k \<noteq> k'" if "cmp k k'"
    using Cons.prems that find_map_of [of k "x # xs"] by (auto simp: x ok_Cons split: if_splits)
  then show ?case using Cons irrefl [of k] by (auto simp: x ok_Cons split: if_splits)
qed simp

lemma ok_distinct: "ok xs \<Longrightarrow> distinct (map fst xs)"
  using irrefl by (induction xs) (fastforce simp: ok_Cons)+

end

end
