(* ===== verification/ReadIni.thy ===== *)
theory ReadIni
  imports CString StdMap
begin

text \<open>
  The configuration reader \<open>TReadIni\<close> of \<^verbatim>\<open>src/wzq_project/src/component/readIni.{h,cpp}\<close>:
  the file is read line by line into 128-character buffers for the section, the name and the
  value, and stored in a \<open>std::map\<close> under the pair of section and name.
\<close>

section \<open>The model\<close>

datatype RsCode = RS_SUCCESS | RS_COMMON

datatype TSectionName = TSectionName (section_of: string) (name_of: string)

text \<open>\<open>operator<\<close>: first by the section, then by the name.\<close>

definition section_less :: "TSectionName \<Rightarrow> TSectionName \<Rightarrow> bool" where
  "section_less a b =
     (if section_of a = section_of b then name_of a < name_of b else section_of a < section_of b)"

instantiation TSectionName :: linorder
begin

definition less_TSectionName :: "TSectionName \<Rightarrow> TSectionName \<Rightarrow> bool" where
  "less_TSectionName = section_less"

definition less_eq_TSectionName :: "TSectionName \<Rightarrow> TSectionName \<Rightarrow> bool" where
  "less_eq_TSectionName a b \<longleftrightarrow> a < b \<or> a = (b :: TSectionName)"

instance
proof
  fix x y z :: TSectionName
  show "(x < y) = (x \<le> y \<and> \<not> y \<le> x)"
    by (auto simp: less_TSectionName_def section_less_def less_eq_TSectionName_def split: if_splits)
  show "x \<le> x" by (simp add: less_eq_TSectionName_def)
  show "x \<le> y \<Longrightarrow> y \<le> z \<Longrightarrow> x \<le> z"
    by (auto simp: less_TSectionName_def section_less_def less_eq_TSectionName_def split: if_splits)
  show "x \<le> y \<Longrightarrow> y \<le> x \<Longrightarrow> x = y"
    by (auto simp: less_TSectionName_def section_less_def less_eq_TSectionName_def split: if_splits)
  show "x \<le> y \<or> y \<le> x"
    by (cases x; cases y)
      (auto simp: less_TSectionName_def section_less_def less_eq_TSectionName_def not_less_iff_gr_or_eq)
qed

end

type_synonym MAP_SECTION = "(TSectionName \<times> string) list"

text \<open>
  The object; \<open>opened\<close> counts the \<open>FILE\<close>s that were opened and never closed (the code has
  no \<open>fclose\<close>). Opening a file is a parameter: from the number of open files and the path
  to the contents, \<open>None\<close> when \<open>fopen\<close> fails.
\<close>

record TReadIni =
  iInitFlag :: int
  sFileName :: string
  mapData :: MAP_SECTION
  opened :: nat

type_synonym fopen = "nat \<Rightarrow> string \<Rightarrow> string option"

definition TReadIni_new :: TReadIni where
  "TReadIni_new = \<lparr>iInitFlag = 0, sFileName = ''/home/wzq/src/bin/app.conf'', mapData = [],
     opened = 0\<rparr>"

text \<open>The other constructor leaves the last character of \<open>sFileName\<close> unset.\<close>

definition TReadIni_file :: "string \<Rightarrow> TReadIni res" where
  "TReadIni_file filename =
     (if length filename \<le> 126
      then Inr \<lparr>iInitFlag = 0, sFileName = filename, mapData = [], opened = 0\<rparr>
      else Inl Uninitialised)"

definition putData :: "string \<Rightarrow> string \<Rightarrow> string \<Rightarrow> MAP_SECTION \<Rightarrow> MAP_SECTION" where
  "putData sec nam val m = map_set (<) (TSectionName sec nam) val m"

definition BUFFER_TMP_SIZE :: nat where "BUFFER_TMP_SIZE = 128"

definition BUFFER_MAX_SIZE :: nat where "BUFFER_MAX_SIZE = 1024"

text \<open>
  One line: the comment test (never true), a section header, or an entry. The section
  buffer is the state of the loop; the check for a missing section compares with the
  character \<open>'0'\<close>. \<open>Inl\<close> of the pair is an early return.
\<close>

definition section_line :: "string \<Rightarrow> char list \<Rightarrow> (RsCode + char list) res" where
  "section_line sBuff sSection0 =
     bindE (memset0 sSection0 (BUFFER_TMP_SIZE - 1)) (\<lambda>sSection.
       case strstr sBuff '']'' of
         None \<Rightarrow> Inr (Inl RS_COMMON)
       | Some p \<Rightarrow> bindE (strncpy sSection (tl sBuff) (p - 1)) (\<lambda>s. Inr (Inr s)))"

definition entry_line :: "string \<Rightarrow> char list \<Rightarrow> char list \<Rightarrow> char list \<Rightarrow> MAP_SECTION \<Rightarrow>
    (RsCode + char list \<times> char list \<times> MAP_SECTION) res" where
  "entry_line sBuff sSection sName0 sValue0 m =
     (if hd sSection = CHR ''0'' then Inr (Inl RS_COMMON)
      else case strstr sBuff ''='' of
        None \<Rightarrow> Inr (Inl RS_COMMON)
      | Some p \<Rightarrow>
          if p = 0 then Inr (Inl RS_COMMON)
          else
            bindE (memset0 sName0 (BUFFER_TMP_SIZE - 1)) (\<lambda>sName1.
            bindE (memset0 sValue0 (BUFFER_TMP_SIZE - 1)) (\<lambda>sValue1.
            bindE (strncpy sName1 sBuff p) (\<lambda>sName.
            bindE (strncpy sValue1 (drop (p + 1) sBuff) BUFFER_TMP_SIZE) (\<lambda>sValue.
            bindE (c_string sSection) (\<lambda>sec.
            bindE (c_string sName) (\<lambda>nam.
            bindE (c_string sValue) (\<lambda>val.
              Inr (Inr (sName, sValue, putData sec nam val m))))))))))"

text \<open>The loop over the rest of the file.\<close>

function read_lines :: "string \<Rightarrow> char list \<Rightarrow> char list \<Rightarrow> char list \<Rightarrow> MAP_SECTION \<Rightarrow>
    (RsCode \<times> MAP_SECTION) res" where
  "read_lines file sSection sName sValue m =
     (if file = [] then Inr (RS_SUCCESS, m)
      else let (raw, rest) = fgets (BUFFER_MAX_SIZE - 2) file;
               sBuff = takeWhile (\<lambda>c. c \<noteq> NUL) raw;
               c0 = (if sBuff = [] then NUL else hd sBuff)
        in if c0 = CHR ''0'' \<and> c0 = CHR ''#'' then read_lines rest sSection sName sValue m
           else if c0 = CHR ''[''
           then bindE (section_line sBuff sSection) (\<lambda>r. case r of
                  Inl e \<Rightarrow> Inr (e, m)
                | Inr sSection' \<Rightarrow> read_lines rest sSection' sName sValue m)
           else bindE (entry_line sBuff sSection sName sValue m) (\<lambda>r. case r of
                  Inl e \<Rightarrow> Inr (e, m)
                | Inr (sName', sValue', m') \<Rightarrow> read_lines rest sSection sName' sValue' m'))"
  by pat_completeness auto
termination
  by (relation "measure (\<lambda>(file, _). length file)")
    (auto simp: BUFFER_MAX_SIZE_def numeral_eq_Suc simp del: fgets.simps
      dest: fgets_progress [OF sym])

declare read_lines.simps [simp del]

definition readConfigFile :: "fopen \<Rightarrow> TReadIni \<Rightarrow> (RsCode \<times> TReadIni) res" where
  "readConfigFile fs t =
     (case fs (opened t) (sFileName t) of
        None \<Rightarrow> Inr (RS_COMMON, t\<lparr>mapData := []\<rparr>)
      | Some file \<Rightarrow>
          let z = replicate BUFFER_TMP_SIZE NUL in
          bindE (read_lines file z z z []) (\<lambda>(r, m).
            Inr (r, t\<lparr>mapData := m, opened := opened t + 1\<rparr>)))"

definition init :: "fopen \<Rightarrow> TReadIni \<Rightarrow> (RsCode \<times> TReadIni) res" where
  "init fs t = bindE (readConfigFile fs t) (\<lambda>(iRet, t').
     if iRet \<noteq> RS_SUCCESS then Inr (iRet, t') else Inr (iRet, t'\<lparr>iInitFlag := 1\<rparr>))"

text \<open>
  The common part of \<open>readInt\<close>, \<open>readDouble\<close> and \<open>readString\<close>: initialise on first use,
  then \<open>operator[]\<close>, which inserts an empty string for a missing key. \<open>None\<close> is a failed
  initialisation, after which the caller's variable is left alone.
\<close>

definition lookup_value :: "fopen \<Rightarrow> string \<Rightarrow> string \<Rightarrow> TReadIni \<Rightarrow>
    (RsCode \<times> string option \<times> TReadIni) res" where
  "lookup_value fs sec nam t0 =
     bindE (if iInitFlag t0 \<noteq> 1 then init fs t0 else Inr (RS_SUCCESS, t0)) (\<lambda>(iRet, t).
       if iRet \<noteq> RS_SUCCESS then Inr (iRet, None, t)
       else let k = TSectionName sec nam in
         case map_find (<) k (mapData t) of
           Some v \<Rightarrow> Inr (RS_SUCCESS, Some v, t)
         | None \<Rightarrow> Inr (RS_SUCCESS, Some [], t\<lparr>mapData := map_insert (<) k [] (mapData t)\<rparr>))"

definition readInt :: "fopen \<Rightarrow> string \<Rightarrow> string \<Rightarrow> TReadIni \<Rightarrow>
    (RsCode \<times> int option \<times> TReadIni) res" where
  "readInt fs sec nam t =
     bindE (lookup_value fs sec nam t) (\<lambda>(iRet, v, t').
       case v of
         None \<Rightarrow> Inr (iRet, None, t')
       | Some s \<Rightarrow> bindE (atoi s) (\<lambda>x. Inr (iRet, Some x, t')))"

text \<open>\<open>atof\<close> is the C library's conversion, a parameter.\<close>

definition readDouble :: "(string \<Rightarrow> 'd) \<Rightarrow> fopen \<Rightarrow> string \<Rightarrow> string \<Rightarrow> TReadIni \<Rightarrow>
    (RsCode \<times> 'd option \<times> TReadIni) res" where
  "readDouble atof fs sec nam t =
     bindE (lookup_value fs sec nam t) (\<lambda>(iRet, v, t'). Inr (iRet, map_option atof v, t'))"

definition readString :: "fopen \<Rightarrow> string \<Rightarrow> string \<Rightarrow> TReadIni \<Rightarrow>
    (RsCode \<times> string option \<times> TReadIni) res" where
  "readString fs sec nam t = lookup_value fs sec nam t"

text \<open>\<open>display\<close> prints the map even when the initialisation failed.\<close>

definition TReadIni_display :: "fopen \<Rightarrow> TReadIni \<Rightarrow> (string \<times> TReadIni) res" where
  "TReadIni_display fs t0 =
     bindE (if iInitFlag t0 \<noteq> 1 then init fs t0 else Inr (RS_SUCCESS, t0)) (\<lambda>(_, t).
       Inr (concat (map (\<lambda>(k, v). section_of k @ tab @ name_of k @ tab @ v @ endl) (mapData t)), t))"

section \<open>Well-formed files\<close>

datatype item = Sec string | Ent string string

fun render :: "item \<Rightarrow> string" where
  "render (Sec s) = ''['' @ s @ '']'' @ [newline]"
| "render (Ent n v) = n @ ''='' @ v @ [newline]"

definition plain :: "string \<Rightarrow> bool" where
  "plain s \<longleftrightarrow> NUL \<notin> set s \<and> newline \<notin> set s"

fun wf_item :: "item \<Rightarrow> bool" where
  "wf_item (Sec s) \<longleftrightarrow> plain s \<and> CHR '']'' \<notin> set s \<and> length s \<le> 127 \<and>
     (s \<noteq> [] \<longrightarrow> hd s \<noteq> CHR ''0'')"
| "wf_item (Ent n v) \<longleftrightarrow> plain n \<and> plain v \<and> CHR ''='' \<notin> set n \<and> n \<noteq> [] \<and>
     hd n \<noteq> CHR ''['' \<and> length n \<le> 127 \<and> length v \<le> 126"

text \<open>What a file means: the last entry of a name counts, the value keeps its newline.\<close>

fun items_map :: "string \<Rightarrow> (TSectionName \<rightharpoonup> string) \<Rightarrow> item list \<Rightarrow> (TSectionName \<rightharpoonup> string)" where
  "items_map sec m [] = m"
| "items_map sec m (Sec s # its) = items_map s m its"
| "items_map sec m (Ent n v # its) = items_map sec (m(TSectionName sec n \<mapsto> v @ [newline])) its"

interpretation ini: std_map "(<) :: TSectionName \<Rightarrow> TSectionName \<Rightarrow> bool" UNIV
  by unfold_locales auto

text \<open>A buffer that holds a string and NULs behind it.\<close>

definition padded :: "string \<Rightarrow> char list" where
  "padded s = s @ replicate (128 - length s) NUL"

lemma padded_Nil: "padded [] = replicate 128 NUL"
  by (simp add: padded_def)

lemma c_string_padded: "NUL \<notin> set s \<Longrightarrow> length s \<le> 127 \<Longrightarrow> c_string (padded s) = Inr s"
proof -
  assume s: "NUL \<notin> set s" "length s \<le> 127"
  then obtain k where k: "128 - length s = Suc k" by (cases "128 - length s") auto
  have "takeWhile (\<lambda>c. c \<noteq> NUL) (s @ NUL # replicate k NUL) = s"
    using s by (subst takeWhile_append2) auto
  then show ?thesis by (simp add: c_string_def padded_def k)
qed

lemma memset_padded: "length s \<le> 127 \<Longrightarrow> memset0 (padded s) 127 = Inr (padded [])"
proof -
  assume s: "length s \<le> 127"
  have "replicate 128 NUL = replicate 127 NUL @ [NUL]"
    by (simp add: replicate_append_same [symmetric] numeral_eq_Suc)
  moreover have "drop 127 (padded s) = [NUL]"
    using s by (simp add: padded_def Suc_diff_le)
  ultimately show ?thesis
    using s by (simp add: memset0_def padded_def)
qed

lemma strncpy_padded: "length s \<le> 127 \<Longrightarrow> strncpy (padded []) (s @ r) (length s) = Inr (padded s)"
  by (simp add: strncpy_def padded_def)

lemma strncpy_all: "length s \<le> 127 \<Longrightarrow> strncpy (padded []) s 128 = Inr (padded s)"
  by (simp add: strncpy_def padded_def)

lemma section_line_ok:
  assumes "wf_item (Sec s)" "length t \<le> 127"
  shows "section_line (''['' @ s @ '']'' @ r) (padded t) = Inr (Inr (padded s))"
proof -
  have "takeWhile (\<lambda>d. d \<noteq> CHR '']'') (''['' @ s @ '']'' @ r) = ''['' @ s"
    using assms(1) by (auto simp: takeWhile_append takeWhile_eq_all_conv)
  then show ?thesis
    using assms strncpy_padded [of s "'']'' @ r"]
    by (simp add: section_line_def strstr_char BUFFER_TMP_SIZE_def memset_padded)
qed

lemma entry_line_ok:
  assumes e: "wf_item (Ent n v)" and t: "length a \<le> 127" "length b \<le> 127"
    and sec: "NUL \<notin> set sec" "length sec \<le> 127" "sec \<noteq> [] \<longrightarrow> hd sec \<noteq> CHR ''0''"
  shows "entry_line (n @ ''='' @ v @ [newline]) (padded sec) (padded a) (padded b) m =
    Inr (Inr (padded n, padded (v @ [newline]), putData sec n (v @ [newline]) m))"
proof -
  have "takeWhile (\<lambda>d. d \<noteq> CHR ''='') (n @ ''='' @ v @ [newline]) = n"
    using e by (auto simp: takeWhile_append takeWhile_eq_all_conv)
  then have p: "strstr (n @ ''='' @ v @ [newline]) ''='' = Some (length n)"
    by (simp add: strstr_char)
  have "hd (padded sec) \<noteq> CHR ''0''"
    using sec by (cases sec) (simp_all add: padded_def)
  moreover have "c_string (padded n) = Inr n" "c_string (padded (v @ [newline])) = Inr (v @ [newline])"
    using e by (auto intro!: c_string_padded simp: plain_def)
  moreover have "strncpy (padded []) (n @ ''='' @ v @ [newline]) (length n) = Inr (padded n)"
    using e by (intro strncpy_padded) simp
  moreover have "strncpy (padded []) (v @ [newline]) 128 = Inr (padded (v @ [newline]))"
    using e by (intro strncpy_all) simp
  ultimately show ?thesis
    using e t p c_string_padded [OF sec(1,2)]
    by (simp add: entry_line_def BUFFER_TMP_SIZE_def memset_padded)
qed

lemma no_NUL_line:
  "NUL \<notin> set l \<Longrightarrow> takeWhile (\<lambda>c. c \<noteq> NUL) (l @ [newline]) = l @ [newline]"
  by (simp add: takeWhile_eq_all_conv) auto

lemma never_both: "(c = CHR ''0'' \<and> c = CHR ''#'') = False"
  by auto

lemma read_lines_line:
  assumes "plain l" "length l < 1000" "l \<noteq> []"
  shows "read_lines (l @ newline # rest) sSection sName sValue m =
    (if hd l = CHR ''[''
     then bindE (section_line (l @ [newline]) sSection) (\<lambda>r. case r of
            Inl e \<Rightarrow> Inr (e, m)
          | Inr sSection' \<Rightarrow> read_lines rest sSection' sName sValue m)
     else bindE (entry_line (l @ [newline]) sSection sName sValue m) (\<lambda>r. case r of
            Inl e \<Rightarrow> Inr (e, m)
          | Inr (sName', sValue', m') \<Rightarrow> read_lines rest sSection sName' sValue' m'))"
proof -
  have "fgets 1022 (l @ newline # rest) = (l @ [newline], rest)"
    using assms by (intro fgets_line) (simp_all add: plain_def)
  moreover have "takeWhile (\<lambda>c. c \<noteq> NUL) (l @ [newline]) = l @ [newline]"
    using assms(1) by (intro no_NUL_line) (simp add: plain_def)
  ultimately show ?thesis
    using assms(3)
    by (subst read_lines.simps) (simp add: BUFFER_MAX_SIZE_def hd_append Let_def never_both del: fgets.simps)
qed

lemma read_lines_ok:
  "list_all wf_item its \<Longrightarrow> length a \<le> 127 \<Longrightarrow> length b \<le> 127 \<Longrightarrow>
   NUL \<notin> set sec \<Longrightarrow> length sec \<le> 127 \<Longrightarrow> (sec \<noteq> [] \<longrightarrow> hd sec \<noteq> CHR ''0'') \<Longrightarrow> ini.ok m \<Longrightarrow>
   \<exists>m'. read_lines (concat (map render its)) (padded sec) (padded a) (padded b) m =
     Inr (RS_SUCCESS, m') \<and> ini.ok m' \<and> map_of m' = items_map sec (map_of m) its"
proof (induction its arbitrary: sec a b m)
  case Nil
  then show ?case by (simp add: read_lines.simps [of "[]"])
next
  case (Cons i its)
  let ?rest = "concat (map render its)"
  show ?case
  proof (cases i)
    case (Sec s)
    with Cons.prems(1) have s: "wf_item (Sec s)" by simp
    have "read_lines ((''['' @ s @ '']'') @ newline # ?rest) (padded sec) (padded a) (padded b) m =
        read_lines ?rest (padded s) (padded a) (padded b) m"
      using s section_line_ok [OF s Cons.prems(5), of "[newline]"]
      by (subst read_lines_line) (simp_all add: plain_def)
    then show ?thesis
      using Cons.IH [of a b s m] Cons.prems s by (simp add: Sec plain_def)
  next
    case (Ent n v)
    with Cons.prems(1) have e: "wf_item (Ent n v)" by simp
    let ?v = "v @ [newline]"
    have "read_lines ((n @ ''='' @ v) @ newline # ?rest) (padded sec) (padded a) (padded b) m =
        read_lines ?rest (padded sec) (padded n) (padded ?v) (putData sec n ?v m)"
      using e entry_line_ok [OF e Cons.prems(2-6)]
      by (subst read_lines_line) (simp_all add: plain_def)
    moreover have "ini.ok (putData sec n ?v m)"
      "map_of (putData sec n ?v m) = (map_of m)(TSectionName sec n \<mapsto> ?v)"
      using Cons.prems(7) ini.ok_set ini.map_of_set by (simp_all add: putData_def)
    ultimately show ?thesis
      using Cons.IH [of n ?v sec "putData sec n ?v m"] Cons.prems e
      by (simp add: Ent del: fun_upd_apply)
  qed
qed

lemma readConfigFile_ok:
  assumes "list_all wf_item its" "fs (opened t) (sFileName t) = Some (concat (map render its))"
  shows "\<exists>m. readConfigFile fs t = Inr (RS_SUCCESS, t\<lparr>mapData := m, opened := opened t + 1\<rparr>) \<and>
    ini.ok m \<and> map_of m = items_map [] Map.empty its"
  using read_lines_ok [OF assms(1), of "[]" "[]" "[]" "[]"] assms(2)
  by (auto simp: readConfigFile_def BUFFER_TMP_SIZE_def padded_Nil)

lemma lookup_value_ok:
  assumes "list_all wf_item its" "fs (opened t) (sFileName t) = Some (concat (map render its))"
    and "iInitFlag t \<noteq> 1"
  shows "\<exists>t'. lookup_value fs sec nam t = Inr (RS_SUCCESS,
      Some (case items_map [] Map.empty its (TSectionName sec nam) of None \<Rightarrow> [] | Some v \<Rightarrow> v), t') \<and>
    iInitFlag t' = 1 \<and> opened t' = opened t + 1"
proof -
  obtain m where m: "readConfigFile fs t = Inr (RS_SUCCESS, t\<lparr>mapData := m, opened := opened t + 1\<rparr>)"
    "ini.ok m" "map_of m = items_map [] Map.empty its"
    using readConfigFile_ok [where fs = fs and t = t, OF assms(1,2)] by blast
  have "map_find (<) (TSectionName sec nam) m = map_of m (TSectionName sec nam)"
    using ini.find_map_of [OF _ m(2)] by simp
  then show ?thesis
    using m assms(3) by (simp add: lookup_value_def init_def Let_def split: option.split)
qed

lemma ini_read_number:
  assumes "list_all wf_item its" "fs (opened t) (sFileName t) = Some (concat (map render its))"
    and "iInitFlag t \<noteq> 1" "is_i32 x"
    and "items_map [] Map.empty its (TSectionName sec nam) = Some (show_int x @ [newline])"
  shows "\<exists>t'. readInt fs sec nam t = Inr (RS_SUCCESS, Some x, t') \<and> iInitFlag t' = 1"
proof -
  have "atoi (show_int x @ [newline]) = Inr x"
    using assms(4) by (simp add: atoi_show_int isdigit_def)
  then show ?thesis
    using lookup_value_ok [where fs = fs and t = t, OF assms(1-3), of sec nam] assms(5)
    by (auto simp: readInt_def)
qed

section \<open>Properties\<close>

text \<open>
  C3: reading back a well-formed file: whatever sections and entries it holds, the first
  \<open>readString\<close> parses all of it and returns the last value given for the section and name,
  with the line's newline still attached, or the empty string if there is none.
\<close>

theorem ini_roundtrip:
  assumes "list_all wf_item its" "fs (opened t) (sFileName t) = Some (concat (map render its))"
    and "iInitFlag t \<noteq> 1"
  shows "\<exists>t'. readString fs sec nam t = Inr (RS_SUCCESS,
      Some (case items_map [] Map.empty its (TSectionName sec nam) of None \<Rightarrow> [] | Some v \<Rightarrow> v), t') \<and>
    iInitFlag t' = 1"
  using lookup_value_ok [where fs = fs and t = t, OF assms] unfolding readString_def by blast

definition demo_items :: "item list" where
  "demo_items = [Sec ''shm'', Ent ''size'' ''1024'', Sec ''log'', Ent ''dir'' ''/tmp'']"

definition demo_fs :: fopen where
  "demo_fs n f = Some (concat (map render demo_items))"

lemma wf_demo: "list_all wf_item demo_items"
  by (simp add: demo_items_def plain_def)

theorem ini_roundtrip_witness:
  "\<exists>t'. readString demo_fs ''log'' ''dir'' TReadIni_new = Inr (RS_SUCCESS, Some (''/tmp'' @ [newline]), t') \<and>
    iInitFlag t' = 1"
  using ini_roundtrip [where fs = demo_fs and t = TReadIni_new and sec = "''log''" and nam = "''dir''",
      OF wf_demo]
  by (simp add: demo_fs_def TReadIni_new_def demo_items_def)

text \<open>
  A number written to the file as the last value of its name is read back by
  \<open>readInt\<close>, for every 32-bit number.
\<close>

theorem readInt_roundtrip:
  assumes "list_all wf_item its" "fs (opened t) (sFileName t) = Some (concat (map render its))"
    and "iInitFlag t \<noteq> 1" "is_i32 x"
    and "items_map [] Map.empty its (TSectionName sec nam) = Some (show_int x @ [newline])"
  shows "\<exists>t'. readInt fs sec nam t = Inr (RS_SUCCESS, Some x, t') \<and> iInitFlag t' = 1"
  by (rule ini_read_number [where fs = fs and t = t, OF assms])

theorem readInt_roundtrip_witness:
  "\<exists>t'. readInt demo_fs ''shm'' ''size'' TReadIni_new = Inr (RS_SUCCESS, Some 1024, t') \<and> iInitFlag t' = 1"
proof -
  have "show_int 1024 = ''1024''" by code_simp
  then show ?thesis
    using readInt_roundtrip [where fs = demo_fs and t = TReadIni_new and sec = "''shm''"
        and nam = "''size''" and x = 1024, OF wf_demo]
    by (simp add: demo_fs_def TReadIni_new_def demo_items_def is_i32_def INT_MIN_def INT_MAX_def)
qed

text \<open>
  A comment line ends the reading with an error: the test for \<open>#\<close> can never be true,
  so the line is taken for an entry, and without an equals sign the whole file is refused.
\<close>

theorem comment_line_refused:
  assumes "plain c" "CHR ''='' \<notin> set c" "length c < 999"
  shows "read_lines (CHR ''#'' # c @ newline # rest) sSection sName sValue m = Inr (RS_COMMON, m)"
proof -
  let ?l = "CHR ''#'' # c"
  have "strstr (?l @ [newline]) ''='' = None"
    using assms(2) by (simp add: strstr_char)
  then have "entry_line (?l @ [newline]) sSection sName sValue m = Inr (Inl RS_COMMON)"
    by (simp add: entry_line_def)
  then show ?thesis
    using read_lines_line [of ?l rest sSection sName sValue m] assms by (simp add: plain_def)
qed

theorem comment_line_refused_witness:
  "read_lines (''# settings'' @ newline # ''[a]'') (padded []) (padded []) (padded []) [] =
     Inr (RS_COMMON, [])"
  using comment_line_refused [of "'' settings''" "''[a]''" "padded []" "padded []" "padded []" "[]"]
  by (simp add: plain_def)

text \<open>
  The check for an entry in front of any section compares with the character \<open>0\<close>: an
  entry without a section is accepted (under the empty section), and every entry of a
  section whose name begins with \<open>0\<close> is refused.
\<close>

theorem section_check_inverted:
  assumes "wf_item (Ent n v)" "NUL \<notin> set s" "length s \<le> 126"
  shows "entry_line (n @ ''='' @ v @ [newline]) (padded (CHR ''0'' # s)) (padded []) (padded []) m =
      Inr (Inl RS_COMMON) \<and>
    entry_line (n @ ''='' @ v @ [newline]) (padded []) (padded []) (padded []) m =
      Inr (Inr (padded n, padded (v @ [newline]), putData [] n (v @ [newline]) m))"
  using entry_line_ok [OF assms(1), of "[]" "[]" "[]" m]
  by (simp add: entry_line_def padded_def)

theorem section_check_inverted_witness:
  "entry_line (''a=b'' @ [newline]) (padded ''0x'') (padded []) (padded []) [] = Inr (Inl RS_COMMON) \<and>
   entry_line (''a=b'' @ [newline]) (padded []) (padded []) (padded []) [] =
     Inr (Inr (padded ''a'', padded (''b'' @ [newline]), [(TSectionName [] ''a'', ''b'' @ [newline])]))"
  using section_check_inverted [of "''a''" "''b''" "''x''" "[]"] by (simp add: plain_def putData_def)

text \<open>
  No \<open>FILE\<close> is ever closed: as long as the file can be opened but is refused, every
  read opens it again and keeps it open.
\<close>

fun reads :: "fopen \<Rightarrow> nat \<Rightarrow> TReadIni \<Rightarrow> TReadIni res" where
  "reads fs 0 t = Inr t"
| "reads fs (Suc k) t = bindE (readString fs [] [] t) (\<lambda>(_, _, t'). reads fs k t')"

theorem failing_reads_leak_files:
  assumes "\<And>j. fs j (sFileName t) = Some conf"
    and "read_lines conf (padded []) (padded []) (padded []) [] = Inr (RS_COMMON, m)"
    and "iInitFlag t \<noteq> 1"
  shows "\<exists>t'. reads fs k t = Inr t' \<and> opened t' = opened t + k \<and> iInitFlag t' \<noteq> 1"
  using assms
proof (induction k arbitrary: t)
  case (Suc k t)
  let ?t = "t\<lparr>mapData := m, opened := opened t + 1\<rparr>"
  have "readString fs [] [] t = Inr (RS_COMMON, None, ?t)"
    using Suc.prems
    by (simp add: readString_def lookup_value_def init_def readConfigFile_def BUFFER_TMP_SIZE_def
      padded_Nil)
  then show ?case using Suc.IH [of ?t] Suc.prems by auto
qed simp

theorem failing_reads_leak_files_witness:
  "\<exists>t'. reads (\<lambda>n f. Some (''# settings'' @ newline # ''[a]'')) 3 TReadIni_new = Inr t' \<and> opened t' = 3"
proof -
  have "read_lines (''# settings'' @ newline # ''[a]'') (padded []) (padded []) (padded []) [] =
      Inr (RS_COMMON, [])"
    by code_simp
  then show ?thesis
    using failing_reads_leak_files [where fs = "\<lambda>n f. Some (''# settings'' @ newline # ''[a]'')"
      and t = TReadIni_new and conf = "''# settings'' @ newline # ''[a]''" and k = 3 and m = "[]"]
    by (auto simp: TReadIni_new_def)
qed

end
