(* ===== verification/AppShm.thy ===== *)
theory AppShm
  imports ShmRing ReadIni
begin

text \<open>
  The program \<^verbatim>\<open>src/wzq_project/src/application/app_shm.cpp\<close>: it takes the size of the
  segment from the configuration file, initialises the ring and runs the loop modelled in
  \<open>ShmRing\<close>. The result is the exit status (\<open>Inr None\<close> while the loop is still running after
  \<open>k\<close> iterations). The status of \<open>readInt\<close> is ignored by the program.
\<close>

definition app_main :: "shm_os \<Rightarrow> fopen \<Rightarrow> string list \<Rightarrow> nat \<Rightarrow> shm_seg \<Rightarrow>
    (ResultCode option \<times> byte list) res" where
  "app_main os fs args k g =
     bindE (case args of [] \<Rightarrow> Inr 0 | a # _ \<Rightarrow> atoi a) (\<lambda>iType.
       if args \<noteq> [] \<and> iType \<noteq> 1 \<and> iType \<noteq> 2 then Inr (Some ResultCode.RS_SUCCESS, [])
       else bindE (readInt fs ''shm'' ''size'' TReadIni_new) (\<lambda>(_, v, _).
         let sz = (case v of None \<Rightarrow> 0 | Some x \<Rightarrow> x) in
         bindE (ShmRing.init os 1 sz ShareMemory_new g) (\<lambda>(iRet, p, g').
           if iRet \<noteq> ResultCode.RS_SUCCESS then Inr (Some iRet, [])
           else bindE (app_loop os iType k (zeros ShmRing.BUFFER_MAX_SIZE) p g') (\<lambda>(r, buf, _).
             Inr (r, buf)))))"



end
