(* ===== verification/Dictionary.thy ===== *)
theory Dictionary
  imports Prelude
begin

text \<open>
  The contract between a dictionary that never overwrites and its clients: an insertion
  adds a binding for a new key and changes nothing for a known one, a lookup returns the
  binding, and \<open>ents\<close> is the collection of all bindings. The client inserts a list of
  bindings; the first binding of a key wins.
\<close>

fun insert_all :: "('k \<Rightarrow> 'v \<Rightarrow> 's \<Rightarrow> 's res) \<Rightarrow> ('k \<times> 'v) list \<Rightarrow> 's \<Rightarrow> 's res" where
  "insert_all ins [] s = Inr s"
| "insert_all ins ((k, v) # kvs) s = bindE (ins k v s) (insert_all ins kvs)"

locale dictionary =
  fixes ins :: "'k \<Rightarrow> 'v \<Rightarrow> 's \<Rightarrow> 's res"
    and look :: "'k \<Rightarrow> 's \<Rightarrow> 'v option res"
    and rep :: "'s \<Rightarrow> ('k \<rightharpoonup> 'v) \<Rightarrow> bool"
    and ents :: "'s \<Rightarrow> ('k \<times> 'v) multiset"
    and good :: "'k \<Rightarrow> bool" and good_val :: "'v \<Rightarrow> bool"
  assumes look_ok: "rep s m \<Longrightarrow> good k \<Longrightarrow> look k s = Inr (m k)"
    and ins_new: "rep s m \<Longrightarrow> good k \<Longrightarrow> good_val v \<Longrightarrow> m k = None \<Longrightarrow>
      \<exists>s'. ins k v s = Inr s' \<and> rep s' (m(k \<mapsto> v)) \<and> ents s' = add_mset (k, v) (ents s)"
    and ins_old: "rep s m \<Longrightarrow> good k \<Longrightarrow> good_val v \<Longrightarrow> m k \<noteq> None \<Longrightarrow>
      \<exists>s'. ins k v s = Inr s' \<and> rep s' m \<and> ents s' = ents s"
begin

lemma insert_all_rep:
  "rep s m \<Longrightarrow> \<forall>(k, v)\<in>set kvs. good k \<and> good_val v \<Longrightarrow>
   \<exists>s'. insert_all ins kvs s = Inr s' \<and> rep s' (map_of kvs ++ m) \<and>
     (distinct (map fst kvs) \<longrightarrow> dom m \<inter> fst ` set kvs = {} \<longrightarrow> ents s' = ents s + mset kvs)"
proof (induction kvs arbitrary: s m)
  case Nil
  then show ?case by simp
next
  case (Cons kv kvs)
  obtain k v where kv: "kv = (k, v)" by (cases kv)
  show ?case
  proof (cases "m k")
    case None
    with Cons.prems kv ins_new [of s m k v] obtain s1 where s1: "ins k v s = Inr s1"
      "rep s1 (m(k \<mapsto> v))" "ents s1 = add_mset (k, v) (ents s)" by auto
    have good: "\<forall>(k, v)\<in>set kvs. good k \<and> good_val v" using Cons.prems(2) by simp
    obtain s' where s': "insert_all ins kvs s1 = Inr s'" "rep s' (map_of kvs ++ m(k \<mapsto> v))"
      "distinct (map fst kvs) \<longrightarrow> dom (m(k \<mapsto> v)) \<inter> fst ` set kvs = {} \<longrightarrow>
         ents s' = ents s1 + mset kvs"
      using Cons.IH [OF s1(2) good] by blast
    have eq: "map_of (kv # kvs) ++ m = map_of kvs ++ m(k \<mapsto> v)"
      using None by (auto simp: kv map_add_def fun_eq_iff split: option.split)
    have "ents s' = ents s + mset (kv # kvs)"
      if "distinct (map fst (kv # kvs))" "dom m \<inter> fst ` set (kv # kvs) = {}"
      using s'(3) s1(3) that by (auto simp: kv)
    moreover have "insert_all ins (kv # kvs) s = Inr s'" using s1(1) s'(1) by (simp add: kv)
    ultimately show ?thesis using s'(2) unfolding eq by blast
  next
    case (Some w)
    with Cons.prems kv ins_old [of s m k v] obtain s1 where s1: "ins k v s = Inr s1"
      "rep s1 m" "ents s1 = ents s" by auto
    with Cons.prems Cons.IH [of s1 m] obtain s' where s':
      "insert_all ins kvs s1 = Inr s'" "rep s' (map_of kvs ++ m)" by auto
    have eq: "map_of (kv # kvs) ++ m = map_of kvs ++ m"
      using Some by (auto simp: kv map_add_def fun_eq_iff split: option.split)
    moreover have "insert_all ins (kv # kvs) s = Inr s'" using s1(1) s'(1) by (simp add: kv)
    moreover have "\<not> dom m \<inter> fst ` set (kv # kvs) = {}" using Some by (auto simp: kv)
    ultimately show ?thesis using s'(2) unfolding eq by blast
  qed
qed

lemma insert_all_look:
  assumes "rep s Map.empty" "\<forall>(k, v)\<in>set kvs. good k \<and> good_val v"
  shows "\<exists>s'. insert_all ins kvs s = Inr s' \<and> (\<forall>k. good k \<longrightarrow> look k s' = Inr (map_of kvs k))"
  using insert_all_rep [OF assms] look_ok by auto

end

end
