(* ===== verification/HashIndex.thy ===== *)
theory HashIndex
  imports Bytes StdMap Dictionary
begin

text \<open>
  The hash table of \<^verbatim>\<open>src/wzq_project/src/component/hash.h\<close>: the class \<open>CIndex\<close>, an array
  of \<open>std::map\<close> buckets with a caller-supplied hash function, and the class \<open>CHash\<close>, an
  array of such indices. The second part is its user \<^verbatim>\<open>hash.cpp\<close>: the key and record types,
  the hash function \<open>HashFunc1\<close> and the loops of \<open>test_hash\<close>.

  An object behind a \<open>void *\<close> is the list of its bytes.
\<close>

datatype HashResCode =
    HASH_SUCCESS | HASH_MEMEORY_ALLOC_FAILED | HASH_INDEX_HAS_EXISTED | HASH_INDEX_NOT_EXIST

section \<open>Keys and buckets\<close>

text \<open>\<open>memcmp\<close> of the first \<open>n\<close> bytes, as unsigned characters.\<close>

fun memcmp :: "nat \<Rightarrow> byte list \<Rightarrow> byte list \<Rightarrow> int" where
  "memcmp (Suc n) (x # xs) (y # ys) =
     (if x < y then - 1 else if y < x then 1 else memcmp n xs ys)"
| "memcmp _ _ _ = 0"

text \<open>The first \<open>n\<close> bytes of an object, copied by \<open>memcpy\<close>; a negative size is a huge one.\<close>

definition copy_bytes :: "byte list \<Rightarrow> int \<Rightarrow> byte list res" where
  "copy_bytes src n =
     (if n < 0 then Inl Uncaught
      else if nat n \<le> length src then Inr (take (nat n) src) else Inl OutOfBounds)"

record TVecChar =
  m_size :: int
  m_data :: "byte list"

text \<open>\<open>new TVecChar\<close>, \<open>Init\<close> and \<open>operator=\<close>: a copy of the caller's key.\<close>

definition vecKey :: "int \<Rightarrow> byte list \<Rightarrow> TVecChar res" where
  "vecKey n key = bindE (copy_bytes key n) (\<lambda>d. Inr \<lparr>m_size = n, m_data = d\<rparr>)"

definition TVecCharCmp :: "TVecChar \<Rightarrow> TVecChar \<Rightarrow> bool" where
  "TVecCharCmp a b =
     (let n = (if m_size a < m_size b then m_size a else m_size b)
      in memcmp (nat n) (m_data a) (m_data b) < 0)"

type_synonym TMap = "(TVecChar \<times> byte list) list"

type_synonym HashFunc = "byte list \<Rightarrow> int \<Rightarrow> int \<Rightarrow> int res"

text \<open>
  An index: \<open>m_VecMap\<close> is the storage \<open>reserve\<close>d by the constructor, which the code
  addresses with \<open>operator[]\<close>. \<open>m_iter\<close> stands for the three search fields: the bucket
  number and the iterator (\<open>None\<close> for the end of the bucket); it has no value before \<open>Scan\<close>.
\<close>

record CIndex =
  m_Size :: int
  m_Count :: int
  m_keyLen :: int
  m_ValLen :: int
  m_HashFunc :: HashFunc
  m_VecMap :: "TMap list"
  m_iter :: "(int \<times> TVecChar option) option"

definition CIndex_new :: "int \<Rightarrow> int \<Rightarrow> int \<Rightarrow> HashFunc \<Rightarrow> CIndex res" where
  "CIndex_new sz kl vl f =
     (if sz < 0 then Inl Uncaught
      else Inr \<lparr>m_Size = sz, m_Count = 0, m_keyLen = kl, m_ValLen = vl, m_HashFunc = f,
                m_VecMap = replicate (nat sz) [], m_iter = None\<rparr>)"

text \<open>The bucket number of a key: C's remainder, which is negative for a negative hash.\<close>

definition hashVal :: "CIndex \<Rightarrow> byte list \<Rightarrow> int res" where
  "hashVal ci key = bindE (m_HashFunc ci key (m_keyLen ci) 0) (\<lambda>hashCode.
     if m_Size ci = 0 then Inl DivByZero else Inr (crem hashCode (m_Size ci)))"

text \<open>\<open>Find\<close>: the status, and the value that \<open>*val\<close> is set to (\<open>None\<close> for NULL).\<close>

definition CIndex_Find :: "CIndex \<Rightarrow> byte list \<Rightarrow> (int \<times> byte list option) res" where
  "CIndex_Find ci key =
     bindE (hashVal ci key) (\<lambda>h.
     bindE (vecKey (m_keyLen ci) key) (\<lambda>k.
     bindE (rdi (m_VecMap ci) h) (\<lambda>b.
       case map_find TVecCharCmp k b of
         Some v \<Rightarrow> Inr (0, Some v)
       | None \<Rightarrow> Inr (- 1, None))))"

text \<open>\<open>Insert\<close> ends without a \<open>return\<close>: the status is \<open>None\<close>.\<close>

definition CIndex_Insert :: "CIndex \<Rightarrow> byte list \<Rightarrow> byte list \<Rightarrow> (HashResCode option \<times> CIndex) res" where
  "CIndex_Insert ci key val =
     bindE (hashVal ci key) (\<lambda>h.
     bindE (vecKey (m_keyLen ci) key) (\<lambda>k.
     bindE (copy_bytes val (m_ValLen ci)) (\<lambda>buffer.
     bindE (rdi (m_VecMap ci) h) (\<lambda>b.
     bindE (wri (m_VecMap ci) h (map_insert TVecCharCmp k buffer b)) (\<lambda>vm.
       Inr (None, ci\<lparr>m_VecMap := vm\<rparr>))))))"

definition map_begin :: "TMap \<Rightarrow> TVecChar option" where
  "map_begin b = (case b of [] \<Rightarrow> None | (k, v) # _ \<Rightarrow> Some k)"

definition CIndex_Scan :: "CIndex \<Rightarrow> (HashResCode \<times> CIndex) res" where
  "CIndex_Scan ci = bindE (rdi (m_VecMap ci) 0) (\<lambda>b.
     Inr (HASH_SUCCESS, ci\<lparr>m_iter := Some (0, map_begin b)\<rparr>))"

text \<open>
  \<open>Next\<close>: the loop over empty buckets, then the value under the iterator and its successor.
  At the end \<open>*val\<close> is left alone (\<open>None\<close>) and the status is \<open>HASH_SUCCESS\<close> as well. Once
  past the end the bucket number leaves the array.
\<close>

function skip_empty :: "TMap list \<Rightarrow> int \<Rightarrow> int \<Rightarrow> TVecChar option \<Rightarrow> (int \<times> TVecChar option) res" where
  "skip_empty vm sz h it =
     (if it \<noteq> None then Inr (h, it)
      else if h + 1 = sz then Inr (h + 1, None)
      else bindE (rdi vm (h + 1)) (\<lambda>b. skip_empty vm sz (h + 1) (map_begin b)))"
  by pat_completeness auto
termination
  by (relation "measure (\<lambda>(vm, sz, h, it). nat (int (length vm) - h))")
    (auto simp: rdi_def rd_def split: if_splits)

declare skip_empty.simps [simp del]

fun map_at :: "TVecChar \<Rightarrow> TMap \<Rightarrow> (byte list \<times> TVecChar option) res" where
  "map_at k [] = Inl Dangling"
| "map_at k ((k', v) # xs) = (if k = k' then Inr (v, map_begin xs) else map_at k xs)"

definition CIndex_Next :: "CIndex \<Rightarrow> (HashResCode \<times> byte list option \<times> CIndex) res" where
  "CIndex_Next ci =
     (case m_iter ci of
        None \<Rightarrow> Inl Uninitialised
      | Some (h, it) \<Rightarrow>
          bindE (skip_empty (m_VecMap ci) (m_Size ci) h it) (\<lambda>(h', it').
            case it' of
              None \<Rightarrow> Inr (HASH_SUCCESS, None, ci\<lparr>m_iter := Some (h', None)\<rparr>)
            | Some k \<Rightarrow> bindE (rdi (m_VecMap ci) h') (\<lambda>b.
                bindE (map_at k b) (\<lambda>(v, next).
                  Inr (HASH_SUCCESS, Some v, ci\<lparr>m_iter := Some (h', next)\<rparr>)))))"

section \<open>The array of indices\<close>

text \<open>\<open>m_HashIndex\<close> is \<open>None\<close> for the NULL pointer, its cells are \<open>None\<close> for a NULL index.\<close>

record CHash =
  m_IndexCount :: int
  m_HashSize :: int
  m_HashIndex :: "CIndex option list option"

definition CHash_new :: "nat \<Rightarrow> CHash" where
  "CHash_new iHashSize =
     \<lparr>m_IndexCount = 0, m_HashSize = int (iHashSize div 1000 + 1), m_HashIndex = None\<rparr>"

definition index_at :: "CHash \<Rightarrow> int \<Rightarrow> CIndex option res" where
  "index_at h i = (case m_HashIndex h of None \<Rightarrow> Inl NullDeref | Some xs \<Rightarrow> rdi xs i)"

definition BuildIndex :: "int \<Rightarrow> int \<Rightarrow> int \<Rightarrow> HashFunc \<Rightarrow> CHash \<Rightarrow> (HashResCode \<times> CHash) res" where
  "BuildIndex iIndex kl vl f h0 =
     bindE (if m_IndexCount h0 \<le> iIndex
            then bindE (ck (iIndex + 1)) (\<lambda>n.
              let fresh = replicate (nat n) None;
                  arr = (case m_HashIndex h0 of
                           None \<Rightarrow> fresh
                         | Some old \<Rightarrow> old @ drop (length old) fresh)
              in Inr (HASH_SUCCESS, h0\<lparr>m_HashIndex := Some arr, m_IndexCount := n\<rparr>))
            else bindE (index_at h0 iIndex) (\<lambda>c.
              Inr (if c \<noteq> None then HASH_INDEX_HAS_EXISTED else HASH_SUCCESS, h0)))
       (\<lambda>(r, h). if r \<noteq> HASH_SUCCESS then Inr (r, h)
         else bindE (CIndex_new (m_HashSize h) kl vl f) (\<lambda>ci.
           case m_HashIndex h of
             None \<Rightarrow> Inl NullDeref
           | Some arr \<Rightarrow> bindE (wri arr iIndex (Some ci)) (\<lambda>arr'.
               Inr (HASH_SUCCESS, h\<lparr>m_HashIndex := Some arr'\<rparr>))))"

text \<open>The status of a successful \<open>Insert\<close> is whatever \<open>CIndex::Insert\<close> left (\<open>None\<close>).\<close>

definition CHash_Insert :: "int \<Rightarrow> byte list \<Rightarrow> byte list \<Rightarrow> CHash \<Rightarrow> (HashResCode option \<times> CHash) res" where
  "CHash_Insert i key val h =
     (if i \<ge> m_IndexCount h then Inr (Some HASH_INDEX_NOT_EXIST, h)
      else bindE (index_at h i) (\<lambda>c. case c of
          None \<Rightarrow> Inr (Some HASH_INDEX_NOT_EXIST, h)
        | Some ci \<Rightarrow> bindE (CIndex_Insert ci key val) (\<lambda>(r, ci').
            bindE (wri (the (m_HashIndex h)) i (Some ci')) (\<lambda>arr.
              Inr (r, h\<lparr>m_HashIndex := Some arr\<rparr>)))))"

text \<open>\<open>Find\<close>: the integer status; a missing index gives 3 and leaves \<open>*val\<close> alone (\<open>Inl\<close>).\<close>

definition CHash_Find :: "int \<Rightarrow> byte list \<Rightarrow> CHash \<Rightarrow> (int \<times> (unit + byte list option)) res" where
  "CHash_Find i key h =
     (if i \<ge> m_IndexCount h then Inr (3, Inl ())
      else bindE (index_at h i) (\<lambda>c. case c of
          None \<Rightarrow> Inr (3, Inl ())
        | Some ci \<Rightarrow> bindE (CIndex_Find ci key) (\<lambda>(r, v). Inr (r, Inr v))))"

text \<open>\<open>Scan\<close> and \<open>Next\<close> always use index 0.\<close>

definition CHash_Scan :: "CHash \<Rightarrow> (HashResCode \<times> CHash) res" where
  "CHash_Scan h = bindE (index_at h 0) (\<lambda>c. case c of
       None \<Rightarrow> Inr (HASH_INDEX_NOT_EXIST, h)
     | Some ci \<Rightarrow> bindE (CIndex_Scan ci) (\<lambda>(r, ci').
         bindE (wri (the (m_HashIndex h)) 0 (Some ci')) (\<lambda>arr.
           Inr (r, h\<lparr>m_HashIndex := Some arr\<rparr>))))"

definition CHash_Next :: "CHash \<Rightarrow> (HashResCode \<times> byte list option \<times> CHash) res" where
  "CHash_Next h = bindE (index_at h 0) (\<lambda>c. case c of
       None \<Rightarrow> Inr (HASH_INDEX_NOT_EXIST, None, h)
     | Some ci \<Rightarrow> bindE (CIndex_Next ci) (\<lambda>(r, v, ci').
         bindE (wri (the (m_HashIndex h)) 0 (Some ci')) (\<lambda>arr.
           Inr (r, v, h\<lparr>m_HashIndex := Some arr\<rparr>))))"

section \<open>The user of the table\<close>

text \<open>
  \<open>getRandStr\<close>: \<open>len - 1\<close> random lower-case letters and a NUL in a static array of 128
  characters; \<open>rand\<close> is the C library's generator after \<open>srand(seed)\<close>.
\<close>

definition getRandStr :: "(nat \<Rightarrow> nat \<Rightarrow> int) \<Rightarrow> nat \<Rightarrow> nat \<Rightarrow> byte list res" where
  "getRandStr rand seed len =
     (if len = 0 \<or> 128 < len then Inl OutOfBounds
      else Inr (map (\<lambda>i. word_of_int (crem (rand seed i) 26 + 97)) [0..<len - 1] @ [0]))"

record TPerson =
  p_id :: int
  p_name :: "byte list"
  p_addr :: "byte list"
  p_salary :: "byte list"

definition TPerson_new :: "(nat \<Rightarrow> nat \<Rightarrow> int) \<Rightarrow> nat \<Rightarrow> int \<Rightarrow> TPerson res" where
  "TPerson_new rand seed i = bindE (getRandStr rand seed 32) (\<lambda>s.
     Inr \<lparr>p_id = i, p_name = s, p_addr = s, p_salary = [0, 0, 0, 0, 0, 64, 143, 64]\<rparr>)"

definition person_bytes :: "TPerson \<Rightarrow> byte list" where
  "person_bytes p = put_i32 (p_id p) @ p_name p @ p_addr p @ p_salary p"

text \<open>
  \<open>TPersonKey::operator=\<close> copies at most 31 characters of the name and pads with NULs; the
  32nd byte keeps the value it had before (\<open>junk\<close>).
\<close>

fun strncpy_bytes :: "byte list \<Rightarrow> nat \<Rightarrow> byte list" where
  "strncpy_bytes s 0 = []"
| "strncpy_bytes [] (Suc n) = replicate (Suc n) 0"
| "strncpy_bytes (c # s) (Suc n) = (if c = 0 then replicate (Suc n) 0 else c # strncpy_bytes s n)"

definition TPersonKey :: "byte \<Rightarrow> TPerson \<Rightarrow> byte list" where
  "TPersonKey junk p = strncpy_bytes (p_name p) 31 @ [junk]"

text \<open>\<open>HashFunc1\<close>; \<open>char\<close> is signed.\<close>

function hash_loop :: "byte list \<Rightarrow> int \<Rightarrow> int \<Rightarrow> int res" where
  "hash_loop name len r =
     (if len - 1 \<ge> 0
      then bindE (rdi name len) (\<lambda>c.
           bindE (ck (sint c * len)) (\<lambda>t. bindE (ck (t * len)) (\<lambda>u. bindE (ck (r + u)) (\<lambda>r'.
             hash_loop name (cdiv len 2) r'))))
      else Inr r)"
  by pat_completeness auto
termination
  by (relation "measure (\<lambda>(name, len, r). nat len)") (auto simp: cdiv_def sgn_if)

declare hash_loop.simps [simp del]

definition HashFunc1 :: HashFunc where
  "HashFunc1 key kLen index = hash_loop key (kLen - 1) 1"

text \<open>
  The two loops of \<open>test_hash\<close> over the persons and their keys: a key that is already in
  the table ends the test (\<open>False\<close>), otherwise the person is inserted; then \<open>Scan\<close> and
  \<open>Next\<close> until no value is returned. The result of the second loop is the list of values.
\<close>

fun test_insert :: "(byte list \<times> byte list) list \<Rightarrow> CHash \<Rightarrow> (bool \<times> CHash) res" where
  "test_insert [] h = Inr (True, h)"
| "test_insert ((pk, p) # ps) h =
     bindE (CHash_Find 0 pk h) (\<lambda>(_, v).
       case v of
         Inr (Some pp) \<Rightarrow> Inr (False, h)
       | _ \<Rightarrow> bindE (CHash_Insert 0 pk p h) (\<lambda>(_, h'). test_insert ps h'))"

fun test_scan :: "nat \<Rightarrow> CHash \<Rightarrow> (byte list list \<times> CHash) option res" where
  "test_scan 0 h = Inr None"
| "test_scan (Suc n) h =
     bindE (CHash_Next h) (\<lambda>(_, v, h').
       case v of
         None \<Rightarrow> Inr (Some ([], h'))
       | Some x \<Rightarrow> bindE (test_scan n h') (\<lambda>r.
           Inr (case r of None \<Rightarrow> None | Some (xs, h'') \<Rightarrow> Some (x # xs, h''))))"

definition test_hash :: "nat \<Rightarrow> (byte list \<times> byte list) list \<Rightarrow> nat \<Rightarrow>
    (unit + byte list list option) res" where
  "test_hash iHashSize ps fuel =
     bindE (BuildIndex 0 32 76 HashFunc1 (CHash_new iHashSize)) (\<lambda>(_, h).
     bindE (test_insert ps h) (\<lambda>(new, h1).
       if \<not> new then Inr (Inl ())
       else bindE (CHash_Scan h1) (\<lambda>(r, h2).
         if r \<noteq> HASH_SUCCESS then Inr (Inl ())
         else bindE (test_scan fuel h2) (\<lambda>xs. Inr (Inr (map_option fst xs))))))"

section \<open>The comparison is a strict order on keys of one length\<close>

lemma memcmp_refl [simp]: "memcmp n a a = 0"
proof (induction a arbitrary: n)
  case (Cons x a)
  then show ?case by (cases n) simp_all
qed simp

lemma memcmp_anti: "memcmp n b a = - memcmp n a b"
  by (induction n a b rule: memcmp.induct) auto

lemma memcmp_zero: "length a = n \<Longrightarrow> length b = n \<Longrightarrow> memcmp n a b = 0 \<Longrightarrow> a = b"
  by (induction n a b rule: memcmp.induct) (auto split: if_splits)

lemma memcmp_trans:
  "length a = n \<Longrightarrow> length b = n \<Longrightarrow> length c = n \<Longrightarrow> memcmp n a b < 0 \<Longrightarrow> memcmp n b c < 0 \<Longrightarrow>
   memcmp n a c < 0"
proof (induction n arbitrary: a b c)
  case (Suc n)
  obtain x xs y ys z zs where *: "a = x # xs" "b = y # ys" "c = z # zs"
    using Suc.prems(1-3) by (metis length_Suc_conv)
  show ?case
    using Suc.prems Suc.IH [of xs ys zs] unfolding *
    by (simp split: if_splits) (meson less_trans less_linear)+
qed simp

definition vec_keys :: "nat \<Rightarrow> TVecChar set" where
  "vec_keys n = {k. m_size k = int n \<and> length (m_data k) = n}"

interpretation vec: std_map TVecCharCmp "vec_keys n" for n
proof
  fix a b c assume "a \<in> vec_keys n" "b \<in> vec_keys n" "c \<in> vec_keys n"
    "TVecCharCmp a b" "TVecCharCmp b c"
  then show "TVecCharCmp a c"
    using memcmp_trans [of "m_data a" n "m_data b" "m_data c"]
    by (simp add: TVecCharCmp_def vec_keys_def)
next
  fix a b assume "a \<in> vec_keys n" "b \<in> vec_keys n" "\<not> TVecCharCmp a b" "\<not> TVecCharCmp b a"
  then show "a = b"
    using memcmp_zero [of "m_data a" n "m_data b"] memcmp_anti [of n "m_data b" "m_data a"]
    by (cases a; cases b) (auto simp: TVecCharCmp_def vec_keys_def)
qed (simp add: TVecCharCmp_def)

section \<open>An index is a map\<close>

definition vec_of :: "byte list \<Rightarrow> TVecChar" where
  "vec_of key = \<lparr>m_size = int (length key), m_data = key\<rparr>"

lemma vec_of_in: "length key = n \<Longrightarrow> vec_of key \<in> vec_keys n"
  by (simp add: vec_of_def vec_keys_def)

lemma vec_of_inject: "vec_of k = vec_of k' \<longleftrightarrow> k = k'"
  by (auto simp: vec_of_def)

lemma vecKey_ok: "length key = n \<Longrightarrow> vecKey (int n) key = Inr (vec_of key)"
  by (simp add: vecKey_def copy_bytes_def vec_of_def)

text \<open>
  \<open>hash_good f n good\<close>: on the keys in use the hash function is defined and not negative.
\<close>

definition hash_good :: "HashFunc \<Rightarrow> nat \<Rightarrow> (byte list \<Rightarrow> bool) \<Rightarrow> bool" where
  "hash_good f n good \<longleftrightarrow>
     (\<forall>k. good k \<longrightarrow> length k = n \<and> (\<exists>c. f k (int n) 0 = Inr c \<and> 0 \<le> c))"

definition index_inv :: "(byte list \<Rightarrow> bool) \<Rightarrow> nat \<Rightarrow> nat \<Rightarrow> CIndex \<Rightarrow> bool" where
  "index_inv good n vl ci \<longleftrightarrow> m_keyLen ci = int n \<and> m_ValLen ci = int vl \<and>
     0 < m_Size ci \<and> int (length (m_VecMap ci)) = m_Size ci \<and> hash_good (m_HashFunc ci) n good \<and>
     (\<forall>b\<in>set (m_VecMap ci). vec.ok n b)"

definition slot :: "CIndex \<Rightarrow> byte list \<Rightarrow> nat" where
  "slot ci key = (case m_HashFunc ci key (m_keyLen ci) 0 of
     Inr c \<Rightarrow> nat (crem c (m_Size ci)) | Inl _ \<Rightarrow> 0)"

definition index_rep :: "(byte list \<Rightarrow> bool) \<Rightarrow> nat \<Rightarrow> nat \<Rightarrow> CIndex \<Rightarrow> (byte list \<rightharpoonup> byte list) \<Rightarrow> bool" where
  "index_rep good n vl ci m \<longleftrightarrow> index_inv good n vl ci \<and>
     (\<forall>k. good k \<longrightarrow> m k = map_of (m_VecMap ci ! slot ci k) (vec_of k))"

definition index_ents :: "CIndex \<Rightarrow> (byte list \<times> byte list) multiset" where
  "index_ents ci = mset (map (map_prod m_data id) (concat (m_VecMap ci)))"

lemma slot_ok:
  assumes "index_inv good n vl ci" "good k"
  shows "length k = n" "hashVal ci k = Inr (int (slot ci k))" "slot ci k < length (m_VecMap ci)"
    "vec.ok n (m_VecMap ci ! slot ci k)"
proof -
  obtain c where c: "m_HashFunc ci k (m_keyLen ci) 0 = Inr c" "0 \<le> c" "length k = n"
    using assms by (auto simp: index_inv_def hash_good_def)
  then show "length k = n" by simp
  have b: "0 \<le> crem c (m_Size ci)" "crem c (m_Size ci) < m_Size ci" "m_Size ci \<noteq> 0"
    using crem_bounds [of c "m_Size ci"] c assms(1) by (auto simp: index_inv_def)
  then show "hashVal ci k = Inr (int (slot ci k))"
    using c by (simp add: hashVal_def slot_def)
  show s: "slot ci k < length (m_VecMap ci)"
    using b c assms(1) by (simp add: slot_def index_inv_def nat_less_iff)
  then show "vec.ok n (m_VecMap ci ! slot ci k)"
    using assms(1) by (simp add: index_inv_def)
qed

lemma CIndex_Find_ok:
  assumes "index_rep good n vl ci m" "good k"
  shows "CIndex_Find ci k = Inr (if m k = None then - 1 else 0, m k)"
proof -
  have inv: "index_inv good n vl ci" using assms(1) by (simp add: index_rep_def)
  note s = slot_ok [OF inv assms(2)]
  have m: "m k = map_of (m_VecMap ci ! slot ci k) (vec_of k)"
    using assms by (simp add: index_rep_def)
  have "vecKey (m_keyLen ci) k = Inr (vec_of k)"
    using inv vecKey_ok [OF s(1)] by (simp add: index_inv_def)
  then show ?thesis
    using s vec.find_map_of [OF vec_of_in [OF s(1)] s(4)]
    by (simp add: CIndex_Find_def m split: option.split)
qed

lemma CIndex_Insert_eq:
  assumes "index_inv good n vl ci" "good k" "length v = vl"
  shows "CIndex_Insert ci k v = Inr (None, ci\<lparr>m_VecMap := (m_VecMap ci)
    [slot ci k := map_insert TVecCharCmp (vec_of k) v (m_VecMap ci ! slot ci k)]\<rparr>)"
proof -
  note s = slot_ok [OF assms(1,2)]
  have "vecKey (m_keyLen ci) k = Inr (vec_of k)" "copy_bytes v (m_ValLen ci) = Inr v"
    using assms vecKey_ok [OF s(1)] by (simp_all add: index_inv_def copy_bytes_def)
  then show ?thesis using s by (simp add: CIndex_Insert_def)
qed

lemma slot_upd [simp]: "slot (ci\<lparr>m_VecMap := vm\<rparr>) k = slot ci k" "slot (ci\<lparr>m_iter := it\<rparr>) k = slot ci k"
  by (simp_all add: slot_def split: sum.split)

lemma index_inv_insert:
  assumes "index_inv good n vl ci" "good k"
  shows "index_inv good n vl (ci\<lparr>m_VecMap := (m_VecMap ci)
    [slot ci k := map_insert TVecCharCmp (vec_of k) v (m_VecMap ci ! slot ci k)]\<rparr>)"
proof -
  note s = slot_ok [OF assms]
  have "vec.ok n (map_insert TVecCharCmp (vec_of k) v (m_VecMap ci ! slot ci k))"
    by (rule vec.ok_insert [OF vec_of_in [OF s(1)] s(4)])
  then show ?thesis
    using assms(1) by (auto simp: index_inv_def dest!: subsetD [OF set_update_subset_insert])
qed

lemma mset_concat_update:
  "i < length xss \<Longrightarrow> mset (concat (xss[i := ys])) + mset (xss ! i) = mset (concat xss) + mset ys"
proof (induction xss arbitrary: i)
  case (Cons xs xss)
  then show ?case by (cases i) (auto simp: ac_simps)
qed simp

lemma CIndex_Insert_new:
  assumes "index_rep good n vl ci m" "good k" "length v = vl" "m k = None"
  shows "\<exists>ci'. CIndex_Insert ci k v = Inr (None, ci') \<and> index_rep good n vl ci' (m(k \<mapsto> v)) \<and>
    index_ents ci' = add_mset (k, v) (index_ents ci)"
proof -
  have inv: "index_inv good n vl ci" using assms(1) by (simp add: index_rep_def)
  note s = slot_ok [OF inv assms(2)]
  let ?b = "m_VecMap ci ! slot ci k"
  let ?b' = "map_insert TVecCharCmp (vec_of k) v ?b"
  let ?ci = "ci\<lparr>m_VecMap := (m_VecMap ci)[slot ci k := ?b']\<rparr>"
  have none: "map_of ?b (vec_of k) = None" using assms by (simp add: index_rep_def)
  have "map_of ?b' = (map_of ?b)(vec_of k \<mapsto> v)"
    using vec.map_of_insert [OF vec_of_in [OF s(1)] s(4)] none by simp
  then have "index_rep good n vl ?ci (m(k \<mapsto> v))"
    using assms(1) index_inv_insert [OF inv assms(2)] s(3)
    by (auto simp: index_rep_def nth_list_update vec_of_inject)
  moreover have "mset (concat ((m_VecMap ci)[slot ci k := ?b'])) =
      add_mset (vec_of k, v) (mset (concat (m_VecMap ci)))"
    using mset_concat_update [OF s(3), of ?b'] vec.mset_insert [OF vec_of_in [OF s(1)] s(4) none, of v]
    by simp
  then have "index_ents ?ci = add_mset (k, v) (index_ents ci)"
    by (simp add: index_ents_def vec_of_def)
  ultimately show ?thesis
    using CIndex_Insert_eq [OF inv assms(2,3)] by blast
qed

lemma CIndex_Insert_old:
  assumes "index_rep good n vl ci m" "good k" "length v = vl" "m k \<noteq> None"
  shows "CIndex_Insert ci k v = Inr (None, ci)"
proof -
  have inv: "index_inv good n vl ci" using assms(1) by (simp add: index_rep_def)
  note s = slot_ok [OF inv assms(2)]
  have "map_of (m_VecMap ci ! slot ci k) (vec_of k) \<noteq> None"
    using assms by (simp add: index_rep_def)
  then show ?thesis
    using CIndex_Insert_eq [OF inv assms(2,3)] vec.insert_known [OF vec_of_in [OF s(1)] s(4)]
    by simp
qed

section \<open>Scanning an index\<close>

definition scan_inv :: "CIndex \<Rightarrow> bool" where
  "scan_inv ci \<longleftrightarrow> 0 < m_Size ci \<and> int (length (m_VecMap ci)) = m_Size ci \<and>
     (\<forall>b\<in>set (m_VecMap ci). distinct (map fst b))"

text \<open>The values still to come: the rest of the current bucket, then the later buckets.\<close>

definition pending :: "CIndex \<Rightarrow> byte list list \<Rightarrow> bool" where
  "pending ci xs \<longleftrightarrow> (\<exists>h pre suf. h < length (m_VecMap ci) \<and> m_VecMap ci ! h = pre @ suf \<and>
     m_iter ci = Some (int h, map_begin suf) \<and>
     xs = map snd (suf @ concat (drop (Suc h) (m_VecMap ci))))"

lemma map_begin_None [simp]: "map_begin b = None \<longleftrightarrow> b = []"
  by (auto simp: map_begin_def split: list.splits)

lemma map_begin_Nil: "map_begin [] = None"
  by simp

lemma map_begin_Cons: "map_begin ((k, v) # b) = Some k"
  by (simp add: map_begin_def)

lemma map_at_mid:
  "distinct (map fst (pre @ (k, v) # suf)) \<Longrightarrow> map_at k (pre @ (k, v) # suf) = Inr (v, map_begin suf)"
  by (induction pre) auto

lemma skip_empty_ok:
  "h < length vm \<Longrightarrow> vm ! h = pre @ suf \<Longrightarrow>
   \<exists>h' pre' suf'. skip_empty vm (int (length vm)) (int h) (map_begin suf) = Inr (int h', map_begin suf') \<and>
     (if suf @ concat (drop (Suc h) vm) = [] then suf' = [] \<and> h' = length vm
      else h' < length vm \<and> suf' \<noteq> [] \<and> vm ! h' = pre' @ suf' \<and>
        suf' @ concat (drop (Suc h') vm) = suf @ concat (drop (Suc h) vm))"
proof (induction "length vm - h" arbitrary: h pre suf rule: less_induct)
  case less
  show ?case
  proof (cases "suf = []")
    case False
    then have "skip_empty vm (int (length vm)) (int h) (map_begin suf) = Inr (int h, map_begin suf)"
      by (simp add: skip_empty.simps [of _ _ _ "map_begin suf"])
    with False less.prems show ?thesis by auto
  next
    case True
    show ?thesis
    proof (cases "Suc h = length vm")
      case last: True
      have eq: "int h + 1 = int (length vm)" using last by simp
      have "skip_empty vm (int (length vm)) (int h) None = Inr (int (length vm), None)"
        using eq by (simp add: skip_empty.simps [of _ _ _ None])
      then show ?thesis
        using True last by (intro exI [of _ "length vm"] exI [of _ "[]"]) (simp add: map_begin_def)
    next
      case False
      then have h: "Suc h < length vm" using less.prems by simp
      then have rec: "skip_empty vm (int (length vm)) (int h) None =
          skip_empty vm (int (length vm)) (int (Suc h)) (map_begin (vm ! Suc h))"
        by (simp add: skip_empty.simps [of _ _ "int h" None] nat_add_distrib add.commute)
      have conc: "concat (drop (Suc h) vm) = vm ! Suc h @ concat (drop (Suc (Suc h)) vm)"
        using h by (simp add: Cons_nth_drop_Suc [symmetric])
      show ?thesis
        using less.hyps [of "Suc h" "[]" "vm ! Suc h"] h rec
        by (simp only: True conc append_Nil map_begin_Nil)
    qed
  qed
qed

lemma Next_end:
  assumes "scan_inv ci" "pending ci []"
  shows "CIndex_Next ci = Inr (HASH_SUCCESS, None, ci\<lparr>m_iter := Some (m_Size ci, None)\<rparr>)"
proof -
  obtain h pre suf where h: "h < length (m_VecMap ci)" "m_VecMap ci ! h = pre @ suf"
    "m_iter ci = Some (int h, map_begin suf)" "suf @ concat (drop (Suc h) (m_VecMap ci)) = []"
    using assms(2) by (auto simp: pending_def)
  then have "skip_empty (m_VecMap ci) (m_Size ci) (int h) (map_begin suf) = Inr (m_Size ci, None)"
    using skip_empty_ok [OF h(1,2)] assms(1)
    by (metis map_begin_None scan_inv_def)
  then show ?thesis by (simp add: CIndex_Next_def h(3))
qed

lemma Next_value:
  assumes "scan_inv ci" "pending ci (x # xs)"
  shows "\<exists>it. CIndex_Next ci = Inr (HASH_SUCCESS, Some x, ci\<lparr>m_iter := it\<rparr>) \<and>
    pending (ci\<lparr>m_iter := it\<rparr>) xs"
proof -
  let ?vm = "m_VecMap ci"
  obtain h pre suf where h: "h < length ?vm" "?vm ! h = pre @ suf"
    "m_iter ci = Some (int h, map_begin suf)" "x # xs = map snd (suf @ concat (drop (Suc h) ?vm))"
    using assms(2) by (auto simp: pending_def)
  from h(4) have ne: "suf @ concat (drop (Suc h) ?vm) \<noteq> []" by (metis list.distinct(1) list.map(1))
  obtain h' pre' suf' where h': "skip_empty ?vm (int (length ?vm)) (int h) (map_begin suf) =
      Inr (int h', map_begin suf')" "h' < length ?vm" "suf' \<noteq> []" "?vm ! h' = pre' @ suf'"
      "suf' @ concat (drop (Suc h') ?vm) = suf @ concat (drop (Suc h) ?vm)"
    using skip_empty_ok [OF h(1,2)] unfolding if_not_P [OF ne] by blast
  obtain k v suf2 where suf': "suf' = (k, v) # suf2" using h'(3) by (cases suf') auto
  have x: "x = v" "xs = map snd (suf2 @ concat (drop (Suc h') ?vm))"
    using h(4) unfolding h'(5) [symmetric] suf' by simp_all
  have "distinct (map fst (?vm ! h'))" using assms(1) h'(2) by (simp add: scan_inv_def)
  then have "map_at k (?vm ! h') = Inr (v, map_begin suf2)"
    unfolding h'(4) suf' by (rule map_at_mid)
  then have "CIndex_Next ci = Inr (HASH_SUCCESS, Some x, ci\<lparr>m_iter := Some (int h', map_begin suf2)\<rparr>)"
    using h'(1,2) h(3) assms(1) by (simp add: CIndex_Next_def scan_inv_def suf' map_begin_Cons x)
  moreover have "pending (ci\<lparr>m_iter := Some (int h', map_begin suf2)\<rparr>) xs"
    unfolding pending_def using h'(2,4) suf' x(2)
    by (intro exI [of _ h'] exI [of _ "pre' @ [(k, v)]"] exI [of _ suf2]) simp
  ultimately show ?thesis by blast
qed

lemma Scan_ok:
  assumes "scan_inv ci"
  shows "\<exists>it. CIndex_Scan ci = Inr (HASH_SUCCESS, ci\<lparr>m_iter := it\<rparr>) \<and>
    pending (ci\<lparr>m_iter := it\<rparr>) (map snd (concat (m_VecMap ci)))"
proof -
  have len: "0 < length (m_VecMap ci)" using assms by (auto simp: scan_inv_def)
  have "concat (m_VecMap ci) = m_VecMap ci ! 0 @ concat (drop (Suc 0) (m_VecMap ci))"
    using len by (cases "m_VecMap ci") simp_all
  then have "pending (ci\<lparr>m_iter := Some (0, map_begin (m_VecMap ci ! 0))\<rparr>)
      (map snd (concat (m_VecMap ci)))"
    using len unfolding pending_def
    by (intro exI [of _ "0 :: nat"] exI [of _ "[]"] exI [of _ "m_VecMap ci ! 0"]) simp
  moreover have "CIndex_Scan ci = Inr (HASH_SUCCESS, ci\<lparr>m_iter := Some (0, map_begin (m_VecMap ci ! 0))\<rparr>)"
    using len by (simp add: CIndex_Scan_def)
  ultimately show ?thesis by blast
qed

section \<open>The table\<close>

definition cell :: "CHash \<Rightarrow> int \<Rightarrow> CIndex \<Rightarrow> bool" where
  "cell h i ci \<longleftrightarrow> 0 \<le> i \<and> i < m_IndexCount h \<and>
     (\<exists>arr. m_HashIndex h = Some arr \<and> int (length arr) = m_IndexCount h \<and> arr ! nat i = Some ci)"

definition set_cell :: "CHash \<Rightarrow> int \<Rightarrow> CIndex \<Rightarrow> CHash" where
  "set_cell h i ci = h\<lparr>m_HashIndex := Some ((the (m_HashIndex h))[nat i := Some ci])\<rparr>"

lemma index_at_cell: "cell h i ci \<Longrightarrow> index_at h i = Inr (Some ci)"
  by (auto simp: cell_def index_at_def)

lemma wri_cell:
  "cell h i ci \<Longrightarrow> wri (the (m_HashIndex h)) i (Some ci') = Inr ((the (m_HashIndex h))[nat i := Some ci'])"
  by (auto simp: cell_def)

lemma cell_set_cell: "cell h i ci \<Longrightarrow> cell (set_cell h i ci') i ci'"
  by (auto simp: cell_def set_cell_def)

lemma cell_unique: "cell h i ci \<Longrightarrow> cell h i ci' \<Longrightarrow> ci = ci'"
  by (auto simp: cell_def)

lemma set_cell_twice [simp]: "set_cell (set_cell h i a) i b = set_cell h i b"
  by (simp add: set_cell_def)

lemma CHash_Insert_cell:
  "cell h i ci \<Longrightarrow> CIndex_Insert ci k v = Inr (r, ci') \<Longrightarrow>
   CHash_Insert i k v h = Inr (r, set_cell h i ci')"
  using index_at_cell [of h i ci] wri_cell [of h i ci ci']
  by (simp add: CHash_Insert_def set_cell_def cell_def)

lemma CHash_Find_cell:
  "cell h i ci \<Longrightarrow> CHash_Find i k h = bindE (CIndex_Find ci k) (\<lambda>(r, v). Inr (r, Inr v))"
  using index_at_cell [of h i ci] by (simp add: CHash_Find_def cell_def)

definition table_rep :: "(byte list \<Rightarrow> bool) \<Rightarrow> nat \<Rightarrow> nat \<Rightarrow> int \<Rightarrow> CHash \<Rightarrow>
    (byte list \<rightharpoonup> byte list) \<Rightarrow> bool" where
  "table_rep good n vl i h m \<longleftrightarrow> (\<exists>ci. cell h i ci \<and> index_rep good n vl ci m)"

definition table_ents :: "int \<Rightarrow> CHash \<Rightarrow> (byte list \<times> byte list) multiset" where
  "table_ents i h = index_ents (the (the (m_HashIndex h) ! nat i))"

lemma table_ents_cell: "cell h i ci \<Longrightarrow> table_ents i h = index_ents ci"
  by (auto simp: table_ents_def cell_def)

definition table_ins :: "int \<Rightarrow> byte list \<Rightarrow> byte list \<Rightarrow> CHash \<Rightarrow> CHash res" where
  "table_ins i k v h = bindE (CHash_Insert i k v h) (\<lambda>(_, h'). Inr h')"

definition table_look :: "int \<Rightarrow> byte list \<Rightarrow> CHash \<Rightarrow> byte list option res" where
  "table_look i k h = bindE (CHash_Find i k h) (\<lambda>(_, r).
     Inr (case r of Inl _ \<Rightarrow> None | Inr v \<Rightarrow> v))"

interpretation table: dictionary "table_ins i" "table_look i" "table_rep good n vl i" "table_ents i"
  good "\<lambda>v. length v = vl" for i n vl good
proof
  fix s m k assume s: "table_rep good n vl i s m" and k: "good k"
  then obtain ci where ci: "cell s i ci" "index_rep good n vl ci m" by (auto simp: table_rep_def)
  show "table_look i k s = Inr (m k)"
    using CIndex_Find_ok [OF ci(2) k] CHash_Find_cell [OF ci(1)] by (simp add: table_look_def)
  fix v :: "byte list" assume v: "length v = vl"
  {
    assume "m k = None"
    then obtain ci' where ci': "CIndex_Insert ci k v = Inr (None, ci')"
      "index_rep good n vl ci' (m(k \<mapsto> v))" "index_ents ci' = add_mset (k, v) (index_ents ci)"
      using CIndex_Insert_new [OF ci(2) k v] by blast
    have "table_rep good n vl i (set_cell s i ci') (m(k \<mapsto> v))"
      using ci'(2) cell_set_cell [OF ci(1)] unfolding table_rep_def by blast
    then show "\<exists>s'. table_ins i k v s = Inr s' \<and> table_rep good n vl i s' (m(k \<mapsto> v)) \<and>
        table_ents i s' = add_mset (k, v) (table_ents i s)"
      using CHash_Insert_cell [OF ci(1) ci'(1)] ci'(3)
        table_ents_cell [OF ci(1)] table_ents_cell [OF cell_set_cell [OF ci(1), of ci']]
      by (intro exI [of _ "set_cell s i ci'"]) (simp add: table_ins_def)
  next
    assume "m k \<noteq> None"
    then have ins: "CIndex_Insert ci k v = Inr (None, ci)"
      using CIndex_Insert_old [OF ci(2) k v] by blast
    have "table_rep good n vl i (set_cell s i ci) m"
      using ci(2) cell_set_cell [OF ci(1)] unfolding table_rep_def by blast
    then show "\<exists>s'. table_ins i k v s = Inr s' \<and> table_rep good n vl i s' m \<and>
        table_ents i s' = table_ents i s"
      using CHash_Insert_cell [OF ci(1) ins]
        table_ents_cell [OF ci(1)] table_ents_cell [OF cell_set_cell [OF ci(1), of ci]]
      by (intro exI [of _ "set_cell s i ci"]) (simp add: table_ins_def)
  }
qed

lemma concat_replicate_Nil [simp]: "concat (replicate n []) = []"
  by (induction n) simp_all

lemma BuildIndex_fresh:
  assumes "0 \<le> i" "i < INT_MAX" "hash_good f n good"
  shows "\<exists>h. BuildIndex i (int n) (int vl) f (CHash_new s) = Inr (HASH_SUCCESS, h) \<and>
    table_rep good n vl i h Map.empty \<and> table_ents i h = {#}"
proof -
  let ?sz = "int (s div 1000 + 1)"
  define ci where "ci = \<lparr>m_Size = ?sz, m_Count = 0, m_keyLen = int n, m_ValLen = int vl,
    m_HashFunc = f, m_VecMap = replicate (nat ?sz) ([] :: TMap), m_iter = None\<rparr>"
  define h where "h = \<lparr>m_IndexCount = i + 1, m_HashSize = ?sz,
    m_HashIndex = Some ((replicate (nat (i + 1)) None)[nat i := Some ci])\<rparr>"
  have "is_i32 (i + 1)" using assms by (simp add: is_i32_nonneg)
  moreover have "wri (replicate (nat (i + 1)) None) i (Some ci) =
      Inr ((replicate (nat (i + 1)) None)[nat i := Some ci])"
    using assms by simp
  ultimately have "BuildIndex i (int n) (int vl) f (CHash_new s) = Inr (HASH_SUCCESS, h)"
    using assms by (simp add: BuildIndex_def CHash_new_def CIndex_new_def h_def ci_def Let_def)
  moreover have "cell h i ci" using assms by (simp add: cell_def h_def nat_less_iff)
  moreover have "index_inv good n vl ci"
    using assms by (auto simp: index_inv_def ci_def)
  then have "index_rep good n vl ci Map.empty"
    using slot_ok(3) [of good n vl ci] by (auto simp: index_rep_def ci_def)
  moreover have "index_ents ci = {#}" by (simp add: index_ents_def ci_def)
  ultimately show ?thesis using table_ents_cell by (auto simp: table_rep_def)
qed

section \<open>The hash function and the test program\<close>

definition char_ok :: "byte \<Rightarrow> bool" where
  "char_ok b \<longleftrightarrow> 0 \<le> sint b"

lemma sint_byte: "sint (b :: byte) \<le> 127"
  using sint_lt [of b] by simp

lemma hash_loop_ok:
  "0 \<le> r \<Longrightarrow> r + 254 * (len * len) \<le> INT_MAX \<Longrightarrow> 0 \<le> len \<Longrightarrow> len < int (length name) \<Longrightarrow>
   \<forall>b\<in>set name. char_ok b \<Longrightarrow> \<exists>c. hash_loop name len r = Inr c \<and> 0 \<le> c"
proof (induction "nat len" arbitrary: len r rule: less_induct)
  case less
  show ?case
  proof (cases "1 \<le> len")
    case False
    then show ?thesis using less.prems(1) by (simp add: hash_loop.simps [of name len])
  next
    case True
    let ?c = "sint (name ! nat len)"
    have c: "0 \<le> ?c" "?c \<le> 127"
      using less.prems True sint_byte by (auto simp: char_ok_def nth_mem nat_less_iff)
    have l2: "0 \<le> len * len" "len \<le> len * len" using True by (simp_all add: mult_le_cancel_left)
    have cl: "?c * len * len \<le> 127 * (len * len)" "0 \<le> ?c * len * len"
      using c True mult_right_mono [OF c(2) l2(1)] by (simp_all add: mult.assoc)
    have cl1: "?c * len \<le> 127 * len" "0 \<le> ?c * len"
      using c True mult_right_mono [of ?c 127 len] by simp_all
    have i32: "is_i32 (?c * len)" "is_i32 (?c * len * len)" "is_i32 (r + ?c * len * len)"
      using cl cl1 l2 less.prems(1,2) by (simp_all add: is_i32_nonneg)
    have div: "cdiv len 2 = len div 2" using True by (simp add: cdiv_def)
    have "2 * (len div 2 * (len div 2)) \<le> len * len"
    proof -
      have "2 * (len div 2) * (len div 2) \<le> len * len"
        using True by (intro mult_mono) simp_all
      then show ?thesis by (simp add: mult.assoc)
    qed
    then have "r + ?c * len * len + 254 * (len div 2 * (len div 2)) \<le> INT_MAX"
      using cl(1) less.prems(2) by linarith
    then have "\<exists>c. hash_loop name (len div 2) (r + ?c * len * len) = Inr c \<and> 0 \<le> c"
      using less.prems True cl by (intro less.hyps) simp_all
    then show ?thesis
      using True less.prems i32 by (simp add: hash_loop.simps [of name len r] div)
  qed
qed

definition ascii_key :: "byte list \<Rightarrow> bool" where
  "ascii_key k \<longleftrightarrow> length k = 32 \<and> (\<forall>b\<in>set k. char_ok b)"

lemma HashFunc1_good: "hash_good HashFunc1 32 ascii_key"
  unfolding hash_good_def
proof (intro allI impI)
  fix k assume "ascii_key k"
  then show "length k = 32 \<and> (\<exists>c. HashFunc1 k (int 32) 0 = Inr c \<and> 0 \<le> c)"
    using hash_loop_ok [of 1 31 k] by (simp add: ascii_key_def HashFunc1_def INT_MAX_def)
qed

lemma test_insert_ok:
  "table_rep good n vl 0 h m \<Longrightarrow> \<forall>(k, v)\<in>set ps. good k \<and> length v = vl \<Longrightarrow>
   distinct (map fst ps) \<Longrightarrow> dom m \<inter> fst ` set ps = {} \<Longrightarrow>
   test_insert ps h = bindE (insert_all (table_ins 0) ps h) (\<lambda>h'. Inr (True, h'))"
proof (induction ps arbitrary: h m)
  case (Cons kv ps)
  obtain k v where kv: "kv = (k, v)" by (cases kv)
  have k: "good k" "length v = vl" "m k = None" using Cons.prems by (auto simp: kv)
  obtain ci where ci: "cell h 0 ci" "index_rep good n vl ci m"
    using Cons.prems(1) by (auto simp: table_rep_def)
  have find: "CHash_Find 0 k h = Inr (- 1, Inr None)"
    using CHash_Find_cell [OF ci(1)] CIndex_Find_ok [OF ci(2) k(1)] k(3) by simp
  obtain h1 where h1: "table_ins 0 k v h = Inr h1" "table_rep good n vl 0 h1 (m(k \<mapsto> v))"
    using table.ins_new [OF Cons.prems(1) k(1,2,3)] by blast
  then obtain r where ins: "CHash_Insert 0 k v h = Inr (r, h1)"
    by (auto simp: table_ins_def res_simps)
  have disj: "dom (m(k \<mapsto> v)) \<inter> fst ` set ps = {}"
    using Cons.prems(3,4) by (simp add: kv del: fun_upd_apply)
  have "test_insert ps h1 = bindE (insert_all (table_ins 0) ps h1) (\<lambda>h'. Inr (True, h'))"
    using Cons.prems by (intro Cons.IH [OF h1(2) _ _ disj]) (simp_all add: kv)
  then show ?case using find ins h1(1) by (simp add: kv)
qed simp

lemma scan_inv_iter: "scan_inv ci \<Longrightarrow> scan_inv (ci\<lparr>m_iter := it\<rparr>)"
  by (simp add: scan_inv_def)

lemma CHash_Next_cell:
  "cell h 0 ci \<Longrightarrow> CIndex_Next ci = Inr (r, v, ci') \<Longrightarrow>
   CHash_Next h = Inr (r, v, set_cell h 0 ci')"
  using index_at_cell [of h 0 ci] wri_cell [of h 0 ci ci']
  by (simp add: CHash_Next_def set_cell_def)

lemma test_scan_ok:
  "cell h 0 ci \<Longrightarrow> scan_inv ci \<Longrightarrow> pending ci xs \<Longrightarrow> length xs < fuel \<Longrightarrow>
   \<exists>h'. test_scan fuel h = Inr (Some (xs, h')) \<and> cell h' 0 (ci\<lparr>m_iter := Some (m_Size ci, None)\<rparr>)"
proof (induction xs arbitrary: fuel h ci)
  case Nil
  then show ?case
    using CHash_Next_cell [OF Nil.prems(1) Next_end [OF Nil.prems(2,3)]] cell_set_cell
    by (cases fuel) auto
next
  case (Cons x xs)
  obtain f where f: "fuel = Suc f" "length xs < f" using Cons.prems(4) by (cases fuel) auto
  obtain it where it: "CIndex_Next ci = Inr (HASH_SUCCESS, Some x, ci\<lparr>m_iter := it\<rparr>)"
    "pending (ci\<lparr>m_iter := it\<rparr>) xs"
    using Next_value [OF Cons.prems(2,3)] by blast
  let ?h = "set_cell h 0 (ci\<lparr>m_iter := it\<rparr>)"
  obtain h' where "test_scan f ?h = Inr (Some (xs, h'))"
    "cell h' 0 (ci\<lparr>m_iter := it, m_iter := Some (m_Size ci, None)\<rparr>)"
    using Cons.IH [OF cell_set_cell [OF Cons.prems(1)] scan_inv_iter [OF Cons.prems(2)] it(2) f(2)]
    by auto
  then show ?case using CHash_Next_cell [OF Cons.prems(1) it(1)] f(1) by simp
qed

lemma index_inv_scan: "index_inv good n vl ci \<Longrightarrow> scan_inv ci"
  using vec.ok_distinct by (auto simp: index_inv_def scan_inv_def)

lemma table_scan_ok:
  assumes "table_rep good n vl 0 h m" "size (table_ents 0 h) < fuel"
  shows "\<exists>h1 h2 ci xs. CHash_Scan h = Inr (HASH_SUCCESS, h1) \<and>
    test_scan fuel h1 = Inr (Some (xs, h2)) \<and> mset xs = image_mset snd (table_ents 0 h) \<and>
    cell h2 0 ci \<and> int (length (m_VecMap ci)) = m_Size ci \<and> m_iter ci = Some (m_Size ci, None)"
proof -
  obtain ci where ci: "cell h 0 ci" "index_rep good n vl ci m"
    using assms(1) by (auto simp: table_rep_def)
  then have inv: "index_inv good n vl ci" by (simp add: index_rep_def)
  then have sc: "scan_inv ci" by (rule index_inv_scan)
  let ?xs = "map snd (concat (m_VecMap ci))"
  obtain it where it: "CIndex_Scan ci = Inr (HASH_SUCCESS, ci\<lparr>m_iter := it\<rparr>)"
    "pending (ci\<lparr>m_iter := it\<rparr>) ?xs"
    using Scan_ok [OF sc] by blast
  let ?h = "set_cell h 0 (ci\<lparr>m_iter := it\<rparr>)"
  have xs: "mset ?xs = image_mset snd (table_ents 0 h)"
    using table_ents_cell [OF ci(1)] by (simp add: index_ents_def image_mset.compositionality comp_def)
  have "length ?xs < fuel"
    using assms(2) arg_cong [OF xs, of size] by simp
  then obtain h2 where h2: "test_scan fuel ?h = Inr (Some (?xs, h2))"
    "cell h2 0 (ci\<lparr>m_iter := it, m_iter := Some (m_Size ci, None)\<rparr>)"
    using test_scan_ok [OF cell_set_cell [OF ci(1)] scan_inv_iter [OF sc] it(2)] by auto
  have "CHash_Scan h = Inr (HASH_SUCCESS, ?h)"
    using index_at_cell [OF ci(1)] wri_cell [OF ci(1)] it(1)
    by (simp add: CHash_Scan_def set_cell_def)
  then show ?thesis using h2 xs inv by (fastforce simp: index_inv_def)
qed

section \<open>Properties\<close>


definition demo_kvs :: "(byte list \<times> byte list) list" where
  "demo_kvs = [(replicate 32 7, [1]), (replicate 32 7, [2])]"


text \<open>
  The test program, run on persons with different keys (32 non-negative characters):
  every person is inserted, and the scan with \<open>Next\<close> ends and returns every inserted
  record exactly once.
\<close>

theorem test_hash_scans_all:
  assumes "\<forall>(k, v)\<in>set ps. ascii_key k \<and> length v = 76" "distinct (map fst ps)"
    and "length ps < fuel"
  shows "\<exists>xs. test_hash s ps fuel = Inr (Inr (Some xs)) \<and> mset xs = mset (map snd ps)"
proof -
  obtain h where h: "BuildIndex 0 32 76 HashFunc1 (CHash_new s) = Inr (HASH_SUCCESS, h)"
    "table_rep ascii_key 32 76 0 h Map.empty" "table_ents 0 h = {#}"
    using BuildIndex_fresh [OF _ _ HashFunc1_good, of 0 76 s] by (auto simp: INT_MAX_def)
  obtain h1 where h1: "insert_all (table_ins 0) ps h = Inr h1"
    "table_rep ascii_key 32 76 0 h1 (map_of ps ++ Map.empty)" "table_ents 0 h1 = mset ps"
    using table.insert_all_rep [OF h(2) assms(1)] assms(2) h(3) by auto
  have "test_insert ps h = Inr (True, h1)"
    using test_insert_ok [OF h(2) assms(1,2)] h1(1) by simp
  moreover obtain h2 h3 xs where "CHash_Scan h1 = Inr (HASH_SUCCESS, h2)"
    "test_scan fuel h2 = Inr (Some (xs, h3))" "mset xs = image_mset snd (table_ents 0 h1)"
    using table_scan_ok [OF h1(2), of fuel] h1(3) assms(3) by auto
  ultimately show ?thesis using h(1) h1(3) by (simp add: test_hash_def)
qed

theorem test_hash_scans_all_witness:
  "\<exists>xs. test_hash 2000 [(replicate 32 97, replicate 76 1), (replicate 32 98, replicate 76 2)] 3 =
      Inr (Inr (Some xs)) \<and> mset xs = {#replicate 76 1, replicate 76 2#}"
  using test_hash_scans_all
    [of "[(replicate 32 97, replicate 76 1), (replicate 32 98, replicate 76 2)]" 3 2000]
  by (simp add: ascii_key_def char_ok_def)

text \<open>
  A negative hash value makes \<open>Find\<close> and \<open>Insert\<close> index the bucket array with the
  negative remainder, outside the array; \<open>HashFunc1\<close> is negative for a name with characters
  above 127.
\<close>

theorem negative_hash_out_of_bounds:
  assumes "m_HashFunc ci k (m_keyLen ci) 0 = Inr c" "c < 0" "\<not> m_Size ci dvd c" "m_Size ci \<noteq> 0"
    and "0 \<le> m_keyLen ci" "nat (m_keyLen ci) \<le> length k"
    and "0 \<le> m_ValLen ci" "nat (m_ValLen ci) \<le> length v"
  shows "CIndex_Find ci k = Inl OutOfBounds \<and> CIndex_Insert ci k v = Inl OutOfBounds"
proof -
  have "\<bar>c\<bar> mod \<bar>m_Size ci\<bar> \<noteq> 0" using assms(3) by (metis abs_dvd_iff dvd_abs_iff mod_0_imp_dvd)
  moreover have "0 \<le> \<bar>c\<bar> mod \<bar>m_Size ci\<bar>" using assms(4) by simp
  ultimately have "crem c (m_Size ci) < 0"
    using assms(2) by (simp add: crem_def sgn_if)
  then show ?thesis
    using assms by (simp add: CIndex_Find_def CIndex_Insert_def hashVal_def vecKey_def
      copy_bytes_def)
qed

definition demo_index :: CIndex where
  "demo_index = \<lparr>m_Size = 7, m_Count = 0, m_keyLen = 32, m_ValLen = 1, m_HashFunc = HashFunc1,
     m_VecMap = replicate 7 [], m_iter = None\<rparr>"

theorem negative_hash_out_of_bounds_witness:
  "HashFunc1 (replicate 31 0 @ [255]) 32 0 = Inr (- 960) \<and>
   CIndex_Find demo_index (replicate 31 0 @ [255]) = Inl OutOfBounds \<and>
   CIndex_Insert demo_index (replicate 31 0 @ [255]) [1] = Inl OutOfBounds"
proof -
  have 1: "HashFunc1 (replicate 31 0 @ [255]) 32 0 = Inr (- 960)" by code_simp
  show ?thesis
    using 1 negative_hash_out_of_bounds [of demo_index "replicate 31 0 @ [255]" "- 960" "[1]"]
    by (simp add: demo_index_def)
qed

text \<open>
  A scan that has ended leaves the bucket number at the size of the index; one more
  \<open>Next\<close> increments it and reads a bucket behind the array.
\<close>

theorem next_after_end_out_of_bounds:
  assumes "table_rep good n vl 0 h m" "size (table_ents 0 h) < fuel"
  shows "\<exists>h1 h2 xs. CHash_Scan h = Inr (HASH_SUCCESS, h1) \<and>
    test_scan fuel h1 = Inr (Some (xs, h2)) \<and> CHash_Next h2 = Inl OutOfBounds"
proof -
  obtain h1 h2 ci xs where *: "CHash_Scan h = Inr (HASH_SUCCESS, h1)"
    "test_scan fuel h1 = Inr (Some (xs, h2))"
    "cell h2 0 ci" "int (length (m_VecMap ci)) = m_Size ci" "m_iter ci = Some (m_Size ci, None)"
    using table_scan_ok [OF assms] by auto
  have "rdi (m_VecMap ci) (m_Size ci + 1) = Inl OutOfBounds"
    unfolding *(4) [symmetric] by (simp add: rdi_def nat_add_distrib)
  then have "skip_empty (m_VecMap ci) (m_Size ci) (m_Size ci) None = Inl OutOfBounds"
    by (simp add: skip_empty.simps [of _ _ _ None])
  then have "CHash_Next h2 = Inl OutOfBounds"
    using *(5) index_at_cell [OF *(3)] by (simp add: CHash_Next_def CIndex_Next_def)
  then show ?thesis using *(1,2) by blast
qed

theorem next_after_end_out_of_bounds_witness:
  "\<exists>h h1 h2 xs. BuildIndex 0 32 1 HashFunc1 (CHash_new 0) = Inr (HASH_SUCCESS, h) \<and>
    CHash_Scan h = Inr (HASH_SUCCESS, h1) \<and>
    test_scan 1 h1 = Inr (Some (xs, h2)) \<and> CHash_Next h2 = Inl OutOfBounds"
proof -
  obtain h where h: "BuildIndex 0 (int 32) (int 1) HashFunc1 (CHash_new 0) = Inr (HASH_SUCCESS, h)"
    "table_rep ascii_key 32 1 0 h Map.empty" "table_ents 0 h = {#}"
    using BuildIndex_fresh [OF _ _ HashFunc1_good, of 0 1 0] by (auto simp: INT_MAX_def)
  then show ?thesis using next_after_end_out_of_bounds [OF h(2), of 1] by auto
qed

text \<open>
  The last byte of a \<open>TPersonKey\<close> is never written, yet it is hashed and compared: with
  two different leftovers in that byte, a key of the same person is not found again.
\<close>

theorem key_padding_matters:
  assumes "table_rep ascii_key 32 76 0 h Map.empty" "j \<noteq> j'"
    and "ascii_key (TPersonKey j p)" "ascii_key (TPersonKey j' p)" "length (person_bytes p) = 76"
  shows "\<exists>h'. table_ins 0 (TPersonKey j p) (person_bytes p) h = Inr h' \<and>
    table_look 0 (TPersonKey j p) h' = Inr (Some (person_bytes p)) \<and>
    table_look 0 (TPersonKey j' p) h' = Inr None"
proof -
  obtain h' where "table_ins 0 (TPersonKey j p) (person_bytes p) h = Inr h'"
    "table_rep ascii_key 32 76 0 h' [TPersonKey j p \<mapsto> person_bytes p]"
    using table.ins_new [OF assms(1,3,5)] by auto
  then show ?thesis
    using table.look_ok assms(2-4) by (fastforce simp: TPersonKey_def)
qed

definition demo_person :: TPerson where
  "demo_person = \<lparr>p_id = 1, p_name = replicate 31 97 @ [0], p_addr = replicate 32 0,
     p_salary = replicate 8 0\<rparr>"

theorem key_padding_matters_witness:
  "\<exists>h h'. BuildIndex 0 32 76 HashFunc1 (CHash_new 0) = Inr (HASH_SUCCESS, h) \<and>
    table_ins 0 (TPersonKey 0 demo_person) (person_bytes demo_person) h = Inr h' \<and>
    table_look 0 (TPersonKey 5 demo_person) h' = Inr None"
proof -
  obtain h where h: "BuildIndex 0 (int 32) (int 76) HashFunc1 (CHash_new 0) = Inr (HASH_SUCCESS, h)"
    "table_rep ascii_key 32 76 0 h Map.empty"
    using BuildIndex_fresh [OF _ _ HashFunc1_good, of 0 76 0] by (auto simp: INT_MAX_def)
  have "TPersonKey j demo_person = replicate 31 97 @ [j]" for j
    by (simp add: TPersonKey_def demo_person_def numeral_eq_Suc)
  then have "ascii_key (TPersonKey 0 demo_person)" "ascii_key (TPersonKey 5 demo_person)"
    by (simp_all add: ascii_key_def char_ok_def)
  then show ?thesis
    using key_padding_matters [OF h(2), of 0 5 demo_person] h(1)
    by (auto simp: person_bytes_def demo_person_def)
qed

section \<open>The whole test program\<close>

text \<open>
  The arrays of \<open>test_hash\<close>: the \<open>i\<close>-th person gets the number \<open>10000000 + i\<close> and the \<open>i\<close>-th random
  name, and its key has in its last byte what was in memory (\<open>junk\<close>).
\<close>

fun persons :: "(nat \<Rightarrow> nat \<Rightarrow> int) \<Rightarrow> (nat \<Rightarrow> byte) \<Rightarrow> nat \<Rightarrow> nat \<Rightarrow> (byte list \<times> byte list) list res" where
  "persons rand junk i 0 = Inr []"
| "persons rand junk i (Suc n) =
     bindE (ck (10000000 + int i)) (\<lambda>num.
     bindE (TPerson_new rand (i + 1) num) (\<lambda>p.
     bindE (persons rand junk (i + 1) n) (\<lambda>ps.
       Inr ((TPersonKey (junk i) p, person_bytes p) # ps))))"

definition PERSONS :: nat where "PERSONS = 1000 * 100"

definition hash_main :: "(nat \<Rightarrow> nat \<Rightarrow> int) \<Rightarrow> (nat \<Rightarrow> byte) \<Rightarrow> nat \<Rightarrow> (unit + byte list list option) res" where
  "hash_main rand junk fuel = bindE (persons rand junk 0 PERSONS) (\<lambda>ps. test_hash PERSONS ps fuel)"

definition rand_name :: "(nat \<Rightarrow> nat \<Rightarrow> int) \<Rightarrow> nat \<Rightarrow> byte list" where
  "rand_name rand seed = map (\<lambda>j. word_of_int (crem (rand seed j) 26 + 97)) [0..<31]"

lemma length_rand_name [simp]: "length (rand_name rand seed) = 31"
  by (simp add: rand_name_def)

lemma rand_name_chars:
  assumes "\<forall>s j. 0 \<le> rand s j" "b \<in> set (rand_name rand seed)"
  shows "char_ok b \<and> b \<noteq> 0"
proof -
  obtain j where b: "b = word_of_int (crem (rand seed j) 26 + 97)" using assms(2) by (auto simp: rand_name_def)
  let ?x = "crem (rand seed j) 26 + 97"
  have x: "97 \<le> ?x" "?x \<le> 122" using crem_bounds [of "rand seed j" 26] assms(1) by auto
  have "sint (word_of_int y :: byte) = y" if "97 \<le> y" "y \<le> 122" for y
    using that by (simp add: signed_of_int signed_take_bit_int_eq_self)
  from this [OF x] have "sint (word_of_int ?x :: byte) = ?x" .
  then show ?thesis using x b by (auto simp: char_ok_def)
qed

lemma strncpy_bytes_all: "0 \<notin> set s \<Longrightarrow> length s = n \<Longrightarrow> strncpy_bytes (s @ t) n = s"
  by (induction s n rule: strncpy_bytes.induct) auto

text \<open>A person and its key.\<close>

definition person_pair :: "(nat \<Rightarrow> nat \<Rightarrow> int) \<Rightarrow> (nat \<Rightarrow> byte) \<Rightarrow> nat \<Rightarrow> byte list \<times> byte list" where
  "person_pair rand junk i =
     (rand_name rand (i + 1) @ [junk i],
      put_i32 (10000000 + int i) @ (rand_name rand (i + 1) @ [0]) @ (rand_name rand (i + 1) @ [0]) @ [0, 0, 0, 0, 0, 64, 143, 64])"

lemma persons_eq:
  assumes "\<forall>s j. 0 \<le> rand s j" "i + n \<le> PERSONS"
  shows "persons rand junk i n = Inr (map (person_pair rand junk) [i..<i + n])"
  using assms(2)
proof (induction n arbitrary: i)
  case (Suc n)
  have "strncpy_bytes (rand_name rand (i + 1) @ [0]) 31 = rand_name rand (i + 1)"
    using rand_name_chars [OF assms(1)] by (intro strncpy_bytes_all) auto
  then have "(TPersonKey (junk i) p, person_bytes p) = person_pair rand junk i"
    if "p = \<lparr>p_id = 10000000 + int i, p_name = rand_name rand (i + 1) @ [0], p_addr = rand_name rand (i + 1) @ [0],
      p_salary = [0, 0, 0, 0, 0, 64, 143, 64]\<rparr>" for p
    using that by (simp add: TPersonKey_def person_bytes_def person_pair_def)
  moreover have "TPerson_new rand (i + 1) (10000000 + int i) = Inr \<lparr>p_id = 10000000 + int i, p_name = rand_name rand (i + 1) @ [0],
      p_addr = rand_name rand (i + 1) @ [0], p_salary = [0, 0, 0, 0, 0, 64, 143, 64]\<rparr>"
    by (simp add: TPerson_new_def getRandStr_def rand_name_def)
  moreover have "ck (10000000 + int i) = Inr (10000000 + int i)"
    using Suc.prems by (simp add: is_i32_def INT_MIN_def INT_MAX_def PERSONS_def)
  moreover have "[i..<i + Suc n] = i # [i + 1..<i + 1 + n]" by (simp add: upt_rec)
  ultimately show ?case using Suc.IH [of "i + 1"] Suc.prems by simp
qed simp

lemma person_pair_ok:
  assumes "\<forall>s j. 0 \<le> rand s j" "\<forall>i. char_ok (junk i)"
  shows "ascii_key (fst (person_pair rand junk i)) \<and> length (snd (person_pair rand junk i)) = 76"
proof -
  have "\<forall>b\<in>set (rand_name rand (i + 1) @ [junk i]). char_ok b"
    using rand_name_chars [OF assms(1)] assms(2) by simp
  then show ?thesis by (simp add: person_pair_def ascii_key_def)
qed

text \<open>
  The whole test program. When the random names are pairwise different and the bytes left in the keys are
  not negative, all 100000 persons are inserted and the scan returns every one of them exactly once.
\<close>

theorem hash_main_scans_all:
  assumes "\<forall>s j. 0 \<le> rand s j" "inj_on (rand_name rand) {1..PERSONS}" "\<forall>i. char_ok (junk i)" "PERSONS < fuel"
  shows "\<exists>xs. hash_main rand junk fuel = Inr (Inr (Some xs)) \<and>
    mset xs = mset (map (\<lambda>i. snd (person_pair rand junk i)) [0..<PERSONS])"
proof -
  let ?ps = "map (person_pair rand junk) [0..<PERSONS]"
  have "persons rand junk 0 PERSONS = Inr ?ps" using persons_eq [OF assms(1), of 0 PERSONS junk] by simp
  moreover have "\<exists>xs. test_hash PERSONS ?ps fuel = Inr (Inr (Some xs)) \<and> mset xs = mset (map snd ?ps)"
  proof (rule test_hash_scans_all)
    show "\<forall>(k, v)\<in>set ?ps. ascii_key k \<and> length v = 76"
      using person_pair_ok [OF assms(1,3)] by (simp add: case_prod_beta)
    have "inj_on (\<lambda>i. rand_name rand (i + 1) @ [junk i]) {0..<PERSONS}"
    proof (rule inj_onI)
      fix x y assume "x \<in> {0..<PERSONS}" "y \<in> {0..<PERSONS}" "rand_name rand (x + 1) @ [junk x] = rand_name rand (y + 1) @ [junk y]"
      then have "x + 1 = y + 1" by (intro inj_onD [OF assms(2)]) simp_all
      then show "x = y" by simp
    qed
    then show "distinct (map fst ?ps)" by (simp add: distinct_map comp_def person_pair_def)
    show "length ?ps < fuel" using assms(4) by simp
  qed
  ultimately show ?thesis by (simp add: hash_main_def comp_def)
qed

text \<open>A generator whose names are the numbers in base 26.\<close>

definition base26 :: "nat \<Rightarrow> nat \<Rightarrow> int" where "base26 seed j = int (seed div 26 ^ j)"

lemma digits_determine: "\<forall>j<n. x div 26 ^ j mod 26 = y div 26 ^ j mod (26 :: nat) \<Longrightarrow> x mod 26 ^ n = y mod 26 ^ n"
proof (induction n)
  case (Suc n)
  then have "x mod 26 ^ n = y mod 26 ^ n" "x div 26 ^ n mod 26 = y div 26 ^ n mod 26" by simp_all
  then show ?case by (simp only: power_Suc2 mod_mult2_eq)
qed simp

lemma letter_inj:
  assumes "x < 26" "y < 26" "(word_of_int (int x + 97) :: byte) = word_of_int (int y + 97)"
  shows "x = y"
proof -
  have "uint (word_of_int k :: byte) = k mod 256" for k by (simp add: uint_word_of_int)
  then have "(int x + 97) mod 256 = (int y + 97) mod 256" using arg_cong [OF assms(3), of uint] by metis
  then show ?thesis using assms(1,2) by simp
qed

lemma base26_inj: "inj_on (rand_name base26) {1..PERSONS}"
proof (rule inj_onI)
  fix x y assume xy: "x \<in> {1..PERSONS}" "y \<in> {1..PERSONS}" and names: "rand_name base26 x = rand_name base26 y"
  have "x div 26 ^ j mod 26 = y div 26 ^ j mod 26" if "j < 31" for j
  proof -
    have "rand_name base26 x ! j = rand_name base26 y ! j" by (simp only: names)
    then have "(word_of_int (int (x div 26 ^ j mod 26) + 97) :: byte) = word_of_int (int (y div 26 ^ j mod 26) + 97)"
      using that by (simp only: rand_name_def nth_map_upt base26_def crem_nonneg zmod_int) (simp add: zmod_int)
    then show ?thesis by (intro letter_inj) simp_all
  qed
  then have "x mod 26 ^ 31 = y mod 26 ^ 31" by (intro digits_determine) simp
  moreover have "PERSONS < 26 ^ 31" by (simp add: PERSONS_def)
  ultimately show "x = y" using xy by simp
qed

lemma hash_main_scans_all_witness:
  "\<exists>xs. hash_main base26 (\<lambda>i. 0) (PERSONS + 1) = Inr (Inr (Some xs)) \<and> length xs = PERSONS"
proof -
  obtain xs where "hash_main base26 (\<lambda>i. 0) (PERSONS + 1) = Inr (Inr (Some xs))"
      "mset xs = mset (map (\<lambda>i. snd (person_pair base26 (\<lambda>i. 0) i)) [0..<PERSONS])"
    using hash_main_scans_all [OF _ base26_inj, of "\<lambda>i. 0" "PERSONS + 1"] by (auto simp: base26_def char_ok_def)
  then show ?thesis using mset_eq_length by fastforce
qed

end
