(* ===== verification/HeartBeat.thy ===== *)
theory HeartBeat
  imports Posix
begin

text \<open>
  The monitor \<^verbatim>\<open>src/teleHeartBeat/HeartBeat.{h,cpp}\<close>: a server that answers probes on two
  addresses, and a client that probes both and, after more than \<open>RetryTimes\<close> failures in a
  row, brings up the interfaces of this host and starts the service (it takes over), until a
  probe succeeds again.
\<close>

section \<open>Helpers of the header\<close>

text \<open>\<open>Trim\<close>: the loop remembers in \<open>pszEnd\<close> where the current run of blanks began.\<close>

definition blank :: "char \<Rightarrow> bool" where
  "blank c \<longleftrightarrow> c = CHR '' '' \<or> c = CHR 0x09"

fun trim_end :: "string \<Rightarrow> nat \<Rightarrow> nat option \<Rightarrow> nat" where
  "trim_end [] p e = (case e of None \<Rightarrow> p | Some q \<Rightarrow> q)"
| "trim_end (c # s) p e =
     (if blank c then trim_end s (p + 1) (if e = None then Some p else e)
      else trim_end s (p + 1) None)"

definition Trim :: "string option \<Rightarrow> string option" where
  "Trim psz = (case psz of
     None \<Rightarrow> None
   | Some s \<Rightarrow> let b = dropWhile blank s in Some (take (trim_end b 0 None) b))"

text \<open>\<open>GetCurTime\<close>: the fields of \<open>struct tm\<close>, printed into an array of 15 characters.\<close>

definition GetCurTime :: "tm \<Rightarrow> string res" where
  "GetCurTime x =
     (let s = pad0 4 (tm_year x + 1900) @ pad0 2 (tm_mon x + 1) @ pad0 2 (tm_mday x) @
              pad0 2 (tm_hour x) @ pad0 2 (tm_min x) @ pad0 2 (tm_sec x)
      in if length s < 15 then Inr s else Inl OutOfBounds)"

section \<open>Sockets\<close>

record HeartBeat =
  m_iSocketId :: int
  m_iOldSocketId :: int

definition HeartBeat_new :: HeartBeat where
  "HeartBeat_new = \<lparr>m_iSocketId = - 1, m_iOldSocketId = - 1\<rparr>"

definition hb_Listen :: "env \<Rightarrow> string \<Rightarrow> int \<Rightarrow> int \<Rightarrow> HeartBeat \<Rightarrow> (int \<times> HeartBeat) io" where
  "hb_Listen env ip port n h = do {
     fd \<leftarrow> call_ret env Socket;
     if fd < 0 then return (- 1, h)
     else do {
       b \<leftarrow> call_ret env (Bind fd ip port);
       if b < 0 then return (- 1, h)
       else do {
         l \<leftarrow> call_ret env (Listen fd n);
         if l < 0 then return (- 1, h)
         else return (fd, h\<lparr>m_iOldSocketId := fd\<rparr>)
       }
     }
   }"

definition hb_Accept :: "env \<Rightarrow> HeartBeat \<Rightarrow> (int \<times> HeartBeat) io" where
  "hb_Accept env h = do {
     fd \<leftarrow> call_ret env (Accept (m_iOldSocketId h));
     if fd < 0 then return (- 1, h) else return (fd, h\<lparr>m_iSocketId := fd\<rparr>)
   }"

definition hb_Connect :: "env \<Rightarrow> string \<Rightarrow> int \<Rightarrow> HeartBeat \<Rightarrow> (int \<times> HeartBeat) io" where
  "hb_Connect env ip port h = do {
     fd \<leftarrow> call_ret env Socket;
     if fd < 0 then return (- 1, h)
     else do {
       r \<leftarrow> call_ret env (Connect fd ip port);
       if r \<noteq> 0 then return (- 1, h) else return (fd, h\<lparr>m_iSocketId := fd\<rparr>)
     }
   }"

definition hb_Write :: "env \<Rightarrow> HeartBeat \<Rightarrow> string \<Rightarrow> int io" where
  "hb_Write env h s =
     (if m_iSocketId h \<le> 0 then return (- 1) else call_ret env (Write (m_iSocketId h) s))"

definition hb_Read :: "env \<Rightarrow> HeartBeat \<Rightarrow> nat \<Rightarrow> (int \<times> string) io" where
  "hb_Read env h n =
     (if m_iSocketId h \<le> 0 then return (- 1, [])
      else do { r \<leftarrow> sys env (Read (m_iSocketId h) n); return (ret r, data r) })"

section \<open>The configuration\<close>

record ConnectInfo =
  ServerIp :: string
  ServerPort :: int

record ConfigInfo =
  CSFlag :: int
  iEthernetNumber :: nat
  sEthernet :: "string list"
  Server :: "ConnectInfo \<times> ConnectInfo"
  SleepSec :: int
  RetryTimes :: int
  bWapLog :: int
  bWriteType :: int
  nLogType :: int
  nMaxLogSize :: int
  nMaxLogIndex :: int
  szLogFile :: string
  nLogLevel :: int
  stop :: int
  msgType :: int
  iSignal :: int
  sServerDir :: string
  sProcessName :: string

text \<open>The constructor clears every field.\<close>

definition ConfigInfo_new :: ConfigInfo where
  "ConfigInfo_new = \<lparr>CSFlag = 0, iEthernetNumber = 0, sEthernet = replicate 16 [],
     Server = (\<lparr>ServerIp = [], ServerPort = 0\<rparr>, \<lparr>ServerIp = [], ServerPort = 0\<rparr>),
     SleepSec = 0, RetryTimes = 0, bWapLog = 0, bWriteType = 0, nLogType = 0, nMaxLogSize = 0,
     nMaxLogIndex = 0, szLogFile = [], nLogLevel = 0, stop = 0, msgType = 0, iSignal = 0,
     sServerDir = [], sProcessName = []\<rparr>"

text \<open>
  The configuration library (\<open>pasCConfig\<close>) and the server path are parameters: for a file,
  a key and the old value, the new value.
\<close>

record cfg_lib =
  cfgGetInt :: "string \<Rightarrow> string \<Rightarrow> int \<Rightarrow> int"
  cfgGetString :: "string \<Rightarrow> string \<Rightarrow> string \<Rightarrow> string"
  cfgGetArray :: "string \<Rightarrow> string \<Rightarrow> string list \<Rightarrow> nat \<times> string list"
  getServerPath :: string
  getpid :: int

definition getConfigInfo :: "cfg_lib \<Rightarrow> ConfigInfo \<Rightarrow> int \<times> ConfigInfo" where
  "getConfigInfo lib c0 =
     (let name = ''HeartBeat''; dir = getServerPath lib;
          file = dir @ ''/conf/'' @ name @ ''.conf'';
          num = cfgGetInt lib file; str = cfgGetString lib file;
          (s1, s2) = Server c0;
          (n, eth) = cfgGetArray lib file ''Ethernet'' (sEthernet c0)
      in (0, c0\<lparr>sProcessName := name, sServerDir := dir, nLogType := - 1,
           nLogLevel := num ''LogLevel'' (nLogLevel c0), bWapLog := num ''bLog'' (bWapLog c0),
           nMaxLogSize := num ''LogFileLen'' (nMaxLogSize c0),
           nMaxLogIndex := num ''LogIndex'' (nMaxLogIndex c0),
           bWriteType := num ''LogWType'' (bWriteType c0),
           szLogFile := str ''LogDir'' (szLogFile c0), stop := 0, msgType := getpid lib,
           CSFlag := num ''CSFlag'' (CSFlag c0), SleepSec := num ''SleepSec'' (SleepSec c0),
           RetryTimes := num ''RetryTimes'' (RetryTimes c0),
           Server := (\<lparr>ServerIp = str ''ServerIp1'' (ServerIp s1),
                       ServerPort = num ''ServerPort1'' (ServerPort s1)\<rparr>,
                      \<lparr>ServerIp = str ''ServerIp2'' (ServerIp s2),
                       ServerPort = num ''ServerPort2'' (ServerPort s2)\<rparr>),
           iEthernetNumber := n, sEthernet := eth\<rparr>))"

section \<open>The server\<close>

definition BUFF_SIZE :: nat where "BUFF_SIZE = 1024"

text \<open>
  One ready address: accept, read the probe, answer, close. Every failure goes on with the
  next address without closing the accepted socket.
\<close>

definition serve_one :: "env \<Rightarrow> HeartBeat \<Rightarrow> HeartBeat io" where
  "serve_one env dog = do {
     (fd, dog1) \<leftarrow> hb_Accept env dog;
     if fd \<le> 0 then return dog1
     else do {
       (n, msg) \<leftarrow> hb_Read env dog1 (BUFF_SIZE - 1);
       if n \<le> 0 then return dog1
       else do {
         w \<leftarrow> hb_Write env dog1 ''I AM OK !'';
         if w \<le> 0 then return dog1
         else do { _ \<leftarrow> sys env (Close fd); return dog1 }
       }
     }
   }"

definition serve_if :: "env \<Rightarrow> (int \<times> nat) list \<Rightarrow> int \<Rightarrow> HeartBeat \<Rightarrow> HeartBeat io" where
  "serve_if env ready fd dog =
     (if fd \<in> fst ` set ready then serve_one env dog else return dog)"

fun server_loop :: "env \<Rightarrow> nat \<Rightarrow> int \<Rightarrow> int \<Rightarrow> HeartBeat \<Rightarrow> HeartBeat \<Rightarrow> int option io" where
  "server_loop env 0 fd0 fd1 d0 d1 = return None"
| "server_loop env (Suc k) fd0 fd1 d0 d1 = do {
     r \<leftarrow> sys env (Select [fd0, fd1]);
     d0' \<leftarrow> serve_if env (evs r) fd0 d0;
     d1' \<leftarrow> serve_if env (evs r) fd1 d1;
     server_loop env k fd0 fd1 d0' d1'
   }"

definition ExecServer :: "env \<Rightarrow> ConfigInfo \<Rightarrow> nat \<Rightarrow> int option io" where
  "ExecServer env conf k = do {
     (fd0, d0) \<leftarrow> hb_Listen env (ServerIp (fst (Server conf))) (ServerPort (fst (Server conf))) 5
                   HeartBeat_new;
     if fd0 \<le> 0 then return (Some (- 1))
     else do {
       (fd1, d1) \<leftarrow> hb_Listen env (ServerIp (snd (Server conf))) (ServerPort (snd (Server conf))) 5
                     HeartBeat_new;
       if fd1 \<le> 0 then return (Some (- 1))
       else server_loop env k fd0 fd1 d0 d1
     }
   }"

definition RunAsServer :: "env \<Rightarrow> ConfigInfo \<Rightarrow> nat \<Rightarrow> int option io" where
  "RunAsServer env conf k = do {
     r \<leftarrow> ExecServer env conf k;
     return (case r of None \<Rightarrow> None | Some i \<Rightarrow> Some (if i \<noteq> 0 then - 1 else 0))
   }"

section \<open>The client\<close>

definition ExecClient :: "env \<Rightarrow> ConnectInfo \<Rightarrow> int io" where
  "ExecClient env ci = do {
     (fd, dog) \<leftarrow> hb_Connect env (ServerIp ci) (ServerPort ci) HeartBeat_new;
     if fd \<le> 0 then return (- 1)
     else do {
       w \<leftarrow> hb_Write env dog ''ARE YOU OK ?'';
       if w \<le> 0 then return (- 1)
       else do {
         (n, msg) \<leftarrow> hb_Read env dog (BUFF_SIZE - 1);
         if n \<le> 0 then return (- 1)
         else do { _ \<leftarrow> sys env (Close fd); return 0 }
       }
     }
   }"

datatype main_flag = MAIN_FLAG | BACKUP_FLAG

text \<open>
  The inner loop: probe both servers; one success ends it, a failure is counted, and the loop
  goes on (after a sleep) until the count exceeds \<open>RetryTimes\<close>. The result is the count and
  \<open>iErrorFlag\<close>. The count is not reset when the loop ends with an error.
\<close>

function retry_loop :: "env \<Rightarrow> ConfigInfo \<Rightarrow> int \<Rightarrow> (int \<times> bool) io" where
  "retry_loop env conf iRetryTimes = do {
     r1 \<leftarrow> ExecClient env (fst (Server conf));
     r2 \<leftarrow> ExecClient env (snd (Server conf));
     if r1 = 0 \<or> r2 = 0 then return (0, False)
     else if iRetryTimes + 1 > RetryTimes conf then return (iRetryTimes + 1, True)
     else do { _ \<leftarrow> sys env (Sleep (SleepSec conf)); retry_loop env conf (iRetryTimes + 1) }
   }"
  by pat_completeness auto
termination
  by (relation "measure (\<lambda>(env, conf, i). nat (RetryTimes conf - i))") auto

declare retry_loop.simps [simp del]

fun run_commands :: "env \<Rightarrow> string list \<Rightarrow> unit io" where
  "run_commands env [] = return ()"
| "run_commands env (c # cs) = do { _ \<leftarrow> sys env (System c); run_commands env cs }"

definition ps_command :: string where
  "ps_command = '' ps -ef | grep  teleManager | grep start | grep -v grep |wc -l ''"

definition up_command :: "string \<Rightarrow> string" where
  "up_command e = ''ifconfig '' @ e @ '' up''"

definition down_command :: "string \<Rightarrow> string" where
  "down_command e = ''ifconfig '' @ e @ '' down''"

definition ethernets :: "ConfigInfo \<Rightarrow> string list" where
  "ethernets conf = take (iEthernetNumber conf) (sEthernet conf)"

text \<open>
  Taking over: the interfaces come up, the number of running managers is asked from
  \<open>ps\<close>, and the manager is started when there is none. The result tells whether the flag
  changes; it does not when \<open>popen\<close> or \<open>fgets\<close> fails, and then the iteration ends at once.
\<close>

definition take_over :: "env \<Rightarrow> ConfigInfo \<Rightarrow> bool io" where
  "take_over env conf = do {
     _ \<leftarrow> run_commands env (map up_command (ethernets conf));
     fp \<leftarrow> sys env (Popen ps_command);
     if ret fp = 0 then return False
     else do {
       l \<leftarrow> sys env (Fgets (BUFF_SIZE - 1));
       if ret l = 0 then return False
       else do {
         _ \<leftarrow> sys env Pclose;
         let pidCnt = to_i32 (int_value (data l));
         _ \<leftarrow> (if pidCnt = 0
               then run_commands env [''cd '' @ sServerDir conf @ '' ; ./teleManager start'']
               else return ());
         return True
       }
     }
   }"

definition give_back :: "env \<Rightarrow> ConfigInfo \<Rightarrow> unit io" where
  "give_back env conf = do {
     _ \<leftarrow> run_commands env (map down_command (ethernets conf));
     run_commands env [''cd '' @ sServerDir conf @ '' ; ./teleManager quick'']
   }"

text \<open>One iteration of the outer loop on the count of failures and the flag.\<close>

definition client_iter :: "env \<Rightarrow> ConfigInfo \<Rightarrow> int \<times> main_flag \<Rightarrow> (int \<times> main_flag) io" where
  "client_iter env conf = (\<lambda>(iRetryTimes, iMainFlag). do {
     (n, err) \<leftarrow> retry_loop env conf iRetryTimes;
     if err \<and> iMainFlag = MAIN_FLAG then do {
       ok \<leftarrow> take_over env conf;
       if ok then do { _ \<leftarrow> sys env (Sleep (SleepSec conf)); return (n, BACKUP_FLAG) }
       else return (n, MAIN_FLAG)
     }
     else if \<not> err \<and> iMainFlag = BACKUP_FLAG then do {
       _ \<leftarrow> give_back env conf;
       _ \<leftarrow> sys env (Sleep (SleepSec conf));
       return (n, MAIN_FLAG)
     }
     else do { _ \<leftarrow> sys env (Sleep (SleepSec conf)); return (n, iMainFlag) }
   })"

fun client_loop :: "env \<Rightarrow> ConfigInfo \<Rightarrow> nat \<Rightarrow> int \<times> main_flag \<Rightarrow> (int \<times> main_flag) io" where
  "client_loop env conf 0 s = return s"
| "client_loop env conf (Suc k) s = do { s' \<leftarrow> client_iter env conf s; client_loop env conf k s' }"

text \<open>\<open>RunAsClient\<close> never returns; this is its state after \<open>k\<close> iterations.\<close>

definition RunAsClient :: "env \<Rightarrow> ConfigInfo \<Rightarrow> nat \<Rightarrow> (int \<times> main_flag) io" where
  "RunAsClient env conf k = client_loop env conf k (0, MAIN_FLAG)"

section \<open>Signals and main\<close>

definition iSignal_handler :: "int \<Rightarrow> ConfigInfo \<Rightarrow> ConfigInfo" where
  "iSignal_handler sig conf =
     (if sig = 2 then conf\<lparr>iSignal := 2\<rparr>
      else if sig = 3 then conf\<lparr>iSignal := 3\<rparr>
      else if sig = 15 then conf\<lparr>iSignal := 15\<rparr>
      else if sig = 20 then conf\<lparr>iSignal := 20\<rparr>
      else if sig = 13 then conf\<lparr>iSignal := 13\<rparr>
      else conf)"

text \<open>\<open>main\<close>: the exit status, \<open>None\<close> while it is running.\<close>

definition hb_main :: "env \<Rightarrow> cfg_lib \<Rightarrow> nat \<Rightarrow> int option io" where
  "hb_main env lib k =
     (let (r, conf) = getConfigInfo lib ConfigInfo_new in
      if r \<noteq> 0 then return (Some (- 1))
      else if CSFlag conf = 0
      then do { s \<leftarrow> RunAsServer env conf k;
                return (case s of None \<Rightarrow> None | Some i \<Rightarrow> Some (if i \<noteq> 0 then - 1 else 0)) }
      else do { _ \<leftarrow> RunAsClient env conf k; return None })"

section \<open>Trimming\<close>

lemma trim_end_spec:
  "trim_end s p e = (let q = length (dropWhile blank (rev s)) in
     if q = 0 then (case e of None \<Rightarrow> p | Some r \<Rightarrow> r) else p + q)"
proof (induction s arbitrary: p e)
  case (Cons c s)
  let ?d = "dropWhile blank (rev s)"
  have d: "dropWhile blank (rev s @ [c]) = (if ?d = [] then dropWhile blank [c] else ?d @ [c])"
    by (auto simp: dropWhile_append dropWhile_eq_Nil_conv)
  show ?case
    by (cases "blank c"; cases "?d = []"; cases e) (simp_all add: Cons.IH d Let_def del: dropWhile_eq_Nil_conv)
qed (simp split: option.split)

lemma Trim_eq: "Trim (Some s) = Some (rev (dropWhile blank (rev (dropWhile blank s))))"
proof -
  let ?b = "dropWhile blank s"
  let ?q = "length (dropWhile blank (rev ?b))"
  have "rev (dropWhile blank (rev ?b)) = take ?q ?b"
    by (metis dropWhile_eq_drop rev_drop rev_rev_ident length_drop length_rev diff_diff_cancel
      length_takeWhile_le)
  moreover have "trim_end ?b 0 None = ?q"
    by (simp add: trim_end_spec Let_def)
  ultimately show ?thesis by (simp add: Trim_def Let_def)
qed

section \<open>Probing\<close>

lemmas io_simps = hb_Listen_def hb_Accept_def hb_Connect_def hb_Write_def hb_Read_def

text \<open>The conversation of one probe, up to where it breaks off.\<close>

lemma ExecClient_eq:
  "run_state (ExecClient env ci) t =
    (let s = env t Socket; t1 = (Socket, s) # t; fd = ret s;
         c = Connect fd (ServerIp ci) (ServerPort ci); t2 = (c, env t1 c) # t1;
         w = Write fd ''ARE YOU OK ?''; t3 = (w, env t2 w) # t2;
         d = Read fd (BUFF_SIZE - 1); t4 = (d, env t3 d) # t3
     in if fd < 0 then (- 1, t1)
        else if ret (env t1 c) \<noteq> 0 \<or> fd \<le> 0 then (- 1, t2)
        else if ret (env t2 w) \<le> 0 then (- 1, t3)
        else if ret (env t3 d) \<le> 0 then (- 1, t4)
        else (0, (Close fd, env t4 (Close fd)) # t4))"
  by (simp add: ExecClient_def io_simps HeartBeat_new_def Let_def)

lemma ExecClient_run:
  obtains s t1 c w d k where "s = env t Socket"
    "c = env t1 (Connect (ret s) (ServerIp ci) (ServerPort ci))"
    "run_state (ExecClient env ci) t =
      (let fd = ret s;
           t2 = (Connect fd (ServerIp ci) (ServerPort ci), c) # (Socket, s) # t;
           t3 = (Write fd ''ARE YOU OK ?'', w) # t2; t4 = (Read fd (BUFF_SIZE - 1), d) # t3
       in if fd < 0 then (- 1, (Socket, s) # t)
          else if ret c \<noteq> 0 \<or> fd \<le> 0 then (- 1, t2)
          else if ret w \<le> 0 then (- 1, t3)
          else if ret d \<le> 0 then (- 1, t4)
          else (0, (Close fd, k) # t4))"
  by (rule that [OF refl refl], unfold ExecClient_eq Let_def, rule refl)

lemma ExecClient_cases:
  assumes "run_state (ExecClient env ci) t = (r, t')"
  shows "r = 0 \<or> r = - 1"
    and "open_fds t' = (if r = 0 \<or> ret (env t Socket) < 0 then open_fds t
           else add_mset (ret (env t Socket)) (open_fds t))"
    and "commands t' = commands t" and "sleeps t' = sleeps t"
    and "r = 0 \<Longrightarrow> writes t' = writes t @ [(ret (env t Socket), ''ARE YOU OK ?'')]"
proof -
  obtain s t1 c w d k where "s = env t Socket" and run: "run_state (ExecClient env ci) t =
      (let fd = ret s;
           t2 = (Connect fd (ServerIp ci) (ServerPort ci), c) # (Socket, s) # t;
           t3 = (Write fd ''ARE YOU OK ?'', w) # t2; t4 = (Read fd (BUFF_SIZE - 1), d) # t3
       in if fd < 0 then (- 1, (Socket, s) # t)
          else if ret c \<noteq> 0 \<or> fd \<le> 0 then (- 1, t2)
          else if ret w \<le> 0 then (- 1, t3)
          else if ret d \<le> 0 then (- 1, t4)
          else (0, (Close fd, k) # t4))"
    by (rule ExecClient_run)
  then show "r = 0 \<or> r = - 1"
    and "open_fds t' = (if r = 0 \<or> ret (env t Socket) < 0 then open_fds t
           else add_mset (ret (env t Socket)) (open_fds t))"
    and "commands t' = commands t" and "sleeps t' = sleeps t"
    and "r = 0 \<Longrightarrow> writes t' = writes t @ [(ret (env t Socket), ''ARE YOU OK ?'')]"
    using assms by (auto simp: Let_def split: if_splits)
qed

text \<open>No server can be reached; every probe is answered.\<close>

definition unreachable :: "env \<Rightarrow> bool" where
  "unreachable env \<longleftrightarrow> (\<forall>t fd ip port. ret (env t (Connect fd ip port)) \<noteq> 0)"

lemma ExecClient_unreachable:
  "unreachable env \<Longrightarrow> run_state (ExecClient env ci) t = (r, t') \<Longrightarrow> r = - 1"
  by (rule ExecClient_run [where env = env and ci = ci and t = t]) (auto simp: Let_def unreachable_def split: if_splits)

lemma retry_loop_frame:
  "run_state (retry_loop env conf i) t = (r, t') \<Longrightarrow> commands t' = commands t \<and>
     (case r of (n, err) \<Rightarrow> if err then i < n \<and> RetryTimes conf < n else n = 0)"
proof (induction env conf i arbitrary: t r t' rule: retry_loop.induct)
  case (1 env conf i)
  obtain r1 t1 where r1: "run_state (ExecClient env (fst (Server conf))) t = (r1, t1)"
    by (metis prod.exhaust)
  obtain r2 t2 where r2: "run_state (ExecClient env (snd (Server conf))) t1 = (r2, t2)"
    by (metis prod.exhaust)
  have cmd: "commands t2 = commands t"
    using ExecClient_cases(3) [OF r1] ExecClient_cases(3) [OF r2] by simp
  show ?case
  proof (cases "r1 = 0 \<or> r2 = 0 \<or> i + 1 > RetryTimes conf")
    case True
    then show ?thesis
      using "1.prems" r1 r2 cmd by (auto simp: retry_loop.simps [of env conf i] split: if_splits)
  next
    case False
    let ?t = "(Sleep (SleepSec conf), env t2 (Sleep (SleepSec conf))) # t2"
    have "run_state (retry_loop env conf (i + 1)) ?t = (r, t')"
      using "1.prems" r1 r2 False by (simp add: retry_loop.simps [of env conf i])
    then show ?thesis
      using "1.IH" [of r1 r2 ?t r t'] False cmd by (auto split: prod.splits if_splits)
  qed
qed

lemma retry_loop_unreachable:
  "unreachable env \<Longrightarrow> i \<le> RetryTimes conf \<or> n = i + 1 \<Longrightarrow> n = max (i + 1) (RetryTimes conf + 1) \<Longrightarrow>
   \<exists>t'. run_state (retry_loop env conf i) t = ((n, True), t') \<and> commands t' = commands t \<and>
     sleeps t' = sleeps t @ replicate (nat (RetryTimes conf - i)) (SleepSec conf)"
proof (induction env conf i arbitrary: t rule: retry_loop.induct)
  case (1 env conf i)
  obtain r1 t1 where r1: "run_state (ExecClient env (fst (Server conf))) t = (r1, t1)"
    by (metis prod.exhaust)
  obtain r2 t2 where r2: "run_state (ExecClient env (snd (Server conf))) t1 = (r2, t2)"
    by (metis prod.exhaust)
  have no: "r1 = - 1" "r2 = - 1"
    using ExecClient_unreachable [OF "1.prems"(1)] r1 r2 by blast+
  have same: "commands t2 = commands t" "sleeps t2 = sleeps t"
    using ExecClient_cases(3,4) [OF r1] ExecClient_cases(3,4) [OF r2] by simp_all
  show ?case
  proof (cases "i + 1 > RetryTimes conf")
    case True
    then show ?thesis
      using r1 r2 no same "1.prems"(3) by (simp add: retry_loop.simps [of env conf i])
  next
    case False
    let ?t = "(Sleep (SleepSec conf), env t2 (Sleep (SleepSec conf))) # t2"
    have step: "run_state (retry_loop env conf i) t = run_state (retry_loop env conf (i + 1)) ?t"
      using r1 r2 no False by (simp add: retry_loop.simps [of env conf i])
    have n: "nat (RetryTimes conf - i) = Suc (nat (RetryTimes conf - (i + 1)))"
      using False by simp
    show ?thesis
      using "1.IH" [of r1 r2 ?t] no False same "1.prems" unfolding step n by auto
  qed
qed

section \<open>Taking over and giving back\<close>

lemma run_commands_ok:
  "\<exists>t'. run_state (run_commands env cs) t = ((), t') \<and> commands t' = commands t @ cs \<and>
     sleeps t' = sleeps t"
  by (induction cs arbitrary: t) (fastforce)+

text \<open>\<open>popen\<close> and \<open>fgets\<close> work.\<close>

definition popen_ok :: "env \<Rightarrow> bool" where
  "popen_ok env \<longleftrightarrow> (\<forall>t c. ret (env t (Popen c)) \<noteq> 0) \<and> (\<forall>t n. ret (env t (Fgets n)) \<noteq> 0)"

definition start_command :: "ConfigInfo \<Rightarrow> string" where
  "start_command conf = ''cd '' @ sServerDir conf @ '' ; ./teleManager start''"

definition quick_command :: "ConfigInfo \<Rightarrow> string" where
  "quick_command conf = ''cd '' @ sServerDir conf @ '' ; ./teleManager quick''"

lemma take_over_ok:
  assumes "popen_ok env"
  shows "\<exists>t' start. run_state (take_over env conf) t = (True, t') \<and>
    commands t' = commands t @ map up_command (ethernets conf) @ start \<and>
    (start = [] \<or> start = [start_command conf]) \<and>
    ((\<forall>t n. to_i32 (int_value (data (env t (Fgets n)))) = 0) \<longrightarrow> start = [start_command conf])"
proof -
  obtain t1 where t1: "run_state (run_commands env (map up_command (ethernets conf))) t = ((), t1)"
    "commands t1 = commands t @ map up_command (ethernets conf)"
    using run_commands_ok by blast
  let ?t2 = "(Popen ps_command, env t1 (Popen ps_command)) # t1"
  let ?l = "env ?t2 (Fgets (BUFF_SIZE - 1))"
  let ?t3 = "(Fgets (BUFF_SIZE - 1), ?l) # ?t2"
  let ?t4 = "(Pclose, env ?t3 Pclose) # ?t3"
  obtain t5 where t5: "run_state (run_commands env [start_command conf]) ?t4 = ((), t5)"
    "commands t5 = commands ?t4 @ [start_command conf]"
    using run_commands_ok by blast
  have ok: "ret (env t1 (Popen ps_command)) \<noteq> 0" "ret ?l \<noteq> 0"
    using assms by (simp_all add: popen_ok_def)
  show ?thesis
  proof (cases "to_i32 (int_value (data ?l)) = 0")
    case True
    then show ?thesis
      using t1 t5 ok
      by (intro exI [of _ t5] exI [of _ "[start_command conf]"])
        (simp add: take_over_def start_command_def Let_def del: run_commands.simps)
  next
    case False
    then show ?thesis
      using t1 ok
      by (intro exI [of _ ?t4] exI [of _ "[]"]) (auto simp: take_over_def Let_def)
  qed
qed

lemma take_over_no_popen:
  assumes "\<And>t c. ret (env t (Popen c)) = 0"
  shows "\<exists>t'. run_state (take_over env conf) t = (False, t') \<and>
    commands t' = commands t @ map up_command (ethernets conf) \<and> sleeps t' = sleeps t"
proof -
  obtain t1 where "run_state (run_commands env (map up_command (ethernets conf))) t = ((), t1)"
    "commands t1 = commands t @ map up_command (ethernets conf)" "sleeps t1 = sleeps t"
    using run_commands_ok by blast
  then show ?thesis using assms by (simp add: take_over_def)
qed

lemma give_back_ok:
  "\<exists>t'. run_state (give_back env conf) t = ((), t') \<and>
     commands t' = commands t @ map down_command (ethernets conf) @ [quick_command conf]"
proof -
  obtain t1 where t1: "run_state (run_commands env (map down_command (ethernets conf))) t = ((), t1)"
    "commands t1 = commands t @ map down_command (ethernets conf)"
    using run_commands_ok by blast
  obtain t2 where t2: "run_state (run_commands env [quick_command conf]) t1 = ((), t2)"
    "commands t2 = commands t1 @ [quick_command conf]"
    using run_commands_ok by blast
  show ?thesis
    using t1 t2 by (simp add: give_back_def quick_command_def del: run_commands.simps)
qed

text \<open>The last command about an interface.\<close>

definition link_state :: "string \<Rightarrow> string list \<Rightarrow> bool option" where
  "link_state e cs = (let l = filter (\<lambda>c. c = up_command e \<or> c = down_command e) cs
     in if l = [] then None else Some (last l = up_command e))"

lemma commands_differ [simp]:
  "up_command e \<noteq> down_command f" "down_command f \<noteq> up_command e"
  "up_command e = up_command f \<longleftrightarrow> e = f" "down_command e = down_command f \<longleftrightarrow> e = f"
  "start_command conf \<noteq> up_command e" "start_command conf \<noteq> down_command e"
  "quick_command conf \<noteq> up_command e" "quick_command conf \<noteq> down_command e"
proof -
  have "last (up_command e) \<noteq> last (down_command f)"
    by (simp add: up_command_def down_command_def)
  then show "up_command e \<noteq> down_command f" "down_command f \<noteq> up_command e" by metis+
qed (simp_all add: up_command_def down_command_def start_command_def quick_command_def)

lemma link_state_other:
  "c \<noteq> up_command e \<Longrightarrow> c \<noteq> down_command e \<Longrightarrow> link_state e (cs @ [c]) = link_state e cs"
  by (simp add: link_state_def)

lemma link_state_last:
  "link_state e (cs @ [up_command e]) = Some True"
  "link_state e (cs @ [down_command e]) = Some False"
  by (simp_all add: link_state_def Let_def)

lemma link_state_ups:
  "link_state e (cs @ map up_command es) = (if e \<in> set es then Some True else link_state e cs)"
proof (induction es rule: rev_induct)
  case (snoc f es)
  then show ?case
    using link_state_last(1) [of e "cs @ map up_command es"]
      link_state_other [of "up_command f" e "cs @ map up_command es"] by (cases "f = e") auto
qed simp

lemma link_state_downs:
  "link_state e (cs @ map down_command es) = (if e \<in> set es then Some False else link_state e cs)"
proof (induction es rule: rev_induct)
  case (snoc f es)
  then show ?case
    using link_state_last(2) [of e "cs @ map down_command es"]
      link_state_other [of "down_command f" e "cs @ map down_command es"] by (cases "f = e") auto
qed simp

section \<open>The failover machine\<close>

lemma client_iter_popen:
  assumes "popen_ok env"
  shows "\<exists>n err t' start. run_state (client_iter env conf (i, flag)) t =
      ((n, if err then BACKUP_FLAG else MAIN_FLAG), t') \<and>
    (if err then i < n \<and> RetryTimes conf < n else n = 0) \<and>
    (start = [] \<or> start = [start_command conf]) \<and>
    commands t' = commands t @
      (if err \<and> flag = MAIN_FLAG then map up_command (ethernets conf) @ start
       else if \<not> err \<and> flag = BACKUP_FLAG
       then map down_command (ethernets conf) @ [quick_command conf] else [])"
proof -
  obtain n err t1 where r: "run_state (retry_loop env conf i) t = ((n, err), t1)"
    by (metis prod.exhaust)
  have fr: "commands t1 = commands t" "if err then i < n \<and> RetryTimes conf < n else n = 0"
    using retry_loop_frame [OF r] by simp_all
  obtain t2 start where t2: "run_state (take_over env conf) t1 = (True, t2)"
    "commands t2 = commands t1 @ map up_command (ethernets conf) @ start"
    "start = [] \<or> start = [start_command conf]"
    using take_over_ok [OF assms] by blast
  obtain t3 where t3: "run_state (give_back env conf) t1 = ((), t3)"
    "commands t3 = commands t1 @ map down_command (ethernets conf) @ [quick_command conf]"
    using give_back_ok by blast
  show ?thesis
    using r fr t2 t3
    by (cases flag; cases err)
      (auto simp: client_iter_def intro!: exI [of _ n] exI [of _ err] exI [of _ start])
qed

definition links_ok :: "ConfigInfo \<Rightarrow> main_flag \<Rightarrow> trace \<Rightarrow> bool" where
  "links_ok conf flag t \<longleftrightarrow> (\<forall>e\<in>set (ethernets conf).
     case flag of BACKUP_FLAG \<Rightarrow> link_state e (commands t) = Some True
     | MAIN_FLAG \<Rightarrow> link_state e (commands t) \<noteq> Some True)"

lemma links_ok_iter:
  assumes "popen_ok env" "links_ok conf flag t"
    "run_state (client_iter env conf (i, flag)) t = ((n, flag'), t')"
  shows "links_ok conf flag' t'"
proof -
  let ?up = "map up_command (ethernets conf)" and ?down = "map down_command (ethernets conf)"
  obtain err start where *: "flag' = (if err then BACKUP_FLAG else MAIN_FLAG)"
    "start = [] \<or> start = [start_command conf]"
    "commands t' = commands t @ (if err \<and> flag = MAIN_FLAG then ?up @ start
       else if \<not> err \<and> flag = BACKUP_FLAG then ?down @ [quick_command conf] else [])"
    using client_iter_popen [OF assms(1), of conf i flag t] assms(3) by auto
  have up: "link_state e (commands t @ ?up @ start) = Some True" if "e \<in> set (ethernets conf)" for e
    using *(2) that link_state_ups [of e "commands t"]
      link_state_other [of "start_command conf" e "commands t @ ?up"] by auto
  have down: "link_state e (commands t @ ?down @ [quick_command conf]) = Some False"
    if "e \<in> set (ethernets conf)" for e
    using that link_state_downs [of e "commands t"]
      link_state_other [of "quick_command conf" e "commands t @ ?down"] by auto
  show ?thesis
    using assms(2) * up down by (cases flag; cases err) (auto simp: links_ok_def)
qed

lemma links_ok_loop:
  "popen_ok env \<Longrightarrow> links_ok conf flag t \<Longrightarrow>
   run_state (client_loop env conf k (i, flag)) t = ((n, flag'), t') \<Longrightarrow> links_ok conf flag' t'"
proof (induction k arbitrary: i flag t)
  case (Suc k)
  obtain i1 f1 t1 where 1: "run_state (client_iter env conf (i, flag)) t = ((i1, f1), t1)"
    by (metis prod.exhaust)
  then have "run_state (client_loop env conf k (i1, f1)) t1 = ((n, flag'), t')"
    using Suc.prems(3) by simp
  then show ?case using Suc.IH [OF Suc.prems(1) links_ok_iter [OF Suc.prems(1,2) 1]] by blast
qed simp

lemma client_iter_backup_unreachable:
  assumes "unreachable env" "RetryTimes conf < i"
  shows "\<exists>t'. run_state (client_iter env conf (i, BACKUP_FLAG)) t = ((i + 1, BACKUP_FLAG), t') \<and>
    commands t' = commands t"
  using retry_loop_unreachable [OF assms(1), of i conf "i + 1" t] assms(2)
  by (auto simp: client_iter_def)

lemma client_loop_backup_unreachable:
  "unreachable env \<Longrightarrow> RetryTimes conf < i \<Longrightarrow>
   \<exists>t'. run_state (client_loop env conf k (i, BACKUP_FLAG)) t = ((i + int k, BACKUP_FLAG), t') \<and>
     commands t' = commands t"
proof (induction k arbitrary: i t)
  case (Suc k)
  obtain t1 where t1: "run_state (client_iter env conf (i, BACKUP_FLAG)) t = ((i + 1, BACKUP_FLAG), t1)"
    "commands t1 = commands t"
    using client_iter_backup_unreachable [OF Suc.prems] by blast
  then show ?case using Suc.IH [of "i + 1" t1] Suc.prems by (auto simp: add.assoc)
qed simp

lemma client_iter_no_popen:
  assumes "unreachable env" "\<And>t c. ret (env t (Popen c)) = 0"
    and "i \<le> RetryTimes conf \<or> n = i + 1" "n = max (i + 1) (RetryTimes conf + 1)"
  shows "\<exists>t'. run_state (client_iter env conf (i, MAIN_FLAG)) t = ((n, MAIN_FLAG), t') \<and>
    commands t' = commands t @ map up_command (ethernets conf) \<and>
    sleeps t' = sleeps t @ replicate (nat (RetryTimes conf - i)) (SleepSec conf)"
proof -
  obtain t1 where t1: "run_state (retry_loop env conf i) t = ((n, True), t1)"
    "commands t1 = commands t"
    "sleeps t1 = sleeps t @ replicate (nat (RetryTimes conf - i)) (SleepSec conf)"
    using retry_loop_unreachable [OF assms(1,3,4)] by blast
  obtain t2 where "run_state (take_over env conf) t1 = (False, t2)"
    "commands t2 = commands t1 @ map up_command (ethernets conf)" "sleeps t2 = sleeps t1"
    using take_over_no_popen [where env = env, OF assms(2)] by blast
  then show ?thesis using t1 by (simp add: client_iter_def)
qed

lemma client_loop_no_popen:
  assumes "unreachable env" "\<And>t c. ret (env t (Popen c)) = 0"
  shows "RetryTimes conf < i \<Longrightarrow>
    \<exists>t'. run_state (client_loop env conf k (i, MAIN_FLAG)) t = ((i + int k, MAIN_FLAG), t') \<and>
      commands t' = commands t @ concat (replicate k (map up_command (ethernets conf))) \<and>
      sleeps t' = sleeps t"
proof (induction k arbitrary: i t)
  case (Suc k)
  obtain t1 where "run_state (client_iter env conf (i, MAIN_FLAG)) t = ((i + 1, MAIN_FLAG), t1)"
    "commands t1 = commands t @ map up_command (ethernets conf)" "sleeps t1 = sleeps t"
    using client_iter_no_popen [OF assms, where i = i and conf = conf and n = "i + 1" and t = t]
      Suc.prems by auto
  then show ?case using Suc.IH [of "i + 1" t1] Suc.prems by (auto simp: add.assoc)
qed simp

section \<open>Properties\<close>

text \<open>A concrete environment: no connection succeeds, \<open>popen\<close> and \<open>fgets\<close> work, \<open>ps\<close> counts 0.\<close>

definition down_env :: env where
  "down_env t c = (case c of
     Connect _ _ _ \<Rightarrow> \<lparr>ret = - 1, data = [], evs = []\<rparr>
   | Fgets _ \<Rightarrow> \<lparr>ret = 1, data = ''0'', evs = []\<rparr>
   | _ \<Rightarrow> \<lparr>ret = 3, data = [], evs = []\<rparr>)"

definition demo_conf :: ConfigInfo where
  "demo_conf = ConfigInfo_new\<lparr>CSFlag := 1, RetryTimes := 2, SleepSec := 5, iEthernetNumber := 1,
     sEthernet := [''eth0'']\<rparr>"

lemma down_env_ok: "unreachable down_env" "popen_ok down_env"
  by (simp_all add: unreachable_def popen_ok_def down_env_def)

text \<open>
  C7: as long as \<open>popen\<close> works, the client never leaves the interfaces in the wrong state:
  after any number of iterations and whatever the servers answer, every configured interface
  was last commanded up if the client has taken over (\<open>BACKUP_FLAG\<close>), and was last commanded
  down or never commanded if it has not.
\<close>

theorem failover_links:
  assumes "popen_ok env" "run_state (RunAsClient env conf k) [] = ((n, flag), t)"
  shows "links_ok conf flag t"
proof -
  have "links_ok conf MAIN_FLAG []" by (simp add: links_ok_def link_state_def)
  then show ?thesis using links_ok_loop assms unfolding RunAsClient_def by blast
qed

theorem failover_links_witness:
  "links_ok demo_conf (snd (fst (run_state (RunAsClient down_env demo_conf 4) [])))
     (snd (run_state (RunAsClient down_env demo_conf 4) []))"
proof -
  obtain n flag t where "run_state (RunAsClient down_env demo_conf 4) [] = ((n, flag), t)"
    by (metis prod.exhaust)
  then show ?thesis using failover_links [OF down_env_ok(2)] by simp
qed

text \<open>
  When no server can be reached, the client takes over exactly once: after the first
  iteration (\<open>RetryTimes + 1\<close> failed rounds) it has brought the interfaces up and, if \<open>ps\<close>
  counts no manager, started it; later iterations issue no further command.
\<close>

theorem takeover_once:
  assumes "unreachable env" "popen_ok env" "0 \<le> RetryTimes conf"
    and "\<And>t n. to_i32 (int_value (data (env t (Fgets n)))) = 0"
  shows "\<exists>t. run_state (RunAsClient env conf (Suc k)) [] =
      ((RetryTimes conf + 1 + int k, BACKUP_FLAG), t) \<and>
    commands t = map up_command (ethernets conf) @ [start_command conf]"
proof -
  obtain t1 where t1: "run_state (retry_loop env conf 0) [] = ((RetryTimes conf + 1, True), t1)"
    "commands t1 = []"
    using retry_loop_unreachable [OF assms(1), of 0 conf "RetryTimes conf + 1" "[]"] assms(3) by auto
  obtain t2 where t2: "run_state (take_over env conf) t1 = (True, t2)"
    "commands t2 = commands t1 @ map up_command (ethernets conf) @ [start_command conf]"
    using take_over_ok [OF assms(2), of conf t1] assms(4) by auto
  let ?t3 = "(Sleep (SleepSec conf), env t2 (Sleep (SleepSec conf))) # t2"
  have "run_state (client_iter env conf (0, MAIN_FLAG)) [] =
      ((RetryTimes conf + 1, BACKUP_FLAG), ?t3)"
    using t1 t2 by (simp add: client_iter_def)
  then show ?thesis
    using client_loop_backup_unreachable [OF assms(1), of conf "RetryTimes conf + 1" k ?t3] t1 t2
    by (simp add: RunAsClient_def)
qed

theorem takeover_once_witness:
  "\<exists>t. run_state (RunAsClient down_env demo_conf (Suc 2)) [] = ((5, BACKUP_FLAG), t) \<and>
    commands t = [''ifconfig eth0 up'', ''cd  ; ./teleManager start'']"
proof -
  have "int_value ''0'' = 0" by code_simp
  then have "\<And>t n. to_i32 (int_value (data (down_env t (Fgets n)))) = 0"
    by (simp add: down_env_def)
  then show ?thesis
    using takeover_once [OF down_env_ok, of demo_conf 2]
    by (simp add: demo_conf_def ConfigInfo_new_def ethernets_def up_command_def start_command_def)
qed

text \<open>
  When no server can be reached and \<open>popen\<close> fails, the client ends up in a busy loop: the
  count of failures is not reset and the failing branch skips the sleep, so beyond the first
  \<open>RetryTimes\<close> sleeps it never sleeps again and repeats the interface commands in every
  iteration.
\<close>

theorem popen_failure_busy_loop:
  assumes "unreachable env" "\<And>t c. ret (env t (Popen c)) = 0" "0 \<le> RetryTimes conf"
  shows "\<exists>n t. run_state (RunAsClient env conf (Suc k)) [] = ((n, MAIN_FLAG), t) \<and>
    sleeps t = replicate (nat (RetryTimes conf)) (SleepSec conf) \<and>
    commands t = concat (replicate (Suc k) (map up_command (ethernets conf)))"
proof -
  obtain t1 where t1: "run_state (client_iter env conf (0, MAIN_FLAG)) [] =
      ((RetryTimes conf + 1, MAIN_FLAG), t1)" "commands t1 = map up_command (ethernets conf)"
      "sleeps t1 = replicate (nat (RetryTimes conf)) (SleepSec conf)"
    using client_iter_no_popen [OF assms(1,2), where i = 0 and conf = conf and t = "[]"
        and n = "RetryTimes conf + 1"] assms(3) by auto
  then show ?thesis
    using client_loop_no_popen [OF assms(1,2), of conf "RetryTimes conf + 1" k t1]
    by (auto simp: RunAsClient_def)
qed

definition nopopen_env :: env where
  "nopopen_env t c = (case c of
     Connect _ _ _ \<Rightarrow> \<lparr>ret = - 1, data = [], evs = []\<rparr>
   | _ \<Rightarrow> \<lparr>ret = 0, data = [], evs = []\<rparr>)"

theorem popen_failure_busy_loop_witness:
  "\<exists>n t. run_state (RunAsClient nopopen_env demo_conf (Suc 9)) [] = ((n, MAIN_FLAG), t) \<and>
    sleeps t = [5, 5] \<and> length (commands t) = 10"
  using popen_failure_busy_loop [of nopopen_env demo_conf 9]
  by (auto simp: unreachable_def nopopen_env_def demo_conf_def ConfigInfo_new_def ethernets_def
    numeral_eq_Suc)

text \<open>
  A probe returns 0 exactly when it has closed its socket again; every failing probe that
  obtained a socket leaves it open.
\<close>

theorem failing_probe_leaks_socket:
  assumes "run_state (ExecClient env ci) t = (r, t')"
  shows "open_fds t' = (if r = 0 \<or> ret (env t Socket) < 0 then open_fds t
           else add_mset (ret (env t Socket)) (open_fds t)) \<and> (r = 0 \<or> r = - 1)"
  using ExecClient_cases(1,2) [OF assms] by simp

theorem failing_probe_leaks_socket_witness:
  "\<exists>t'. run_state (ExecClient down_env \<lparr>ServerIp = ''10.0.0.1'', ServerPort = 80\<rparr>) [] = (- 1, t') \<and>
    open_fds t' = {#3#}"
proof -
  obtain r t' where r: "run_state (ExecClient down_env \<lparr>ServerIp = ''10.0.0.1'', ServerPort = 80\<rparr>) [] =
      (r, t')" by (metis prod.exhaust)
  have "r = - 1" using ExecClient_unreachable [OF down_env_ok(1) r] .
  then show ?thesis
    using failing_probe_leaks_socket [OF r] r by (simp add: down_env_def)
qed

text \<open>\<open>Trim\<close> removes exactly the leading and the trailing spaces and tabs.\<close>

theorem Trim_spec:
  "Trim (Some s) = Some (rev (dropWhile blank (rev (dropWhile blank s))))"
  by (rule Trim_eq)

end
