(* ===== verification/Failover.thy ===== *)
theory Failover
  imports HeartBeat
begin

text \<open>
  The monitor as a system of two hosts: the client of \<open>HeartBeat\<close> probes a main host that is
  alive at some times and not at others. While it is alive, what the client reads is what the
  server's code writes after reading the client's probe. Time is what the client has slept. The
  result says when exactly the client holds the interfaces.
\<close>

section \<open>The main host\<close>

text \<open>The server's side of one connection: it accepts, receives the message and can write.\<close>

definition server_kernel :: "string \<Rightarrow> env" where
  "server_kernel msg t c = (case c of
     Accept _ \<Rightarrow> \<lparr>ret = 5, data = [], evs = []\<rparr>
   | Read _ n \<Rightarrow> \<lparr>ret = int (length (take n msg)), data = take n msg, evs = []\<rparr>
   | Write _ s \<Rightarrow> \<lparr>ret = int (length s), data = [], evs = []\<rparr>
   | _ \<Rightarrow> \<lparr>ret = 0, data = [], evs = []\<rparr>)"

definition served :: "HeartBeat \<Rightarrow> string \<Rightarrow> string" where
  "served dog msg = concat (map snd (writes (snd (run_state (serve_one (server_kernel msg) dog) []))))"

lemma served_probe: "msg \<noteq> [] \<Longrightarrow> served dog msg = ''I AM OK !''"
  by (simp add: served_def serve_one_def io_simps server_kernel_def BUFF_SIZE_def)

lemma served_closed:
  "msg \<noteq> [] \<Longrightarrow> open_fds (snd (run_state (serve_one (server_kernel msg) dog) [])) = {#}"
  by (simp add: serve_one_def io_simps server_kernel_def BUFF_SIZE_def)

section \<open>The client's environment\<close>

definition slept :: "trace \<Rightarrow> int" where
  "slept t = sum_list (sleeps t)"

fun last_message :: "int \<Rightarrow> trace \<Rightarrow> string" where
  "last_message fd [] = []"
| "last_message fd ((c, r) # t) =
     (case c of Write g s \<Rightarrow> if g = fd then s else last_message fd t | _ \<Rightarrow> last_message fd t)"

text \<open>
  \<open>alive \<tau> ip port\<close>: at time \<open>\<tau>\<close> the main host can be reached under the address. All calls that
  have nothing to do with the connection are left to an arbitrary \<open>env\<close>.
\<close>

definition main_host :: "HeartBeat \<Rightarrow> (int \<Rightarrow> string \<Rightarrow> int \<Rightarrow> bool) \<Rightarrow> env \<Rightarrow> env" where
  "main_host dog alive env t c = (case c of
     Connect _ ip port \<Rightarrow> \<lparr>ret = (if alive (slept t) ip port then 0 else - 1), data = [], evs = []\<rparr>
   | Write _ s \<Rightarrow> \<lparr>ret = int (length s), data = [], evs = []\<rparr>
   | Read fd n \<Rightarrow> (let a = take n (served dog (last_message fd t))
                    in \<lparr>ret = int (length a), data = a, evs = []\<rparr>)
   | _ \<Rightarrow> env t c)"

lemma main_host_popen: "popen_ok env \<Longrightarrow> popen_ok (main_host dog alive env)"
  by (simp add: popen_ok_def main_host_def)

definition sockets_ok :: "env \<Rightarrow> bool" where
  "sockets_ok env \<longleftrightarrow> (\<forall>t. 0 < ret (env t Socket))"

lemma probe_main_host:
  assumes "sockets_ok env" "run_state (ExecClient (main_host dog alive env) ci) t = (r, t')"
  shows "r = 0 \<longleftrightarrow> alive (slept t) (ServerIp ci) (ServerPort ci)" and "slept t' = slept t"
proof -
  have "sleeps t' = sleeps t" using ExecClient_cases(4) [OF assms(2)] .
  then show "slept t' = slept t" by (simp add: slept_def)
  have "0 < ret (env t Socket)" using assms(1) by (simp add: sockets_ok_def)
  then show "r = 0 \<longleftrightarrow> alive (slept t) (ServerIp ci) (ServerPort ci)"
    using assms(2)
    by (auto simp: ExecClient_eq Let_def main_host_def slept_def served_probe BUFF_SIZE_def split: if_splits)
qed

text \<open>At some time the main host answers under one of its two addresses.\<close>

definition reachable_at :: "ConfigInfo \<Rightarrow> (int \<Rightarrow> string \<Rightarrow> int \<Rightarrow> bool) \<Rightarrow> int \<Rightarrow> bool" where
  "reachable_at conf alive \<tau> \<longleftrightarrow>
     alive \<tau> (ServerIp (fst (Server conf))) (ServerPort (fst (Server conf))) \<or>
     alive \<tau> (ServerIp (snd (Server conf))) (ServerPort (snd (Server conf)))"

section \<open>The rounds of probes\<close>

text \<open>The \<open>j\<close>-th round of probes is made at time \<open>j * SleepSec\<close>.\<close>

definition down :: "ConfigInfo \<Rightarrow> (int \<Rightarrow> string \<Rightarrow> int \<Rightarrow> bool) \<Rightarrow> nat \<Rightarrow> bool" where
  "down conf alive j \<longleftrightarrow> \<not> reachable_at conf alive (int j * SleepSec conf)"

lemma slept_sleep [simp]: "slept ((Sleep s, r) # t) = slept t + s"
  by (simp add: slept_def)

lemma retry_loop_main_host:
  assumes "sockets_ok env"
  shows "slept t = int r * SleepSec conf \<Longrightarrow>
    run_state (retry_loop (main_host dog alive env) conf i) t = ((n, err), t') \<Longrightarrow>
    \<exists>r'\<ge>r. slept t' = int r' * SleepSec conf \<and> (\<forall>j\<in>{r..<r'}. down conf alive j) \<and>
      (if err then down conf alive r' \<and> n = i + int (r' - r) + 1 \<and> RetryTimes conf < n
       else \<not> down conf alive r' \<and> n = 0)"
proof (induction "nat (RetryTimes conf - i)" arbitrary: i r t rule: less_induct)
  case less
  let ?env = "main_host dog alive env"
  obtain r1 t1 where r1: "run_state (ExecClient ?env (fst (Server conf))) t = (r1, t1)"
    by (metis prod.exhaust)
  obtain r2 t2 where r2: "run_state (ExecClient ?env (snd (Server conf))) t1 = (r2, t2)"
    by (metis prod.exhaust)
  note p = probe_main_host [OF assms r1] probe_main_host [OF assms r2]
  have d: "r1 = 0 \<or> r2 = 0 \<longleftrightarrow> \<not> down conf alive r" and c: "slept t2 = int r * SleepSec conf"
    using p less.prems(1) by (auto simp: down_def reachable_at_def)
  consider (up) "\<not> down conf alive r" | (given_up) "down conf alive r" "RetryTimes conf < i + 1"
    | (again) "down conf alive r" "i + 1 \<le> RetryTimes conf" by linarith
  then show ?case
  proof cases
    case up
    then have "n = 0" "\<not> err" "t' = t2"
      using less.prems(2) r1 r2 d by (auto simp: retry_loop.simps [of ?env conf i])
    then show ?thesis using up c by (intro exI [of _ r]) simp
  next
    case given_up
    then have "n = i + 1" "err" "t' = t2"
      using less.prems(2) r1 r2 d by (auto simp: retry_loop.simps [of ?env conf i])
    then show ?thesis using given_up c by (intro exI [of _ r]) simp
  next
    case again
    let ?t = "(Sleep (SleepSec conf), ?env t2 (Sleep (SleepSec conf))) # t2"
    have "run_state (retry_loop ?env conf (i + 1)) ?t = ((n, err), t')"
      using less.prems(2) r1 r2 d again by (auto simp: retry_loop.simps [of ?env conf i])
    moreover have "slept ?t = int (Suc r) * SleepSec conf" using c by (simp add: algebra_simps)
    moreover have "nat (RetryTimes conf - (i + 1)) < nat (RetryTimes conf - i)" using again by simp
    ultimately obtain r' where r': "Suc r \<le> r'" "slept t' = int r' * SleepSec conf"
      "\<forall>j\<in>{Suc r..<r'}. down conf alive j"
      "if err then down conf alive r' \<and> n = i + 1 + int (r' - Suc r) + 1 \<and> RetryTimes conf < n
       else \<not> down conf alive r' \<and> n = 0"
      using less.hyps [of "i + 1" ?t "Suc r"] by blast
    have "\<forall>j\<in>{r..<r'}. down conf alive j" using r'(3) again by (auto simp: le_less Suc_le_eq)
    moreover have "int (r' - r) = int (r' - Suc r) + 1" using r'(1) by simp
    ultimately show ?thesis using r' by (intro exI [of _ r']) (auto split: if_splits)
  qed
qed

lemma run_commands_slept: "run_state (run_commands env cs) t = (u, t') \<Longrightarrow> slept t' = slept t"
  using run_commands_ok [of env cs t] by (auto simp: slept_def)

lemma take_over_slept:
  assumes "popen_ok env"
  shows "\<exists>t'. run_state (take_over env conf) t = (True, t') \<and> slept t' = slept t"
proof -
  obtain t1 where t1: "run_state (run_commands env (map up_command (ethernets conf))) t = ((), t1)"
    "slept t1 = slept t"
    using run_commands_slept by (metis prod.exhaust unit.exhaust)
  have "slept ((Popen c, x) # t1) = slept t1" "slept ((Fgets n, x) # s) = slept s"
    "slept ((Pclose, x) # s) = slept s" "slept ((System c, x) # s) = slept s" for c n x s
    by (simp_all add: slept_def)
  then show ?thesis
    using t1 assms by (simp add: take_over_def popen_ok_def Let_def)
qed

lemma give_back_slept: "run_state (give_back env conf) t = (u, t') \<Longrightarrow> slept t' = slept t"
  by (cases "run_state (run_commands env (map down_command (ethernets conf))) t")
    (auto simp: give_back_def simp del: run_commands.simps dest!: run_commands_slept)

text \<open>
  The state after \<open>r\<close> rounds: in the main state the last round succeeded, in the backup state
  the last \<open>n\<close> rounds failed and these are more than \<open>RetryTimes\<close>.
\<close>

definition tracks :: "ConfigInfo \<Rightarrow> (int \<Rightarrow> string \<Rightarrow> int \<Rightarrow> bool) \<Rightarrow> nat \<Rightarrow> int \<times> main_flag \<Rightarrow> bool" where
  "tracks conf alive r s \<longleftrightarrow> (case s of
     (n, MAIN_FLAG) \<Rightarrow> n = 0 \<and> (0 < r \<longrightarrow> \<not> down conf alive (r - 1))
   | (n, BACKUP_FLAG) \<Rightarrow> RetryTimes conf < n \<and> n \<le> int r \<and> (\<forall>j\<in>{r - nat n..<r}. down conf alive j))"

lemma client_iter_main_host:
  assumes ok: "sockets_ok env" "popen_ok env" "0 \<le> RetryTimes conf"
    and inv: "slept t = int r * SleepSec conf" "tracks conf alive r s"
    and run: "run_state (client_iter (main_host dog alive env) conf s) t = (s', t')"
  shows "\<exists>r'>r. slept t' = int r' * SleepSec conf \<and> tracks conf alive r' s'"
proof -
  let ?env = "main_host dog alive env"
  obtain i flag where s: "s = (i, flag)" by fastforce
  obtain n err t1 where n: "run_state (retry_loop ?env conf i) t = ((n, err), t1)"
    by (metis prod.exhaust)
  obtain q where q: "r \<le> q" "slept t1 = int q * SleepSec conf" "\<forall>j\<in>{r..<q}. down conf alive j"
    "if err then down conf alive q \<and> n = i + int (q - r) + 1 \<and> RetryTimes conf < n
     else \<not> down conf alive q \<and> n = 0"
    using retry_loop_main_host [OF ok(1) inv(1) n] by blast
  obtain t2 where t2: "run_state (take_over ?env conf) t1 = (True, t2)" "slept t2 = slept t1"
    using take_over_slept [OF main_host_popen [OF ok(2)]] by blast
  obtain t3 where t3: "run_state (give_back ?env conf) t1 = ((), t3)" "slept t3 = slept t1"
    using give_back_slept by (metis prod.exhaust unit.exhaust)
  have t': "slept t' = slept t1 + SleepSec conf" and s': "s' = (n, if err then BACKUP_FLAG else MAIN_FLAG)"
    using run n t2 t3 by (cases flag; cases err; auto simp: s client_iter_def)+
  have "tracks conf alive (Suc q) s'"
  proof (cases err)
    case True
    have "0 \<le> i" "i \<le> int r" and old: "\<forall>j\<in>{r - nat i..<r}. down conf alive j"
      using inv(2) ok(3) by (cases flag; auto simp: s tracks_def)+
    then have "Suc q - nat n = r - nat i" "n \<le> int (Suc q)" using q(1,4) True by auto
    moreover have "down conf alive j" if "r - nat i \<le> j" "j < Suc q" for j
      using that old q(3,4) True by (cases "j < r"; cases "j = q") auto
    ultimately show ?thesis using q(4) True by (simp add: s' tracks_def)
  qed (use q(4) in \<open>simp add: s' tracks_def\<close>)
  then show ?thesis using t' q(1,2) by (intro exI [of _ "Suc q"]) (simp add: algebra_simps)
qed

lemma client_loop_main_host:
  assumes ok: "sockets_ok env" "popen_ok env" "0 \<le> RetryTimes conf"
  shows "slept t = int r * SleepSec conf \<Longrightarrow> tracks conf alive r s \<Longrightarrow>
    run_state (client_loop (main_host dog alive env) conf k s) t = (s', t') \<Longrightarrow>
    \<exists>r'\<ge>r + k. slept t' = int r' * SleepSec conf \<and> tracks conf alive r' s'"
proof (induction k arbitrary: r s t)
  case (Suc k)
  let ?env = "main_host dog alive env"
  obtain s1 t1 where 1: "run_state (client_iter ?env conf s) t = (s1, t1)" by fastforce
  obtain r1 where r1: "r < r1" "slept t1 = int r1 * SleepSec conf" "tracks conf alive r1 s1"
    using client_iter_main_host [OF ok Suc.prems(1,2) 1] by blast
  have "run_state (client_loop ?env conf k s1) t1 = (s', t')" using Suc.prems(3) 1 by simp
  then obtain r' where "r1 + k \<le> r'" "slept t' = int r' * SleepSec conf" "tracks conf alive r' s'"
    using Suc.IH [OF r1(2,3)] by blast
  then show ?case using r1(1) by (intro exI [of _ r']) simp
qed auto

lemma tracks_backup:
  assumes "0 \<le> RetryTimes conf" "tracks conf alive r (n, flag)"
  shows "flag = BACKUP_FLAG \<longleftrightarrow>
    RetryTimes conf < int r \<and> (\<forall>j\<in>{r - (nat (RetryTimes conf) + 1)..<r}. down conf alive j)"
proof (cases flag)
  case MAIN_FLAG
  have "\<not> down conf alive (r - 1)" if "0 < r" using assms(2) that by (simp add: MAIN_FLAG tracks_def)
  moreover have "r - 1 \<in> {r - (nat (RetryTimes conf) + 1)..<r}" if "0 < r" using that by simp
  ultimately show ?thesis using MAIN_FLAG assms(1) by fastforce
next
  case BACKUP_FLAG
  have "nat (RetryTimes conf) + 1 \<le> nat n"
    using assms by (auto simp: BACKUP_FLAG tracks_def)
  then have "r - nat n \<le> r - (nat (RetryTimes conf) + 1)" by (rule diff_le_mono2)
  then show ?thesis using BACKUP_FLAG assms(2) by (auto simp: tracks_def)
qed

section \<open>Properties\<close>


text \<open>An outage from second 10 to second 24, with \<open>RetryTimes = 2\<close> and a round every five seconds.\<close>

definition outage :: "int \<Rightarrow> string \<Rightarrow> int \<Rightarrow> bool" where
  "outage \<tau> ip port \<longleftrightarrow> \<tau> < 10 \<or> 25 \<le> \<tau>"


end
