(* ===== verification/MySocket.thy ===== *)
theory MySocket
  imports Posix
begin

text \<open>
  The socket wrapper and its two programs in \<^verbatim>\<open>src/wzq_study/mysocket.{h,cpp}\<close>: a
  single-threaded server that keeps at most \<open>CONNECT_NUM\<close> clients in a table of slots and
  waits with \<open>select\<close>, and a client that sends a question every three seconds.
\<close>

section \<open>The class\<close>

record MySocket =
  m_iSocketId :: int
  m_iOldSocketId :: int

definition MySocket_new :: MySocket where
  "MySocket_new = \<lparr>m_iSocketId = - 1, m_iOldSocketId = - 1\<rparr>"

definition ms_Listen :: "env \<Rightarrow> string \<Rightarrow> int \<Rightarrow> int \<Rightarrow> MySocket \<Rightarrow> (int \<times> MySocket) io" where
  "ms_Listen env ip port n h = do {
     fd \<leftarrow> call_ret env Socket;
     if fd < 0 then return (- 1, h)
     else do {
       b \<leftarrow> call_ret env (Bind fd ip port);
       if b < 0 then return (- 1, h)
       else do {
         l \<leftarrow> call_ret env (Listen fd n);
         if l < 0 then return (- 1, h) else return (fd, h\<lparr>m_iOldSocketId := fd\<rparr>)
       }
     }
   }"

definition ms_Accept :: "env \<Rightarrow> MySocket \<Rightarrow> (int \<times> MySocket) io" where
  "ms_Accept env h = do {
     fd \<leftarrow> call_ret env (Accept (m_iOldSocketId h));
     if fd < 0 then return (- 1, h) else return (fd, h\<lparr>m_iSocketId := fd\<rparr>)
   }"

definition ms_Connect :: "env \<Rightarrow> string \<Rightarrow> int \<Rightarrow> MySocket \<Rightarrow> (int \<times> MySocket) io" where
  "ms_Connect env ip port h = do {
     fd \<leftarrow> call_ret env Socket;
     if fd < 0 then return (- 1, h)
     else do {
       r \<leftarrow> call_ret env (Connect fd ip port);
       if r \<noteq> 0 then return (- 1, h) else return (fd, h\<lparr>m_iSocketId := fd\<rparr>)
     }
   }"

text \<open>The overloads of \<open>Write\<close> and \<open>Read\<close> with a descriptor, and those of the object's own.\<close>

definition ms_Write_to :: "env \<Rightarrow> int \<Rightarrow> string \<Rightarrow> int io" where
  "ms_Write_to env fd s = (if fd \<le> 0 then return (- 1) else call_ret env (Write fd s))"

definition ms_Read_from :: "env \<Rightarrow> int \<Rightarrow> nat \<Rightarrow> (int \<times> string) io" where
  "ms_Read_from env fd n =
     (if fd \<le> 0 then return (- 1, [])
      else do { r \<leftarrow> sys env (Read fd n); return (ret r, data r) })"

definition ms_Write :: "env \<Rightarrow> MySocket \<Rightarrow> string \<Rightarrow> int io" where
  "ms_Write env h s = ms_Write_to env (m_iSocketId h) s"

definition ms_Read :: "env \<Rightarrow> MySocket \<Rightarrow> nat \<Rightarrow> (int \<times> string) io" where
  "ms_Read env h n = ms_Read_from env (m_iSocketId h) n"

definition GetSocketID :: "MySocket \<Rightarrow> int" where
  "GetSocketID h = m_iSocketId h"

section \<open>The server\<close>

definition CONNECT_NUM :: nat where "CONNECT_NUM = 5"

definition SERVER_IP :: string where "SERVER_IP = ''127.0.0.1''"

definition SERVER_PORT :: int where "SERVER_PORT = 6666"

text \<open>The first free slot of the table (\<open>None\<close> if it is full).\<close>

fun put_client :: "int \<Rightarrow> int list \<Rightarrow> int list option" where
  "put_client fd [] = None"
| "put_client fd (c # cs) =
     (if c \<le> 0 then Some (fd # cs) else map_option (Cons c) (put_client fd cs))"

text \<open>A new connection; the flag is \<open>False\<close> when the iteration ends here (\<open>continue\<close>).\<close>

definition take_client :: "env \<Rightarrow> MySocket \<Rightarrow> int list \<Rightarrow> (bool \<times> MySocket \<times> int list) io" where
  "take_client env server cs = do {
     (fd, server1) \<leftarrow> ms_Accept env server;
     if fd \<le> 0 then do { _ \<leftarrow> sys env (Sleep 1); return (False, server1, cs) }
     else case put_client fd cs of
       Some cs' \<Rightarrow> return (True, server1, cs')
     | None \<Rightarrow> do { _ \<leftarrow> sys env (Close fd); return (True, server1, cs) }
   }"

text \<open>One slot: read, answer; a failed read closes the descriptor and frees the slot.\<close>

definition serve_slot :: "env \<Rightarrow> int list \<Rightarrow> int \<Rightarrow> int io" where
  "serve_slot env ready c =
     (if c > 0 \<and> c \<in> set ready then do {
        (n, msg) \<leftarrow> ms_Read_from env c 1023;
        if n \<le> 0 then do { _ \<leftarrow> sys env (Close c); return (- 1) }
        else do { _ \<leftarrow> ms_Write_to env c ''I AM OK !''; return c }
      }
      else return c)"

fun serve_slots :: "env \<Rightarrow> int list \<Rightarrow> int list \<Rightarrow> int list io" where
  "serve_slots env ready [] = return []"
| "serve_slots env ready (c # cs) = do {
     c' \<leftarrow> serve_slot env ready c;
     cs' \<leftarrow> serve_slots env ready cs;
     return (c' # cs')
   }"

definition AsServer_iter :: "env \<Rightarrow> int \<Rightarrow> MySocket \<times> int list \<Rightarrow> (MySocket \<times> int list) io" where
  "AsServer_iter env sid = (\<lambda>(server, cs). do {
     r \<leftarrow> sys env (Select (sid # filter (\<lambda>c. c > 0) cs));
     let ready = map fst (evs r);
     (go, server1, cs1) \<leftarrow>
       (if sid \<in> set ready then take_client env server cs else return (True, server, cs));
     if \<not> go then return (server1, cs1)
     else do {
       cs2 \<leftarrow> serve_slots env ready cs1;
       _ \<leftarrow> sys env (Sleep 1);
       return (server1, cs2)
     }
   })"

fun AsServer_loop :: "env \<Rightarrow> int \<Rightarrow> nat \<Rightarrow> MySocket \<times> int list \<Rightarrow> (MySocket \<times> int list) io" where
  "AsServer_loop env sid 0 s = return s"
| "AsServer_loop env sid (Suc k) s = do { s' \<leftarrow> AsServer_iter env sid s; AsServer_loop env sid k s' }"

text \<open>\<open>Inl\<close> of the exit status, or \<open>Inr\<close> of the state after \<open>k\<close> iterations.\<close>

definition AsServer :: "env \<Rightarrow> nat \<Rightarrow> (int + int \<times> MySocket \<times> int list) io" where
  "AsServer env k = do {
     (sid, server) \<leftarrow> ms_Listen env SERVER_IP SERVER_PORT (int CONNECT_NUM) MySocket_new;
     if sid \<le> 0 then return (Inl (- 1))
     else do {
       (server', cs) \<leftarrow> AsServer_loop env sid k (server, replicate CONNECT_NUM 0);
       return (Inr (sid, server', cs))
     }
   }"

section \<open>The client\<close>

fun AsClient_loop :: "env \<Rightarrow> nat \<Rightarrow> MySocket \<Rightarrow> int option io" where
  "AsClient_loop env 0 client = return None"
| "AsClient_loop env (Suc k) client = do {
     w \<leftarrow> ms_Write env client ''ARE YOU OK ?'';
     if w \<le> 0 then return (Some (- 1))
     else do {
       (n, msg) \<leftarrow> ms_Read env client 1023;
       if n \<le> 0 then return (Some (- 1))
       else do { _ \<leftarrow> sys env (Sleep 3); AsClient_loop env k client }
     }
   }"

definition AsClient :: "env \<Rightarrow> nat \<Rightarrow> int option io" where
  "AsClient env k = do {
     (fd, client) \<leftarrow> ms_Connect env SERVER_IP SERVER_PORT MySocket_new;
     if fd \<le> 0 then return (Some (- 1)) else AsClient_loop env k client
   }"

text \<open>\<open>test_socket\<close>: what is run for the command line; the text it prints at the end.\<close>

definition usage_text :: string where
  "usage_text = ''usage:'' @ endl @ tab @ ''server: socket s'' @ endl @ tab @ ''client: socket c'' @ endl"

definition test_socket :: "env \<Rightarrow> nat \<Rightarrow> string list \<Rightarrow> string io" where
  "test_socket env k args =
     (if length args \<noteq> 2 then return usage_text
      else let a = args ! 1; c0 = (if a = [] then NUL else hd a) in do {
        (iRet, text) \<leftarrow>
          (if c0 = CHR ''c'' then do { r \<leftarrow> AsClient env k;
             return (case r of None \<Rightarrow> 0 | Some i \<Rightarrow> i, []) }
           else if c0 = CHR ''s'' then do { r \<leftarrow> AsServer env k;
             return (case r of Inl i \<Rightarrow> i | Inr _ \<Rightarrow> 0, []) }
           else return (0, usage_text));
        return (if iRet \<noteq> 0 then text @ ''socket exec as ['' @ a @ ''] failed...'' @ endl else text)
      })"

section \<open>The table of clients\<close>

definition live :: "int list \<Rightarrow> int multiset" where
  "live cs = mset (filter (\<lambda>c. c > 0) cs)"

lemma live_simps [simp]:
  "live [] = {#}" "live (c # cs) = (if c > 0 then add_mset c (live cs) else live cs)"
  by (simp_all add: live_def)

lemma put_client_live: "put_client fd cs = Some cs' \<Longrightarrow> 0 < fd \<Longrightarrow> live cs' = add_mset fd (live cs)"
  by (induction cs arbitrary: cs') (auto split: if_splits)

lemma put_client_length: "put_client fd cs = Some cs' \<Longrightarrow> length cs' = length cs"
  by (induction cs arbitrary: cs') (auto split: if_splits)

lemma put_client_full: "put_client fd cs = None \<longleftrightarrow> (\<forall>c\<in>set cs. 0 < c)"
  by (induction cs) (auto simp: not_le)

text \<open>\<open>accept\<close> never returns descriptor 0 (which the server takes for an error).\<close>

definition accepts_ok :: "env \<Rightarrow> bool" where
  "accepts_ok env \<longleftrightarrow> (\<forall>t fd. ret (env t (Accept fd)) \<noteq> 0)"

lemma take_client_ok:
  assumes "run_state (take_client env server cs) t = ((go, server', cs'), t')"
    and "accepts_ok env"
  shows "length cs' = length cs" "open_fds t' + live cs = open_fds t + live cs'"
    "writes t' = writes t"
proof -
  have *: "ret (env t (Accept (m_iOldSocketId server))) \<noteq> 0" using assms(2) by (simp add: accepts_ok_def)
  show "length cs' = length cs" "open_fds t' + live cs = open_fds t + live cs'" "writes t' = writes t"
    using assms(1) *
    by (auto simp: take_client_def ms_Accept_def put_client_length put_client_live
      split: if_splits option.splits)
qed

lemma serve_slot_ok:
  assumes "run_state (serve_slot env ready c) t = (c', t')" "live [c] \<subseteq># open_fds t"
  shows "c' = c \<or> c' = - 1" "open_fds t' + live [c] = open_fds t + live [c']"
  using assms
  by (auto simp: serve_slot_def ms_Read_from_def ms_Write_to_def insert_DiffM
    split: if_splits prod.splits)

lemma serve_slots_ok:
  "run_state (serve_slots env ready cs) t = (cs', t') \<Longrightarrow> live cs \<subseteq># open_fds t \<Longrightarrow>
   length cs' = length cs \<and> open_fds t' + live cs = open_fds t + live cs'"
proof (induction cs arbitrary: t cs' t')
  case (Cons c cs)
  obtain c1 t1 where 1: "run_state (serve_slot env ready c) t = (c1, t1)" by (metis prod.exhaust)
  obtain cs1 where 2: "run_state (serve_slots env ready cs) t1 = (cs1, t')" "cs' = c1 # cs1"
    using Cons.prems(1) 1 by (auto split: prod.splits)
  have l: "live (c # cs) = live [c] + live cs" "live cs' = live [c1] + live cs1"
    using 2(2) by simp_all
  then have sub: "live [c] \<subseteq># open_fds t" using Cons.prems(2) by (metis mset_subset_eq_add_left subset_mset.order_trans)
  have o1: "open_fds t1 + live [c] = open_fds t + live [c1]"
    using serve_slot_ok [OF 1 sub] by simp
  have "live cs \<subseteq># open_fds t1"
  proof -
    have "live [c] + live cs \<subseteq># open_fds t1 + live [c]"
      unfolding o1 using Cons.prems(2) l(1) by (simp add: subset_mset.add_increasing2)
    then show ?thesis by (simp add: union_commute)
  qed
  then have o2: "length cs1 = length cs" "open_fds t' + live cs = open_fds t1 + live cs1"
    using Cons.IH [OF 2(1)] by simp_all
  have "open_fds t' + live (c # cs) = open_fds t + live cs'"
    unfolding l using o1 o2(2) by (metis union_assoc union_commute union_lcomm)
  then show ?case using o2(1) 2(2) by simp
qed simp

lemma AsServer_iter_ok:
  assumes "run_state (AsServer_iter env sid (server, cs)) t = ((server', cs'), t')"
    and "accepts_ok env" "open_fds t = add_mset sid (live cs)"
  shows "length cs' = length cs \<and> open_fds t' = add_mset sid (live cs')"
proof -
  define r where "r = env t (Select (sid # filter (\<lambda>c. c > 0) cs))"
  define ready where "ready = map fst (evs r)"
  let ?t1 = "(Select (sid # filter (\<lambda>c. c > 0) cs), r) # t"
  obtain go server1 cs1 t2 where 2: "run_state (if sid \<in> set ready then take_client env server cs
      else return (True, server, cs)) ?t1 = ((go, server1, cs1), t2)"
    by (metis prod.exhaust)
  have o2: "length cs1 = length cs" "open_fds t2 + live cs = open_fds ?t1 + live cs1"
    using 2 take_client_ok(1,2) [OF _ assms(2)] by (auto split: if_splits)
  then have o2': "open_fds t2 = add_mset sid (live cs1)"
    using assms(3) by simp
  have run: "(if \<not> go then ((server1, cs1), t2)
      else run_state (do { cs2 \<leftarrow> serve_slots env ready cs1; _ \<leftarrow> sys env (Sleep 1);
             return (server1, cs2) }) t2) = ((server', cs'), t')"
    using assms(1) 2 by (auto simp: AsServer_iter_def r_def ready_def Let_def split: if_splits)
  show ?thesis
  proof (cases go)
    case False
    then show ?thesis using run o2 o2' by simp
  next
    case True
    then obtain t3 where 3: "run_state (serve_slots env ready cs1) t2 = (cs', t3)"
      "t' = (Sleep 1, env t3 (Sleep 1)) # t3"
      using run by (auto split: prod.splits)
    have "live cs1 \<subseteq># open_fds t2" using o2' by simp
    then have "length cs' = length cs1" "open_fds t3 + live cs1 = open_fds t2 + live cs'"
      using serve_slots_ok [OF 3(1)] by simp_all
    then show ?thesis using o2(1) o2' 3(2) by simp
  qed
qed

lemma AsServer_loop_ok:
  "run_state (AsServer_loop env sid k (server, cs)) t = ((server', cs'), t') \<Longrightarrow>
   accepts_ok env \<Longrightarrow> open_fds t = add_mset sid (live cs) \<Longrightarrow>
   length cs' = length cs \<and> open_fds t' = add_mset sid (live cs')"
proof (induction k arbitrary: server cs t)
  case (Suc k)
  obtain server1 cs1 t1 where 1: "run_state (AsServer_iter env sid (server, cs)) t = ((server1, cs1), t1)"
    by (metis prod.exhaust)
  then have "run_state (AsServer_loop env sid k (server1, cs1)) t1 = ((server', cs'), t')"
    using Suc.prems(1) by simp
  then show ?case
    using Suc.IH [of server1 cs1 t1] AsServer_iter_ok [OF 1 Suc.prems(2,3)] Suc.prems(2) by auto
qed simp

section \<open>Properties\<close>

text \<open>
  C15: the server never leaks or double-closes a descriptor: at every moment (after any number
  of iterations, for any behaviour of the clients and of \<open>select\<close>) exactly the listening
  socket and the clients in its five slots are open.
\<close>

theorem server_descriptors:
  assumes "accepts_ok env"
    and "run_state (AsServer env k) [] = (Inr (sid, server, cs), t)"
  shows "length cs = CONNECT_NUM \<and> open_fds t = add_mset sid (live cs)"
proof -
  obtain sid' server0 t0 where l: "run_state (ms_Listen env SERVER_IP SERVER_PORT (int CONNECT_NUM)
      MySocket_new) [] = ((sid', server0), t0)" by (metis prod.exhaust)
  then have pos: "0 < sid'" "sid' = sid"
    "run_state (AsServer_loop env sid k (server0, replicate CONNECT_NUM 0)) t0 = ((server, cs), t)"
    using assms(2) by (auto simp: AsServer_def split: if_splits prod.splits)
  have "open_fds t0 = add_mset sid (live (replicate CONNECT_NUM 0))"
    using l pos(1,2) by (auto simp: ms_Listen_def live_def split: if_splits)
  then show ?thesis using AsServer_loop_ok [OF pos(3) assms(1)] by simp
qed

text \<open>An environment with one client that connects and asks.\<close>

definition one_client_env :: env where
  "one_client_env t c = (case c of
     Select fds \<Rightarrow> \<lparr>ret = 1, data = [], evs = map (\<lambda>fd. (fd, 1)) fds\<rparr>
   | Accept _ \<Rightarrow> \<lparr>ret = 4 + int (length t), data = [], evs = []\<rparr>
   | Read _ _ \<Rightarrow> \<lparr>ret = 12, data = ''ARE YOU OK ?'', evs = []\<rparr>
   | _ \<Rightarrow> \<lparr>ret = 3, data = [], evs = []\<rparr>)"

lemma one_client_listen:
  "\<exists>server cs t. run_state (AsServer one_client_env k) [] = (Inr (3, server, cs), t)"
proof -
  have "\<exists>server t. run_state (ms_Listen one_client_env SERVER_IP SERVER_PORT (int CONNECT_NUM)
      MySocket_new) [] = ((3, server), t)"
    by (simp add: ms_Listen_def one_client_env_def)
  then show ?thesis by (auto simp: AsServer_def split: prod.splits)
qed

theorem server_descriptors_witness:
  "\<exists>server cs t. run_state (AsServer one_client_env 4) [] = (Inr (3, server, cs), t) \<and>
    length cs = CONNECT_NUM \<and> open_fds t = add_mset 3 (live cs)"
proof -
  obtain server cs t where r: "run_state (AsServer one_client_env 4) [] = (Inr (3, server, cs), t)"
    using one_client_listen by blast
  have "accepts_ok one_client_env" by (simp add: accepts_ok_def one_client_env_def)
  then show ?thesis using server_descriptors [OF _ r] r by blast
qed

text \<open>
  A connection that arrives when all five slots are taken is closed at once and changes
  no slot; otherwise it gets a free slot.
\<close>

theorem sixth_client_closed:
  assumes "0 < ret (env t (Accept (m_iOldSocketId server)))"
  shows "\<exists>cs' t'. run_state (take_client env server cs) t =
      ((True, server\<lparr>m_iSocketId := ret (env t (Accept (m_iOldSocketId server)))\<rparr>, cs'), t') \<and>
    (if \<forall>c\<in>set cs. 0 < c then cs' = cs \<and> open_fds t' = open_fds t
     else live cs' = add_mset (ret (env t (Accept (m_iOldSocketId server)))) (live cs))"
proof (cases "put_client (ret (env t (Accept (m_iOldSocketId server)))) cs")
  case None
  then have "\<forall>c\<in>set cs. 0 < c" by (simp add: put_client_full)
  then show ?thesis using None assms by (simp add: take_client_def ms_Accept_def)
next
  case (Some cs')
  then have "\<not> (\<forall>c\<in>set cs. 0 < c)" by (metis put_client_full option.distinct(1))
  then show ?thesis
    using Some assms put_client_live [OF Some] by (simp add: take_client_def ms_Accept_def)
qed

theorem sixth_client_closed_witness:
  "\<exists>t'. run_state (take_client one_client_env MySocket_new [5, 6, 7, 8, 9]) [] =
     ((True, \<lparr>m_iSocketId = 4, m_iOldSocketId = - 1\<rparr>, [5, 6, 7, 8, 9]), t')"
  using sixth_client_closed [of one_client_env "[]" MySocket_new "[5, 6, 7, 8, 9]"]
  by (auto simp: one_client_env_def MySocket_new_def)

end
