(* ===== verification/PriorityQueue.thy ===== *)
theory PriorityQueue
  imports Prelude
begin

text \<open>
  The contract between a bounded priority queue and its clients: what the bag of the
  queue becomes after an insertion and after an extraction, as long as the queue holds
  fewer than \<open>room\<close> items. The client inserts a list of values and then drains the
  queue; it reads the values back in ascending order.
\<close>

fun fill :: "('a \<Rightarrow> 'q \<Rightarrow> 'q res) \<Rightarrow> 'a list \<Rightarrow> 'q \<Rightarrow> 'q res" where
  "fill add [] q = Inr q"
| "fill add (x # xs) q = bindE (add x q) (fill add xs)"

fun drain :: "('q \<Rightarrow> ('a \<times> 'q) res) \<Rightarrow> nat \<Rightarrow> 'q \<Rightarrow> ('a list \<times> 'q) res" where
  "drain pop 0 q = Inr ([], q)"
| "drain pop (Suc n) q =
     bindE (pop q) (\<lambda>(x, q'). bindE (drain pop n q') (\<lambda>(xs, q''). Inr (x # xs, q'')))"

locale bounded_pq =
  fixes new :: "'q"
    and add :: "'a::linorder \<Rightarrow> 'q \<Rightarrow> 'q res"
    and pop :: "'q \<Rightarrow> ('a \<times> 'q) res"
    and inv :: "'q \<Rightarrow> bool"
    and bag :: "'q \<Rightarrow> 'a multiset"
    and room :: nat
  assumes new_inv: "inv new"
    and new_bag: "bag new = {#}"
    and add_ok: "inv q \<Longrightarrow> size (bag q) < room \<Longrightarrow>
      \<exists>q'. add x q = Inr q' \<and> inv q' \<and> bag q' = add_mset x (bag q)"
    and pop_ok: "inv q \<Longrightarrow> size (bag q) \<le> room \<Longrightarrow> bag q \<noteq> {#} \<Longrightarrow>
      \<exists>q'. pop q = Inr (Min_mset (bag q), q') \<and> inv q' \<and>
           bag q' = bag q - {#Min_mset (bag q)#}"
begin

lemma fill_ok:
  "inv q \<Longrightarrow> size (bag q) + length xs \<le> room \<Longrightarrow>
   \<exists>q'. fill add xs q = Inr q' \<and> inv q' \<and> bag q' = bag q + mset xs"
proof (induction xs arbitrary: q)
  case Nil
  then show ?case by simp
next
  case (Cons x xs)
  from Cons.prems obtain q1 where q1: "add x q = Inr q1" "inv q1"
    "bag q1 = add_mset x (bag q)"
    using add_ok [of q x] by auto
  then obtain q' where "fill add xs q1 = Inr q'" "inv q'" "bag q' = bag q1 + mset xs"
    using Cons.IH [of q1] Cons.prems by auto
  with q1 show ?case by simp
qed

lemma drain_ok:
  "inv q \<Longrightarrow> size (bag q) \<le> room \<Longrightarrow> n = size (bag q) \<Longrightarrow>
   \<exists>xs q'. drain pop n q = Inr (xs, q') \<and> inv q' \<and> bag q' = {#} \<and>
           sorted xs \<and> mset xs = bag q"
proof (induction n arbitrary: q)
  case 0
  then show ?case by simp
next
  case (Suc n)
  then have ne: "bag q \<noteq> {#}" by auto
  let ?m = "Min_mset (bag q)"
  from ne have m: "?m \<in># bag q" by simp
  obtain q1 where q1: "pop q = Inr (?m, q1)" "inv q1" "bag q1 = bag q - {#?m#}"
    using pop_ok [of q] Suc.prems ne by auto
  then have "n = size (bag q1)"
    using Suc.prems(3) m by (simp add: size_Diff_singleton)
  then obtain xs q' where *: "drain pop n q1 = Inr (xs, q')" "inv q'" "bag q' = {#}"
    "sorted xs" "mset xs = bag q1"
    using Suc.IH [of q1] q1 Suc.prems m by (auto simp: size_Diff_singleton)
  have "\<forall>x \<in> set xs. ?m \<le> x"
  proof
    fix x assume "x \<in> set xs"
    then have "x \<in># bag q"
      using *(5) q1(3) by (metis in_diffD set_mset_mset)
    then show "?m \<le> x" by simp
  qed
  with * q1 m show ?case by simp
qed

lemma fill_drain_sorts:
  assumes "length xs \<le> room"
  shows "\<exists>q q'. fill add xs new = Inr q \<and> drain pop (length xs) q = Inr (sort xs, q')"
proof -
  obtain q where q: "fill add xs new = Inr q" "inv q" "bag q = mset xs"
    using fill_ok [of new xs] assms new_inv new_bag by auto
  then obtain ys q' where "drain pop (length xs) q = Inr (ys, q')" "sorted ys" "mset ys = mset xs"
    using drain_ok [of q "length xs"] assms by (metis size_mset)
  then show ?thesis
    using q(1) by (metis properties_for_sort)
qed

end

end
