(* ===== verification/MinHeap.thy ===== *)
theory MinHeap
  imports PriorityQueue
begin

text \<open>
  The class \<open>MinHeap\<close> of \<^verbatim>\<open>src/wzq_study/minHeap.h\<close>: a binary heap in a growing array.
  \<open>pContent\<close> is \<open>None\<close> for the NULL pointer, and \<open>Some\<close> of the array it points at
  otherwise; \<open>iSize\<close> and \<open>iCapacity\<close> are the two counters of the class, which never
  become negative without an undefined behaviour first.
\<close>

record MinHeap =
  iSize :: nat
  iCapacity :: nat
  pContent :: "int list option"

definition MinHeap_new :: MinHeap where
  "MinHeap_new = \<lparr>iSize = 0, iCapacity = 0, pContent = None\<rparr>"

text \<open>The destructor.\<close>

definition MinHeap_delete :: "MinHeap \<Rightarrow> MinHeap" where
  "MinHeap_delete h = h\<lparr>iSize := 0, iCapacity := 0, pContent := None\<rparr>"

text \<open>
  \<open>reserver\<close>: a zeroed array of \<open>2 * iSize + 1\<close> cells, the \<open>iCapacity\<close> old cells copied
  to its front by \<open>memcpy\<close> (which must not run past either array).
\<close>

definition reserver :: "MinHeap \<Rightarrow> MinHeap res" where
  "reserver h =
     (if iSize h + 1 \<le> iCapacity h then Inr h
      else bindE (ckn (2 * iSize h + 1)) (\<lambda>cap.
        let fresh = replicate cap 0 in
        case pContent h of
          None \<Rightarrow> Inr (h\<lparr>iCapacity := cap, pContent := Some fresh\<rparr>)
        | Some c \<Rightarrow>
            if iCapacity h \<le> length c \<and> iCapacity h \<le> cap
            then Inr (h\<lparr>iCapacity := cap,
                   pContent := Some (take (iCapacity h) c @ drop (iCapacity h) fresh)\<rparr>)
            else Inl OutOfBounds))"

text \<open>The loop of \<open>addItem\<close>: from the new cell up to the root, without an early exit.\<close>

function sift_up :: "int list \<Rightarrow> nat \<Rightarrow> int list res" where
  "sift_up c j =
     (if j = 0 then Inr c
      else let i = (j - 1) div 2 in
        bindE (rd c j) (\<lambda>x. bindE (rd c i) (\<lambda>y.
          sift_up (if x < y then swap_at c j i else c) i)))"
  by pat_completeness auto
termination
  by (relation "measure snd") auto

definition addItem :: "int \<Rightarrow> MinHeap \<Rightarrow> MinHeap res" where
  "addItem v h0 =
     bindE (if iSize h0 + 1 > iCapacity h0 then reserver h0 else Inr h0) (\<lambda>h.
       case pContent h of
         None \<Rightarrow> Inl NullDeref
       | Some c \<Rightarrow>
           bindE (wr c (iSize h) v) (\<lambda>c1.
           bindE (ckn (iSize h + 1)) (\<lambda>n.
           bindE (sift_up c1 (n - 1)) (\<lambda>c2.
             Inr (h\<lparr>iSize := n, pContent := Some c2\<rparr>)))))"

text \<open>
  \<open>refactor\<close>: the smallest of a cell and its two children goes on top, then the
  recursion follows the child that was swapped. The children are compared with
  \<open>child <= iSize\<close>, so the cell just behind the heap is read as well.
\<close>

definition smaller :: "int list \<Rightarrow> nat \<Rightarrow> nat \<Rightarrow> nat \<Rightarrow> nat res" where
  "smaller c n child small =
     (if child \<le> n
      then bindE (rd c child) (\<lambda>x. bindE (rd c small) (\<lambda>y.
             Inr (if x < y then child else small)))
      else Inr small)"

lemma smaller_cases: "smaller c n child small = Inr s \<Longrightarrow> s = small \<or> s = child \<and> child \<le> n"
  by (auto simp: smaller_def res_simps split: if_splits)

function refactor :: "int list \<Rightarrow> nat \<Rightarrow> nat \<Rightarrow> int list res" where
  "refactor c n index =
     bindE (ckn (index * 2 + 2)) (\<lambda>rChild.
     bindE (smaller c n (index * 2 + 1) index) (\<lambda>small1.
     bindE (smaller c n rChild small1) (\<lambda>small.
       if small \<noteq> index then refactor (swap_at c small index) n small
       else Inr c)))"
  by pat_completeness auto
termination
proof (relation "measure (\<lambda>(c, n, index). Suc n - index)")
  fix c :: "int list" and n index r s1 s
  assume a: "ckn (index * 2 + 2) = Inr r" "smaller c n (index * 2 + 1) index = Inr s1"
    "smaller c n r s1 = Inr s" "s \<noteq> index"
  have "r = index * 2 + 2"
    using a(1) by (simp add: ckn_def split: if_splits)
  then have "index < s \<and> s \<le> n"
    using smaller_cases [OF a(2)] smaller_cases [OF a(3)] a(4) by auto
  then show "((swap_at c s index, n, s), c, n, index)
      \<in> measure (\<lambda>(c, n, index). Suc n - index)"
    by simp linarith
qed simp

text \<open>
  \<open>topItem\<close>: the result is the root, or \<open>-1\<close> for an empty heap; the last cell then
  replaces the root, and this happens for an empty heap as well.
\<close>

definition topItem :: "MinHeap \<Rightarrow> (int \<times> MinHeap) res" where
  "topItem h =
     (case pContent h of
        None \<Rightarrow> Inl NullDeref
      | Some c \<Rightarrow>
          bindE (if iSize h > 0 then rd c 0 else Inr (- 1)) (\<lambda>top.
            if iSize h = 0 then Inl OutOfBounds
            else bindE (rd c (iSize h - 1)) (\<lambda>x.
              bindE (wr c 0 x) (\<lambda>c1.
              bindE (refactor c1 (iSize h - 1) 0) (\<lambda>c2.
                Inr (top, h\<lparr>iSize := iSize h - 1, pContent := Some c2\<rparr>))))))"

text \<open>
  \<open>display\<close>: one line per level of the tree; \<open>k\<close> counts the cells of the level and \<open>a\<close> is
  the level's width.
\<close>

fun display_cells :: "int list \<Rightarrow> nat \<Rightarrow> nat \<Rightarrow> string" where
  "display_cells [] k a = endl"
| "display_cells (x # xs) k a =
     tab @ show_int x @
     (if k + 1 = a then endl @ display_cells xs 0 (2 * a) else display_cells xs (k + 1) a)"

definition MinHeap_display :: "MinHeap \<Rightarrow> string res" where
  "MinHeap_display h =
     (if iSize h = 0 then Inr endl
      else case pContent h of
        None \<Rightarrow> Inl NullDeref
      | Some c \<Rightarrow> if iSize h \<le> length c then Inr (display_cells (take (iSize h) c) 0 1)
                  else Inl OutOfBounds)"

definition testMinHeap :: "string res" where
  "testMinHeap =
     bindE (fill addItem [15, 11, 22, 10, 8, 9, 4, 12, 3, 19] MinHeap_new) (\<lambda>h.
     bindE (MinHeap_display h) (\<lambda>o1.
     bindE (topItem h) (\<lambda>(t1, h1).
     bindE (MinHeap_display h1) (\<lambda>o2.
     bindE (topItem h1) (\<lambda>(t2, h2).
     bindE (MinHeap_display h2) (\<lambda>o3.
       Inr (o1 @ show_int t1 @ endl @ o2 @ show_int t2 @ endl @ o3)))))))"

declare sift_up.simps [simp del] refactor.simps [simp del]


section \<open>The heap property\<close>

definition cells :: "MinHeap \<Rightarrow> int list" where
  "cells h = (case pContent h of None \<Rightarrow> [] | Some c \<Rightarrow> c)"

definition parent :: "nat \<Rightarrow> nat" where
  "parent k = (k - 1) div 2"

lemma parent_less: "0 < k \<Longrightarrow> parent k < k"
  by (simp add: parent_def)

lemma parent_eq: "0 < k \<Longrightarrow> parent k = i \<longleftrightarrow> k = 2 * i + 1 \<or> k = 2 * i + 2"
  unfolding parent_def by presburger

definition is_heap :: "nat \<Rightarrow> int list \<Rightarrow> bool" where
  "is_heap n c \<longleftrightarrow> (\<forall>k<n. 0 < k \<longrightarrow> c ! parent k \<le> c ! k)"

definition heap_inv :: "MinHeap \<Rightarrow> bool" where
  "heap_inv h \<longleftrightarrow> length (cells h) = iCapacity h \<and> iSize h \<le> iCapacity h \<and>
     is_heap (iSize h) (cells h)"

definition bag_of :: "MinHeap \<Rightarrow> int multiset" where
  "bag_of h = mset (take (iSize h) (cells h))"

lemma heap_inv_new: "heap_inv MinHeap_new" "bag_of MinHeap_new = {#}"
  by (simp_all add: heap_inv_def MinHeap_new_def cells_def is_heap_def bag_of_def)

lemma size_bag_of: "heap_inv h \<Longrightarrow> size (bag_of h) = iSize h"
  by (simp add: heap_inv_def bag_of_def)

lemma is_heap_root: "is_heap n c \<Longrightarrow> k < n \<Longrightarrow> c ! 0 \<le> c ! k"
proof (induction k rule: less_induct)
  case (less k)
  show ?case
  proof (cases "k = 0")
    case False
    then have "parent k < k" by (simp add: parent_less)
    with less have "c ! 0 \<le> c ! parent k" by simp
    also have "\<dots> \<le> c ! k" using less.prems False by (simp add: is_heap_def)
    finally show ?thesis .
  qed simp
qed

text \<open>
  While a cell moves up, the order may only be broken between that cell and its parent,
  and the cell's children respect its parent.
\<close>

definition up_inv :: "int list \<Rightarrow> nat \<Rightarrow> nat \<Rightarrow> bool" where
  "up_inv c n j \<longleftrightarrow>
     (\<forall>k<n. 0 < k \<longrightarrow> k \<noteq> j \<longrightarrow> c ! parent k \<le> c ! k) \<and>
     (0 < j \<longrightarrow> (\<forall>k<n. 0 < k \<longrightarrow> parent k = j \<longrightarrow> c ! parent j \<le> c ! k))"

lemma up_inv_root: "up_inv c n 0 \<Longrightarrow> is_heap n c"
  by (simp add: up_inv_def is_heap_def)

lemma up_inv_swap:
  assumes inv: "up_inv c n j" and j: "0 < j" "j < n" and n: "n \<le> length c"
    and i: "i = parent j" and less: "c ! j < c ! i"
  shows "up_inv (swap_at c j i) n i"
proof -
  have ij: "i < j" using i j by (simp add: parent_less)
  have len: "j < length c" "i < length c" using ij j n by simp_all
  have ord: "c ! parent k \<le> c ! k" if "k < n" "0 < k" "k \<noteq> j" for k
    using inv that by (simp add: up_inv_def)
  have kids: "c ! i \<le> c ! k" if "k < n" "0 < k" "parent k = j" for k
    using inv that j i by (simp add: up_inv_def)
  note nth = nth_swap_at [OF len]
  show ?thesis
    unfolding up_inv_def
  proof (intro conjI allI impI)
    fix k assume k: "k < n" "0 < k" "k \<noteq> i"
    consider "k = j" | "k \<noteq> j" "parent k = j" | "k \<noteq> j" "parent k = i"
      | "k \<noteq> j" "parent k \<noteq> j" "parent k \<noteq> i" by blast
    then show "swap_at c j i ! parent k \<le> swap_at c j i ! k"
    proof cases
      case 1
      then show ?thesis using less ij by (simp add: nth i [symmetric])
    next
      case 2
      then show ?thesis using kids [of k] k ij by (simp add: nth i [symmetric])
    next
      case 3
      then show ?thesis using ord [of k] k less j n ij by (simp add: nth)
    next
      case 4
      then show ?thesis using ord [of k] k j n ij by (simp add: nth)
    qed
  next
    fix k assume k: "0 < i" "k < n" "0 < k" "parent k = i"
    have "c ! parent i \<le> c ! i" using ord [of i] k ij j by simp
    moreover have "parent i < i" using k by (simp add: parent_less)
    moreover have "k \<noteq> j \<Longrightarrow> c ! i \<le> c ! k" using ord [of k] k by simp
    moreover have "k \<noteq> i" using k parent_less [of k] by auto
    ultimately show "swap_at c j i ! parent i \<le> swap_at c j i ! k"
      using k j n ij by (auto simp: nth)
  qed
qed

lemma up_inv_keep:
  assumes inv: "up_inv c n j" and j: "0 < j" "j < n"
    and i: "i = parent j" and le: "\<not> c ! j < c ! i"
  shows "up_inv c n i"
proof -
  have ord: "c ! parent k \<le> c ! k" if "k < n" "0 < k" for k
    using inv that i le by (cases "k = j") (auto simp: up_inv_def)
  have "c ! parent i \<le> c ! k" if "0 < i" "k < n" "0 < k" "parent k = i" for k
    using ord [of i] ord [of k] that j i by (metis less_trans order_trans parent_less)
  with ord show ?thesis by (auto simp: up_inv_def)
qed

lemma sift_up_ok:
  "j < n \<Longrightarrow> n \<le> length c \<Longrightarrow> up_inv c n j \<Longrightarrow>
   \<exists>c'. sift_up c j = Inr c' \<and> length c' = length c \<and>
        mset (take n c') = mset (take n c) \<and> is_heap n c'"
proof (induction c j rule: sift_up.induct)
  case (1 c j)
  show ?case
  proof (cases "j = 0")
    case True
    with "1.prems" show ?thesis
      by (simp add: sift_up.simps [of c 0] up_inv_root)
  next
    case False
    define i where "i = parent j"
    have i: "i < n" "i < j" using "1.prems" False parent_less [of j] by (simp_all add: i_def)
    have i': "(j - Suc 0) div 2 = i" "(j - 1) div 2 = i" by (simp_all add: i_def parent_def)
    define c1 where "c1 = (if c ! j < c ! i then swap_at c j i else c)"
    have step: "sift_up c j = sift_up c1 i"
      using False "1.prems" i by (simp add: sift_up.simps [of c j] i' c1_def Let_def)
    have "up_inv c1 n i"
      using up_inv_swap [OF "1.prems"(3) _ "1.prems"(1,2) i_def]
        up_inv_keep [OF "1.prems"(3) _ "1.prems"(1) i_def] False
      by (simp add: c1_def)
    moreover have "length c1 = length c" "mset (take n c1) = mset (take n c)"
      using "1.prems" i by (simp_all add: c1_def)
    moreover have "\<exists>c'. sift_up c1 i = Inr c' \<and> length c' = length c1 \<and>
        mset (take n c') = mset (take n c1) \<and> is_heap n c'"
      if "up_inv c1 n i" "length c1 = length c"
      using "1.IH" [OF False refl, of "c ! j" "c ! i"] that "1.prems" i
      unfolding i' c1_def [symmetric] by simp
    ultimately show ?thesis by (simp add: step)
  qed
qed


section \<open>Sifting down\<close>

text \<open>
  While a value moves down, the order may only be broken between it and its children, and
  the children respect its parent. The stale cell behind the heap holds the moving value,
  so reading it (\<open>child <= iSize\<close>) never makes it the smallest of the three.
\<close>

definition down_inv :: "int list \<Rightarrow> nat \<Rightarrow> nat \<Rightarrow> bool" where
  "down_inv c n i \<longleftrightarrow>
     (\<forall>k<n. 0 < k \<longrightarrow> parent k \<noteq> i \<longrightarrow> c ! parent k \<le> c ! k) \<and>
     (0 < i \<longrightarrow> (\<forall>k<n. 0 < k \<longrightarrow> parent k = i \<longrightarrow> c ! parent i \<le> c ! k))"

lemma smaller_ok:
  "n < length c \<Longrightarrow> small < length c \<Longrightarrow>
   smaller c n child small =
     Inr (if child \<le> n \<and> c ! child < c ! small then child else small)"
  by (simp add: smaller_def)

definition smallest :: "int list \<Rightarrow> nat \<Rightarrow> nat \<Rightarrow> nat" where
  "smallest c n i =
     (let l = 2 * i + 1; r = 2 * i + 2;
          s = (if l \<le> n \<and> c ! l < c ! i then l else i)
      in if r \<le> n \<and> c ! r < c ! s then r else s)"

lemma refactor_step:
  "n < length c \<Longrightarrow> i \<le> n \<Longrightarrow> 2 * n + 2 \<le> nat INT_MAX \<Longrightarrow>
   refactor c n i =
     (let s = smallest c n i in
      if s \<noteq> i then refactor (swap_at c s i) n s else Inr c)"
  by (simp add: refactor.simps [of c n i] smaller_ok smallest_def Let_def mult.commute)

lemma smallest_props:
  assumes "c ! n = c ! i" "i \<le> n" and s: "s = smallest c n i"
  shows "s = i \<or> (s = 2 * i + 1 \<or> s = 2 * i + 2) \<and> s < n \<and> c ! s < c ! i"
    and "k = 2 * i + 1 \<or> k = 2 * i + 2 \<Longrightarrow> k < n \<Longrightarrow> c ! s \<le> c ! k"
  using assms by (auto simp: smallest_def Let_def le_less split: if_splits)

lemma down_inv_swap:
  assumes inv: "down_inv c n i" and n: "n < length c"
    and s: "s = 2 * i + 1 \<or> s = 2 * i + 2" "s < n" "c ! s < c ! i"
    and least: "\<And>k. k = 2 * i + 1 \<or> k = 2 * i + 2 \<Longrightarrow> k < n \<Longrightarrow> c ! s \<le> c ! k"
  shows "down_inv (swap_at c s i) n s"
proof -
  have si: "i < s" "parent s = i" "s \<noteq> 0" using s(1) parent_eq [of s i] by auto
  have len: "s < length c" "i < length c" using n s(2) si by simp_all
  note nth = nth_swap_at [OF len]
  have ord: "c ! parent k \<le> c ! k" if "k < n" "0 < k" "parent k \<noteq> i" for k
    using inv that by (simp add: down_inv_def)
  have up: "c ! parent i \<le> c ! s" if "0 < i"
    using inv that s(2) si by (simp add: down_inv_def)
  show ?thesis
    unfolding down_inv_def
  proof (intro conjI allI impI)
    fix k assume k: "k < n" "0 < k" "parent k \<noteq> s"
    consider "k = s" | "k \<noteq> s" "parent k = i" | "k = i" | "k \<noteq> s" "k \<noteq> i" "parent k \<noteq> i"
      by blast
    then show "swap_at c s i ! parent k \<le> swap_at c s i ! k"
    proof cases
      case 1
      then show ?thesis using s(3) si by (simp add: nth)
    next
      case 2
      then have "k = 2 * i + 1 \<or> k = 2 * i + 2" using parent_eq [of k i] k by simp
      then show ?thesis using 2 least [of k] k s(3) si by (auto simp: nth)
    next
      case 3
      then show ?thesis using up k si s(3) parent_less [of i] by (simp add: nth)
    next
      case 4
      then show ?thesis using ord [of k] k by (simp add: nth)
    qed
  next
    fix k assume k: "0 < s" "k < n" "0 < k" "parent k = s"
    then have "k \<noteq> i" "k \<noteq> s" using parent_less [of k] si by auto
    then show "swap_at c s i ! parent s \<le> swap_at c s i ! k"
      using ord [of k] k si by (simp add: nth)
  qed
qed

lemma down_inv_done:
  assumes inv: "down_inv c n i"
    and least: "\<And>k. k = 2 * i + 1 \<or> k = 2 * i + 2 \<Longrightarrow> k < n \<Longrightarrow> c ! i \<le> c ! k"
  shows "is_heap n c"
  unfolding is_heap_def
proof (intro allI impI)
  fix k assume k: "k < n" "0 < k"
  show "c ! parent k \<le> c ! k"
    using inv least [of k] k parent_eq [of k i] by (cases "parent k = i") (auto simp: down_inv_def)
qed

lemma refactor_ok:
  "n < length c \<Longrightarrow> i \<le> n \<Longrightarrow> 2 * n + 2 \<le> nat INT_MAX \<Longrightarrow> c ! n = c ! i \<Longrightarrow>
   down_inv c n i \<Longrightarrow>
   \<exists>c'. refactor c n i = Inr c' \<and> length c' = length c \<and>
        mset (take n c') = mset (take n c) \<and> is_heap n c'"
proof (induction "Suc n - i" arbitrary: c i rule: less_induct)
  case less
  define s where "s = smallest c n i"
  note props = smallest_props [OF less.prems(4,2) s_def]
  show ?case
  proof (cases "s = i")
    case True
    then have "is_heap n c"
      using down_inv_done [OF less.prems(5)] props(2) by simp
    then show ?thesis
      using True refactor_step [OF less.prems(1-3)] by (simp add: s_def)
  next
    case False
    then have s: "s = 2 * i + 1 \<or> s = 2 * i + 2" "s < n" "c ! s < c ! i"
      using props(1) by auto
    have "i < s" using s(1) by auto
    let ?c = "swap_at c s i"
    have "down_inv ?c n s"
      by (rule down_inv_swap [OF less.prems(5,1) s props(2)])
    moreover have "?c ! n = ?c ! s"
      using s \<open>i < s\<close> less.prems by (simp add: nth_swap_at)
    ultimately have "\<exists>c'. refactor ?c n s = Inr c' \<and> length c' = length ?c \<and>
        mset (take n c') = mset (take n ?c) \<and> is_heap n c'"
      using less.hyps [of s ?c] s \<open>i < s\<close> less.prems(1,3) by simp
    then show ?thesis
      using refactor_step [OF less.prems(1-3)] False s \<open>i < s\<close> less.prems(1)
      by (simp add: s_def Let_def)
  qed
qed


section \<open>The operations\<close>

definition heap_room :: nat where
  "heap_room = 1073741823"

lemma heap_room_INT_MAX: "2 * heap_room + 1 = nat INT_MAX"
  by (simp add: heap_room_def INT_MAX_def)

lemma reserver_eq: "(if iSize h + 1 > iCapacity h then reserver h else Inr h) = reserver h"
  by (simp add: reserver_def)

lemma reserver_ok:
  assumes inv: "heap_inv h" and room: "iSize h < heap_room"
  shows "\<exists>h' c. reserver h = Inr h' \<and> pContent h' = Some c \<and> length c = iCapacity h' \<and>
    iSize h' = iSize h \<and> iSize h < length c \<and> take (iSize h) c = take (iSize h) (cells h)"
proof (cases "iSize h + 1 \<le> iCapacity h")
  case True
  then obtain c where "pContent h = Some c"
    using inv by (auto simp: heap_inv_def cells_def split: option.splits)
  then show ?thesis
    using True inv by (simp add: reserver_def heap_inv_def cells_def)
next
  case False
  then have eq: "iCapacity h = iSize h" using inv by (simp add: heap_inv_def)
  have cap: "ckn (2 * iSize h + 1) = Inr (2 * iSize h + 1)"
    using room heap_room_INT_MAX by simp
  show ?thesis
  proof (cases "pContent h")
    case None
    then show ?thesis
      using False cap inv by (simp add: reserver_def heap_inv_def cells_def)
  next
    case (Some c)
    then have "length c = iSize h" using inv eq by (simp add: heap_inv_def cells_def)
    then show ?thesis
      using False cap eq Some by (simp add: reserver_def cells_def)
  qed
qed

lemma is_heap_take:
  "take n c = take n d \<Longrightarrow> n \<le> length c \<Longrightarrow> n \<le> length d \<Longrightarrow> is_heap n c = is_heap n d"
proof -
  assume eq: "take n c = take n d" and le: "n \<le> length c" "n \<le> length d"
  have "c ! k = d ! k" if "k < n" for k
    using eq that by (metis nth_take)
  then show ?thesis
    by (auto simp: is_heap_def) (metis less_trans parent_less)+
qed

lemma addItem_ok:
  assumes inv: "heap_inv h" and room: "iSize h < heap_room"
  shows "\<exists>h'. addItem v h = Inr h' \<and> heap_inv h' \<and> iSize h' = Suc (iSize h) \<and>
    bag_of h' = add_mset v (bag_of h)"
proof -
  let ?n = "iSize h"
  obtain h1 c where h1: "(if ?n + 1 > iCapacity h then reserver h else Inr h) = Inr h1"
    "pContent h1 = Some c" "length c = iCapacity h1" "iSize h1 = ?n" "?n < length c"
    "take ?n c = take ?n (cells h)"
    using reserver_ok [OF inv room] reserver_eq [of h] by auto
  let ?c = "c[?n := v]"
  have "is_heap ?n c"
    using inv h1 is_heap_take [of ?n c "cells h"] by (simp add: heap_inv_def)
  then have "up_inv ?c (Suc ?n) ?n"
    by (auto simp: up_inv_def is_heap_def nth_list_update dest: parent_less less_antisym)
  then obtain c' where c': "sift_up ?c ?n = Inr c'" "length c' = length c"
    "mset (take (Suc ?n) c') = mset (take (Suc ?n) ?c)" "is_heap (Suc ?n) c'"
    using sift_up_ok [of ?n "Suc ?n" ?c] h1(5) by auto
  have "mset (take (Suc ?n) ?c) = add_mset v (bag_of h)"
    using h1 by (simp add: take_Suc_conv_app_nth bag_of_def)
  moreover have "ckn (Suc ?n) = Inr (Suc ?n)"
    using room heap_room_INT_MAX by simp
  ultimately show ?thesis
    using h1 c' by (simp add: addItem_def heap_inv_def cells_def bag_of_def)
qed

lemma pop_bag:
  assumes "0 < n" "n \<le> length c"
  shows "add_mset (c ! 0) (mset (take (n - 1) (c[0 := c ! (n - 1)]))) = mset (take n c)"
proof -
  obtain m where m: "n = Suc m" using assms(1) by (cases n) auto
  have "mset (take n (swap_at c 0 m)) = mset (take n c)"
    using assms m by simp
  moreover have "take n (swap_at c 0 m) = take m (c[0 := c ! m]) @ [c ! 0]"
    using assms m by (cases c; cases m) (simp_all add: take_Suc_conv_app_nth swap_at_def)
  ultimately show ?thesis using m by simp
qed

lemma topItem_ok:
  assumes inv: "heap_inv h" and room: "iSize h \<le> heap_room" and ne: "0 < iSize h"
  shows "\<exists>h'. topItem h = Inr (Min_mset (bag_of h), h') \<and> heap_inv h' \<and>
    iSize h' = iSize h - 1 \<and> bag_of h' = bag_of h - {#Min_mset (bag_of h)#}"
proof -
  let ?n = "iSize h" let ?m = "?n - 1"
  obtain c where c: "pContent h = Some c" "cells h = c" "?n \<le> length c"
    using inv ne by (auto simp: heap_inv_def cells_def split: option.splits)
  have heap: "is_heap ?n c" using inv c by (simp add: heap_inv_def)
  let ?c = "c[0 := c ! ?m]"
  have "down_inv ?c ?m 0"
    using heap by (auto simp: down_inv_def is_heap_def nth_list_update)
  moreover have "2 * ?m + 2 \<le> nat INT_MAX"
    using room ne heap_room_INT_MAX by simp
  moreover have "?m < length ?c" using c ne by simp
  moreover have "?c ! ?m = ?c ! 0"
    using c ne by (cases "?m = 0"; cases c) simp_all
  ultimately obtain c' where c': "refactor ?c ?m 0 = Inr c'" "length c' = length c"
    "mset (take ?m c') = mset (take ?m ?c)" "is_heap ?m c'"
    using refactor_ok [of ?m ?c 0] by auto
  have min: "c ! 0 = Min_mset (bag_of h)"
  proof (rule sym, rule Min_eqI)
    fix y assume "y \<in> set_mset (bag_of h)"
    then obtain k where "k < ?n" "y = c ! k"
      using c by (auto simp: bag_of_def in_set_conv_nth)
    then show "c ! 0 \<le> y" using is_heap_root [OF heap] by simp
  next
    show "c ! 0 \<in> set_mset (bag_of h)"
      using c ne by (auto simp: bag_of_def in_set_conv_nth)
  qed simp
  have "mset (take ?m ?c) = bag_of h - {#c ! 0#}"
    using pop_bag [of ?n c] c ne by (metis add_mset_remove_trivial bag_of_def)
  then show ?thesis
    using c c' ne inv min
    by (auto simp: topItem_def heap_inv_def cells_def bag_of_def)
qed

interpretation min_heap: bounded_pq MinHeap_new addItem topItem heap_inv bag_of heap_room
proof unfold_locales
  fix q :: MinHeap and x :: int
  assume "heap_inv q" "size (bag_of q) < heap_room"
  then show "\<exists>q'. addItem x q = Inr q' \<and> heap_inv q' \<and> bag_of q' = add_mset x (bag_of q)"
    using addItem_ok [of q x] by (auto simp: size_bag_of)
next
  fix q :: MinHeap
  assume q: "heap_inv q" "size (bag_of q) \<le> heap_room" "bag_of q \<noteq> {#}"
  then have "0 < iSize q"
    by (metis gr0I size_bag_of size_eq_0_iff_empty)
  then show "\<exists>q'. topItem q = Inr (Min_mset (bag_of q), q') \<and> heap_inv q' \<and>
      bag_of q' = bag_of q - {#Min_mset (bag_of q)#}"
    using topItem_ok [of q] q by (auto simp: size_bag_of)
qed (rule heap_inv_new)+

section \<open>Properties\<close>

text \<open>
  C9: inserting any list of at most \<open>2^30 - 1\<close> integers into a new \<open>MinHeap\<close> with
  \<open>addItem\<close> and extracting as many items with \<open>topItem\<close> never runs into an undefined
  behaviour and yields the list in ascending order.
\<close>

theorem heap_sorts:
  "length xs \<le> heap_room \<Longrightarrow>
   \<exists>h h'. fill addItem xs MinHeap_new = Inr h \<and>
          drain topItem (length xs) h = Inr (sort xs, h')"
  by (rule min_heap.fill_drain_sorts)

theorem heap_sorts_witness:
  "\<exists>h h'. fill addItem [15, 11, 22, 10, 8] MinHeap_new = Inr h \<and>
          drain topItem 5 h = Inr ([8, 10, 11, 15, 22], h')"
proof -
  have "length [15, 11, 22, 10, 8 :: int] \<le> heap_room" by (simp add: heap_room_def)
  moreover have "length [15, 11, 22, 10, 8 :: int] = 5"
    "sort [15, 11, 22, 10, 8 :: int] = [8, 10, 11, 15, 22]" by simp_all
  ultimately show ?thesis using heap_sorts [of "[15, 11, 22, 10, 8]"] by (simp only:)
qed

text \<open>Sifting down that compares with the children inside the heap only.\<close>

fun sift_exact :: "nat \<Rightarrow> int list \<Rightarrow> nat \<Rightarrow> nat \<Rightarrow> int list" where
  "sift_exact 0 c n i = c"
| "sift_exact (Suc fuel) c n i =
     (let l = 2 * i + 1; r = 2 * i + 2;
          s1 = (if l < n \<and> c ! l < c ! i then l else i);
          s = (if r < n \<and> c ! r < c ! s1 then r else s1)
      in if s = i then c else sift_exact fuel (swap_at c s i) n s)"

lemma refactor_overread_aux:
  "n < length c \<Longrightarrow> i \<le> n \<Longrightarrow> 2 * n + 2 \<le> nat INT_MAX \<Longrightarrow> c ! n = c ! i \<Longrightarrow>
   n - i < fuel \<Longrightarrow> refactor c n i = Inr (sift_exact fuel c n i)"
proof (induction fuel arbitrary: c i)
  case (Suc fuel)
  define s where "s = smallest c n i"
  have props: "s = i \<or> (s = 2 * i + 1 \<or> s = 2 * i + 2) \<and> s < n \<and> c ! s < c ! i"
    using smallest_props(1) [OF Suc.prems(4,2) s_def] .
  have exact: "s = (let s1 = (if 2 * i + 1 < n \<and> c ! (2 * i + 1) < c ! i then 2 * i + 1 else i)
      in if 2 * i + 2 < n \<and> c ! (2 * i + 2) < c ! s1 then 2 * i + 2 else s1)"
    using Suc.prems(4) by (auto simp: s_def smallest_def Let_def le_less)
  have rec: "sift_exact (Suc fuel) c n i =
      (if s = i then c else sift_exact fuel (swap_at c s i) n s)"
    unfolding sift_exact.simps Let_def exact ..
  show ?case
  proof (cases "s = i")
    case True
    then show ?thesis
      using refactor_step [OF Suc.prems(1-3)] unfolding rec s_def [symmetric] by simp
  next
    case False
    with props have "refactor (swap_at c s i) n s = Inr (sift_exact fuel (swap_at c s i) n s)"
      using Suc.prems by (intro Suc.IH) (auto simp: nth_swap_at)
    then show ?thesis
      using refactor_step [OF Suc.prems(1-3)] False
      unfolding rec s_def [symmetric] by (simp add: Let_def)
  qed
qed simp

text \<open>
  The comparisons \<open>child <= iSize\<close> of \<open>refactor\<close> read one cell past the heap, but
  when \<open>topItem\<close> calls it that cell is inside the array and holds the value that moves
  down: the result is that of sifting with the exact bound.
\<close>

theorem refactor_overread_benign:
  "0 < n \<Longrightarrow> n \<le> length c \<Longrightarrow> n \<le> heap_room \<Longrightarrow>
   refactor (c[0 := c ! (n - 1)]) (n - 1) 0 =
     Inr (sift_exact n (c[0 := c ! (n - 1)]) (n - 1) 0)"
proof -
  assume n: "0 < n" "n \<le> length c" "n \<le> heap_room"
  then have "c[0 := c ! (n - 1)] ! (n - 1) = c[0 := c ! (n - 1)] ! 0"
    by (cases "n = 1"; cases c) simp_all
  then show ?thesis
    using refactor_overread_aux [of "n - 1" "c[0 := c ! (n - 1)]" 0 n] n heap_room_INT_MAX
    by simp
qed

theorem refactor_overread_benign_witness:
  "refactor [9, 5, 7, 9] 3 0 = Inr [5, 9, 7, 9]"
proof -
  have "sift_exact 4 [9, 5, 7, 9] 3 0 = [5, 9, 7, 9]" by code_simp
  then show ?thesis
    using refactor_overread_benign [of 4 "[3, 5, 7, 9]"] by (simp add: heap_room_def)
qed

text \<open>
  \<open>topItem\<close> of an empty heap is undefined: a NULL dereference for a new heap, and a
  read in front of the array for one that has been emptied.
\<close>

theorem topItem_empty:
  "iSize h = 0 \<Longrightarrow>
   topItem h = (case pContent h of None \<Rightarrow> Inl NullDeref | Some c \<Rightarrow> Inl OutOfBounds)"
  by (simp add: topItem_def split: option.split)

theorem topItem_empty_witness: "topItem MinHeap_new = Inl NullDeref"
  using topItem_empty [of MinHeap_new] by (simp add: MinHeap_new_def)

lemma display_ok: "heap_inv h \<Longrightarrow> \<exists>out. MinHeap_display h = Inr out"
  by (auto simp: MinHeap_display_def heap_inv_def cells_def split: option.split)

text \<open>The self-test runs to its end and prints the two smallest of its ten numbers.\<close>

lemma testMinHeap_ok:
  "\<exists>o1 o2 o3. testMinHeap = Inr (o1 @ show_int 3 @ endl @ o2 @ show_int 4 @ endl @ o3)"
proof -
  let ?xs = "[15, 11, 22, 10, 8, 9, 4, 12, 3, 19] :: int list"
  have room: "n \<le> heap_room" if "n \<le> 10" for n using that by (simp add: heap_room_def)
  obtain h where h: "fill addItem ?xs MinHeap_new = Inr h" "heap_inv h" "bag_of h = mset ?xs"
    using min_heap.fill_ok [of MinHeap_new ?xs] heap_inv_new room [of 10] by auto
  have n: "iSize h = 10" using size_bag_of [OF h(2)] h(3) by simp
  have m1: "Min_mset (bag_of h) = 3" unfolding h(3) by simp
  obtain h1 where h1: "topItem h = Inr (3, h1)" "heap_inv h1" "iSize h1 = 9"
    "bag_of h1 = mset ?xs - {#3#}"
    using topItem_ok [OF h(2)] n room [of 10] m1 h(3) by auto
  have "Min_mset (bag_of h1) = 4" unfolding h1(4) by simp
  then obtain h2 where h2: "topItem h1 = Inr (4, h2)" "heap_inv h2"
    using topItem_ok [OF h1(2)] h1(3) room [of 9] by auto
  obtain o1 o2 o3 where "MinHeap_display h = Inr o1" "MinHeap_display h1 = Inr o2"
    "MinHeap_display h2 = Inr o3"
    using display_ok [OF h(2)] display_ok [OF h1(2)] display_ok [OF h2(2)] by blast
  then have "testMinHeap = Inr (o1 @ show_int 3 @ endl @ o2 @ show_int 4 @ endl @ o3)"
    unfolding testMinHeap_def h(1) using h1(1) h2(1) by (simp del: fill.simps)
  then show ?thesis by blast
qed

end
