(* ===== verification/TcpUdpEcho.thy ===== *)
theory TcpUdpEcho
  imports Posix
begin

text \<open>
  The echo server \<^verbatim>\<open>src/socket/network/epoll_tcp_udp.cpp\<close>: an edge-triggered \<open>epoll\<close> loop over a
  TCP and a UDP socket. The state is the trace of system calls; \<open>recvfrom\<close> and
  \<open>sendto\<close> are reads and writes of the UDP socket. The loop over a client's data need not end: it
  is a partial function. Messages on standard output are left out.
\<close>

section \<open>The program\<close>

definition echo_size :: nat where "echo_size = 1023"

definition issue :: "env \<Rightarrow> call \<Rightarrow> trace \<Rightarrow> reply \<times> trace" where
  "issue env c t = (env t c, (c, env t c) # t)"

text \<open>Calls whose result is not looked at.\<close>

definition do_issue :: "env \<Rightarrow> call \<Rightarrow> trace \<Rightarrow> trace" where
  "do_issue env c t = snd (issue env c t)"

definition echo_setnonblocking :: "env \<Rightarrow> int \<Rightarrow> trace \<Rightarrow> int \<times> trace" where
  "echo_setnonblocking env fd t = (let (r, t1) = issue env (Fcntl fd) t in (ret r, do_issue env (Fcntl fd) t1))"

definition addfd :: "env \<Rightarrow> int \<Rightarrow> int \<Rightarrow> trace \<Rightarrow> trace" where
  "addfd env epollfd fd t = snd (echo_setnonblocking env fd (do_issue env (EpollAdd epollfd fd) t))"

text \<open>The buffer after \<open>recv\<close>: it was cleared and at most 1023 characters are written.\<close>

definition echo_buffer :: "string \<Rightarrow> char list" where
  "echo_buffer d = take echo_size d @ replicate (1024 - length (take echo_size d)) NUL"

text \<open>
  The data of a client, until \<open>recv\<close> fails. An end of the stream closes the descriptor and goes on; error 11
  is \<open>EAGAIN\<close> (and \<open>EWOULDBLOCK\<close>).
\<close>

partial_function (option) echo_client :: "env \<Rightarrow> int \<Rightarrow> trace \<Rightarrow> trace option" where
  "echo_client env fd t =
     (let (r, t1) = issue env (Read fd echo_size) t in
      if ret r < 0 then
        (if ret r = - 11 then Some t1 else Some (do_issue env (Close fd) t1))
      else if ret r = 0 then echo_client env fd (do_issue env (Close fd) t1)
      else echo_client env fd (do_issue env (Write fd (take (nat (ret r)) (echo_buffer (data r)))) t1))"

definition echo_udp :: "env \<Rightarrow> int \<Rightarrow> trace \<Rightarrow> trace" where
  "echo_udp env udpfd t =
     (let (r, t1) = issue env (Read udpfd echo_size) t in
      if ret r > 0 then do_issue env (Write udpfd (take echo_size (echo_buffer (data r)))) t1 else t1)"

text \<open>One event; the result of \<open>accept\<close> is not checked.\<close>

definition echo_event :: "env \<Rightarrow> int \<Rightarrow> int \<Rightarrow> int \<Rightarrow> int \<times> nat \<Rightarrow> trace \<Rightarrow> trace option" where
  "echo_event env epollfd tcpfd udpfd = (\<lambda>(fd, ev) t.
     if fd = tcpfd then (let (r, t1) = issue env (Accept tcpfd) t in Some (addfd env epollfd (ret r) t1))
     else if fd = udpfd then Some (echo_udp env udpfd t)
     else if odd ev then echo_client env fd t
     else Some t)"

fun echo_events :: "env \<Rightarrow> int \<Rightarrow> int \<Rightarrow> int \<Rightarrow> (int \<times> nat) list \<Rightarrow> trace \<Rightarrow> trace option" where
  "echo_events env epollfd tcpfd udpfd [] t = Some t"
| "echo_events env epollfd tcpfd udpfd (e # es) t =
     Option.bind (echo_event env epollfd tcpfd udpfd e t) (echo_events env epollfd tcpfd udpfd es)"

text \<open>The first \<open>n\<close> rounds of the loop, and whether it goes on.\<close>

fun echo_rounds :: "env \<Rightarrow> int \<Rightarrow> int \<Rightarrow> int \<Rightarrow> nat \<Rightarrow> trace \<Rightarrow> (bool \<times> trace) option" where
  "echo_rounds env epollfd tcpfd udpfd 0 t = Some (True, t)"
| "echo_rounds env epollfd tcpfd udpfd (Suc n) t =
     (let (r, t1) = issue env (EpollWait epollfd) t in
      if ret r < 0 then Some (False, t1)
      else Option.bind (echo_events env epollfd tcpfd udpfd (take (nat (ret r)) (evs r)) t1)
             (echo_rounds env epollfd tcpfd udpfd n))"

text \<open>
  \<open>main\<close> with the arguments after the program's name: \<open>None\<close> in the status is a failing
  assertion. The program is \<open>Inl\<close> of a status or \<open>Inr\<close> of the trace of a server that goes on.
\<close>

definition echo_main :: "env \<Rightarrow> nat \<Rightarrow> string list \<Rightarrow> (int option + trace) res option" where
  "echo_main env n args = (case args of
     ip # p # _ \<Rightarrow>
       bindO (Some (atoi p)) (\<lambda>port.
       let (s, t1) = issue env Socket [] in
       if ret s \<le> 0 then Some (Inr (Inl None))
       else let (b, t2) = issue env (Bind (ret s) ip port) t1 in
       if ret b < 0 then Some (Inr (Inl None))
       else let (l, t3) = issue env (Listen (ret s) 5) t2 in
       if ret l < 0 then Some (Inr (Inl None))
       else let (u, t4) = issue env Socket t3 in
       if ret u \<le> 0 then Some (Inr (Inl None))
       else let (b', t5) = issue env (Bind (ret u) ip port) t4 in
       if ret b' < 0 then Some (Inr (Inl None))
       else let (e, t6) = issue env (EpollCreate 5) t5 in
       if ret e < 0 then Some (Inr (Inl None))
       else Option.bind (echo_rounds env (ret e) (ret s) (ret u) n
              (addfd env (ret e) (ret u) (addfd env (ret e) (ret s) t6)))
            (\<lambda>(go, t). Some (Inr (if go then Inr t else Inl (Some 0)))))
   | _ \<Rightarrow> Some (Inr (Inl (Some (- 1)))))"

section \<open>The echo\<close>

text \<open>How often a descriptor was read, what was sent to it (oldest first), how often it was closed.\<close>

fun reads :: "int \<Rightarrow> trace \<Rightarrow> nat" where
  "reads fd [] = 0"
| "reads fd ((c, r) # t) = (case c of Read k n \<Rightarrow> if k = fd then Suc (reads fd t) else reads fd t | _ \<Rightarrow> reads fd t)"

fun sent :: "int \<Rightarrow> trace \<Rightarrow> string list" where
  "sent fd [] = []"
| "sent fd ((c, r) # t) = (case c of Write k s \<Rightarrow> if k = fd then sent fd t @ [s] else sent fd t | _ \<Rightarrow> sent fd t)"

fun closes :: "int \<Rightarrow> trace \<Rightarrow> nat" where
  "closes fd [] = 0"
| "closes fd ((c, r) # t) = (case c of Close k \<Rightarrow> if k = fd then Suc (closes fd t) else closes fd t | _ \<Rightarrow> closes fd t)"

lemma issue_simps [simp]:
  "issue env c t = (env t c, (c, env t c) # t)" "do_issue env c t = (c, env t c) # t"
  by (simp_all add: issue_def issue_def do_issue_def)

lemma echo_client_simps:
  "ret (env t (Read fd echo_size)) < 0 \<Longrightarrow> echo_client env fd t =
     Some (if ret (env t (Read fd echo_size)) = - 11 then (Read fd echo_size, env t (Read fd echo_size)) # t
           else do_issue env (Close fd) ((Read fd echo_size, env t (Read fd echo_size)) # t))"
  "ret (env t (Read fd echo_size)) = 0 \<Longrightarrow> echo_client env fd t =
     echo_client env fd (do_issue env (Close fd) ((Read fd echo_size, env t (Read fd echo_size)) # t))"
  "ret (env t (Read fd echo_size)) > 0 \<Longrightarrow> echo_client env fd t =
     echo_client env fd (do_issue env (Write fd (take (nat (ret (env t (Read fd echo_size))))
       (echo_buffer (data (env t (Read fd echo_size)))))) ((Read fd echo_size, env t (Read fd echo_size)) # t))"
  by (subst echo_client.simps; simp add: Let_def)+

lemma echo_client_last:
  assumes f: "\<And>t. env t (Read fd echo_size) = f (reads fd t)"
    and last: "ret (f k) \<le> 0" "ret (f (Suc k)) < 0" and k: "reads fd t = k"
  shows "\<exists>t'. echo_client env fd t = Some t' \<and> sent fd t' = sent fd t \<and>
    closes fd t' = closes fd t + (if ret (f k) = 0 then (if ret (f (Suc k)) = - 11 then 1 else 2)
      else if ret (f k) = - 11 then 0 else 1)"
proof (cases "ret (f k) = 0")
  case True
  let ?t = "do_issue env (Close fd) ((Read fd echo_size, env t (Read fd echo_size)) # t)"
  have "echo_client env fd t = echo_client env fd ?t"
    using True by (intro echo_client_simps(2)) (simp add: f k)
  moreover have "env ?t (Read fd echo_size) = f (Suc k)" by (simp add: f k)
  ultimately show ?thesis
    using True last(2) by (simp add: echo_client_simps(1))
next
  case False
  then show ?thesis using last(1) k by (simp add: echo_client_simps(1) f)
qed

lemma echo_client_chunks:
  assumes f: "\<And>t. env t (Read fd echo_size) = f (reads fd t)"
    and chunks: "\<And>k. k < n \<Longrightarrow> 0 < ret (f k) \<and> length (data (f k)) = nat (ret (f k)) \<and> nat (ret (f k)) \<le> echo_size"
    and last: "ret (f n) \<le> 0" "ret (f (Suc n)) < 0"
  shows "reads fd t = k \<Longrightarrow> k \<le> n \<Longrightarrow>
    \<exists>t'. echo_client env fd t = Some t' \<and> sent fd t' = sent fd t @ map (\<lambda>i. data (f i)) [k..<n] \<and>
      closes fd t' = closes fd t + (if ret (f n) = 0 then (if ret (f (Suc n)) = - 11 then 1 else 2)
        else if ret (f n) = - 11 then 0 else 1)"
proof (induction "n - k" arbitrary: k t)
  case 0
  then show ?case using echo_client_last [of env fd f n t] f last by simp
next
  case (Suc d)
  then have k: "k < n" by simp
  note c = chunks [OF k]
  let ?t = "do_issue env (Write fd (data (f k))) ((Read fd echo_size, f k) # t)"
  have e: "echo_client env fd t = echo_client env fd ?t"
    using c echo_client_simps(3) [of env t fd] Suc.prems(1) by (simp add: f echo_buffer_def)
  have "reads fd ?t = Suc k" using Suc.prems(1) by simp
  from Suc.hyps(1) [OF _ this] obtain t' where t': "echo_client env fd ?t = Some t'"
    "sent fd t' = sent fd ?t @ map (\<lambda>i. data (f i)) [Suc k..<n]"
    "closes fd t' = closes fd ?t + (if ret (f n) = 0 then (if ret (f (Suc n)) = - 11 then 1 else 2)
        else if ret (f n) = - 11 then 0 else 1)"
    using Suc.hyps(2) k by fastforce
  then show ?case using e k by (simp add: upt_conv_Cons)
qed


text \<open>A datagram is answered with the whole buffer, padded with NULs.\<close>

lemma udp_echo_padded:
  assumes "ret (env t (Read udpfd echo_size)) > 0" "data (env t (Read udpfd echo_size)) = d" "length d \<le> echo_size"
  shows "sent udpfd (echo_udp env udpfd t) = sent udpfd t @ [d @ replicate (echo_size - length d) NUL]"
  using assms by (simp add: echo_udp_def echo_buffer_def echo_size_def take_Cons')

definition demo_pieces :: "nat \<Rightarrow> reply" where
  "demo_pieces k = (if k = 0 then \<lparr>ret = 2, data = ''ab'', evs = []\<rparr>
     else if k = 1 then \<lparr>ret = 0, data = [], evs = []\<rparr> else \<lparr>ret = - 9, data = [], evs = []\<rparr>)"

definition demo_echo :: env where
  "demo_echo t c = (case c of Read fd n \<Rightarrow> demo_pieces (reads fd t) | _ \<Rightarrow> \<lparr>ret = 0, data = [], evs = []\<rparr>)"


end
