(* ===== verification/TimedConnect.thy ===== *)
theory TimedConnect
  imports Posix
begin

text \<open>
  \<^verbatim>\<open>src/socket/network/select_non_block_connect.cpp\<close>: a connection with a time limit. \<open>connect\<close> is
  called on a non-blocking socket and \<open>select\<close> waits until the socket is writable. The
  writable descriptors are the \<open>evs\<close> of the reply to \<open>select\<close>; the pending error of the socket
  is the first component of the \<open>evs\<close> of the reply to \<open>getsockopt\<close>. Messages on standard output are left
  out, the result \<open>None\<close> is a failing assertion.
\<close>

section \<open>The program\<close>

definition connect_setnonblocking :: "env \<Rightarrow> int \<Rightarrow> int io" where
  "connect_setnonblocking env fd = do {
     old \<leftarrow> call_ret env (Fcntl fd);
     _ \<leftarrow> sys env (Fcntl fd);
     return old
   }"

definition pending_error :: "reply \<Rightarrow> int" where
  "pending_error r = (case evs r of [] \<Rightarrow> 0 | (e, _) # _ \<Rightarrow> e)"

definition give_up :: "env \<Rightarrow> int \<Rightarrow> int option io" where
  "give_up env s = do { _ \<leftarrow> sys env (Close s); return (Some (- 1)) }"

text \<open>Error 115 is \<open>EINPROGRESS\<close>.\<close>

definition non_block_connect :: "env \<Rightarrow> string \<Rightarrow> int \<Rightarrow> int option io" where
  "non_block_connect env ip port = do {
     s \<leftarrow> call_ret env Socket;
     if s \<le> 0 then return None
     else do {
       _ \<leftarrow> connect_setnonblocking env s;
       c \<leftarrow> call_ret env (Connect s ip port);
       if c = 0 then do { _ \<leftarrow> sys env (Fcntl s); return (Some s) }
       else if c \<noteq> - 115 then return (Some (- 1))
       else do {
         r \<leftarrow> sys env (Select [s]);
         if ret r \<le> 0 then give_up env s
         else if s \<notin> fst ` set (evs r) then give_up env s
         else do {
           g \<leftarrow> sys env (GetSockOpt s);
           if ret g < 0 then give_up env s
           else if pending_error g \<noteq> 0 then give_up env s
           else do { _ \<leftarrow> sys env (Fcntl s); return (Some s) }
         }
       }
     }
   }"

text \<open>\<open>main\<close>: the message is sent with the rest of its buffer; the exit status.\<close>

definition connect_main :: "env \<Rightarrow> string list \<Rightarrow> int option res io" where
  "connect_main env args = (case args of
     ip # p # _ \<Rightarrow> (case atoi p of
        Inl e \<Rightarrow> return (Inl e)
      | Inr port \<Rightarrow> do {
          s \<leftarrow> non_block_connect env ip port;
          (case s of
             None \<Rightarrow> return (Inr None)
           | Some fd \<Rightarrow>
               if fd < 0 then return (Inr (Some (- 1)))
               else do {
                 _ \<leftarrow> sys env (Write fd (''asdfasdfasdfasdfasf'' @ replicate (1023 - 19) NUL));
                 _ \<leftarrow> sys env (Read fd 1023);
                 _ \<leftarrow> sys env (Close fd);
                 return (Inr (Some 0))
               })
        })
   | _ \<Rightarrow> return (Inr (Some (- 1))))"

section \<open>The socket\<close>

text \<open>The call that refused the connection at once, if there was one.\<close>

definition refused :: "env \<Rightarrow> trace \<Rightarrow> string \<Rightarrow> int \<Rightarrow> bool" where
  "refused env t ip port \<longleftrightarrow>
     (let s = ret (env t Socket);
          t1 = (Socket, env t Socket) # t;
          t2 = (Fcntl s, env t1 (Fcntl s)) # t1;
          t3 = (Fcntl s, env t2 (Fcntl s)) # t2
      in ret (env t3 (Connect s ip port)) \<noteq> 0 \<and> ret (env t3 (Connect s ip port)) \<noteq> - 115)"

text \<open>
  The socket of a timed connect. If the call returns a descriptor, that descriptor is open, and
  nothing else was opened or closed. If it returns -1, nothing stays open, except when the
  connection is refused at once: then the socket is not closed.
\<close>

theorem connect_leaks_only_when_refused:
  assumes "run_state (non_block_connect env ip port) t = (r, t')" "0 < ret (env t Socket)"
  shows "case r of
      None \<Rightarrow> False
    | Some s \<Rightarrow>
        if s = - 1 then open_fds t' = (if refused env t ip port then add_mset (ret (env t Socket)) (open_fds t) else open_fds t)
        else s = ret (env t Socket) \<and> open_fds t' = add_mset s (open_fds t)"
  using assms
  by (auto simp: non_block_connect_def connect_setnonblocking_def give_up_def refused_def Let_def split: if_splits)

definition demo_refused :: env where
  "demo_refused t c = (case c of Socket \<Rightarrow> \<lparr>ret = 3, data = [], evs = []\<rparr>
     | Connect s ip p \<Rightarrow> \<lparr>ret = - 111, data = [], evs = []\<rparr> | _ \<Rightarrow> \<lparr>ret = 0, data = [], evs = []\<rparr>)"

lemma connect_leaks_only_when_refused_witness:
  "\<exists>t'. run_state (non_block_connect demo_refused ''10.0.0.1'' 80) [] = (Some (- 1), t') \<and> open_fds t' = {#3#}"
proof -
  obtain t' where t': "run_state (non_block_connect demo_refused ''10.0.0.1'' 80) [] = (Some (- 1), t')"
    by (simp add: non_block_connect_def connect_setnonblocking_def demo_refused_def)
  moreover have "refused demo_refused [] ''10.0.0.1'' 80" by (simp add: refused_def demo_refused_def)
  ultimately show ?thesis
    using connect_leaks_only_when_refused [OF t'] by (simp add: demo_refused_def)
qed

end
