(* ===== verification/Ldra.thy ===== *)
theory Ldra
  imports Secret
begin

text \<open>
  \<^verbatim>\<open>src/temp/ldra.cpp\<close>: it renames the regular files of a directory. The file system and the entries of
  a directory are those of the theory Secret; \<open>rename\<close> replaces an existing file.
\<close>

section \<open>The program\<close>

record ldra =
  l_files :: fsys
  l_cnt :: int
  l_out :: string

definition l_say :: "string \<Rightarrow> ldra \<Rightarrow> ldra" where
  "l_say t s = s\<lparr>l_out := l_out s @ t\<rparr>"

text \<open>The new name: the first underscore and the character behind it are taken out, then the name ends at the first dot.\<close>

definition drop_mark :: "string \<Rightarrow> string" where
  "drop_mark d = (let p = takeWhile (\<lambda>c. c \<noteq> CHR ''_'') d in
     if CHR ''_'' \<in> set d then p @ drop (length p + 2) d else d)"

definition new_name :: "string \<Rightarrow> string" where
  "new_name d = takeWhile (\<lambda>c. c \<noteq> CHR ''.'') (drop_mark d) @ ''.pcap''"

text \<open>\<open>rename\<close>: a directory is not replaced by a file.\<close>

definition rename_file :: "string \<Rightarrow> string \<Rightarrow> fsys \<Rightarrow> fsys option" where
  "rename_file old new fs =
     (if fs old = None \<or> fs new = Some Directory then None
      else Some (if old = new then fs else fs(new := fs old, old := None)))"

fun ldra_entries :: "string \<Rightarrow> string list \<Rightarrow> ldra \<Rightarrow> (int \<times> ldra) res" where
  "ldra_entries p [] s = Inr (0, s)"
| "ldra_entries p (d # ds) s =
     (if d = ''..'' \<or> d = ''.'' then ldra_entries p ds s
      else bindE (buffer (p @ ''/'' @ d)) (\<lambda>old.
        case l_files s old of
          Some (Regular _) \<Rightarrow>
            bindE (buffer (p @ ''/'' @ new_name d)) (\<lambda>new.
            let s1 = l_say (''start deal file['' @ old @ '']->['' @ new @ '']'' @ endl) s in
            case rename_file old new (l_files s1) of
              None \<Rightarrow> Inr (- 1, l_say (''error'' @ endl) s1)
            | Some fs \<Rightarrow> ldra_entries p ds (s1\<lparr>l_files := fs, l_cnt := l_cnt s1 + 1\<rparr>))
        | _ \<Rightarrow> ldra_entries p ds s))"

definition ldra_DealDirent :: "(fsys \<Rightarrow> string \<Rightarrow> string list option) \<Rightarrow> string \<Rightarrow> ldra \<Rightarrow> (int \<times> ldra) res" where
  "ldra_DealDirent dir p s = (case dir (l_files s) p of
     None \<Rightarrow> Inr (- 1, l_say (''open dir is not SUCCESS'' @ p @ endl) s)
   | Some ds \<Rightarrow> ldra_entries p ds s)"

definition ldra_main :: "(fsys \<Rightarrow> string \<Rightarrow> string list option) \<Rightarrow> string list \<Rightarrow> fsys \<Rightarrow> (int \<times> ldra) res" where
  "ldra_main dir args fs =
     (let s = \<lparr>l_files = fs, l_cnt = 0, l_out = ''start!'' @ endl\<rparr> in
      case args of
        [] \<Rightarrow> Inr (0, l_say (''ldra path'' @ endl @ tab @ ''ldra /data/ldra/20170215'' @ endl) s)
      | a # _ \<Rightarrow> bindE (buffer a) (\<lambda>p. bindE (ldra_DealDirent dir p s) (\<lambda>(iRet, s1).
          if iRet \<noteq> 0 then Inr (iRet, l_say (''DealDirent error!'' @ endl) s1)
          else Inr (0, l_say (''total file:'' @ show_int (l_cnt s1) @ endl @ ''end!'' @ endl) s1))))"

section \<open>The renamed files\<close>

lemma l_say_simps [simp]: "l_files (l_say t s) = l_files s" "l_cnt (l_say t s) = l_cnt s"
  by (simp_all add: l_say_def)

text \<open>The regular files among the entries, and those that get one name.\<close>

abbreviation regs :: "fsys \<Rightarrow> string \<Rightarrow> string list \<Rightarrow> string list" where
  "regs fs p ds \<equiv> filter (is_reg fs p) ds"

definition renamed_to :: "fsys \<Rightarrow> string \<Rightarrow> string list \<Rightarrow> string \<Rightarrow> string list" where
  "renamed_to fs p ds n = filter (\<lambda>d. new_name d = n) (regs fs p ds)"

definition path_of :: "string \<Rightarrow> string \<Rightarrow> string" where
  "path_of p d = p @ ''/'' @ d"

lemma path_of_eq [simp]: "path_of p d = path_of p e \<longleftrightarrow> d = e"
  by (simp add: path_of_def)

definition ldra_fits :: "string \<Rightarrow> string \<Rightarrow> bool" where
  "ldra_fits p d \<longleftrightarrow> length (path_of p d) < MAX_SIZE \<and> length (path_of p (new_name d)) < MAX_SIZE"

lemma ldra_skip:
  "\<not> is_reg (l_files s) p d \<Longrightarrow> ldra_fits p d \<Longrightarrow> ldra_entries p (d # ds) s = ldra_entries p ds s"
  by (auto simp: is_reg_def reg_bytes_def ldra_fits_def path_of_def split: option.splits inode.splits)

lemma ldra_step:
  assumes "is_reg (l_files s) p d" "ldra_fits p d" "new_name d \<noteq> d" "l_files s (path_of p (new_name d)) \<noteq> Some Directory"
  shows "\<exists>s1. ldra_entries p (d # ds) s = ldra_entries p ds s1 \<and> l_cnt s1 = l_cnt s + 1 \<and>
    l_files s1 = (l_files s)(path_of p (new_name d) := l_files s (path_of p d), path_of p d := None)"
proof -
  obtain bs where "d \<noteq> ''.''" "d \<noteq> ''..''" "l_files s (p @ ''/'' @ d) = Some (Regular bs)"
    using assms(1) by (auto simp: is_reg_def reg_bytes_def split: option.splits inode.splits)
  then show ?thesis
    using assms(2,3,4) by (auto simp: ldra_fits_def rename_file_def path_of_def Let_def)
qed

lemma ldra_entries_ok:
  "distinct ds \<Longrightarrow> \<forall>d\<in>set ds. ldra_fits p d \<Longrightarrow>
   \<forall>d\<in>set (regs (l_files s) p ds). new_name d \<notin> set ds \<and> l_files s (path_of p (new_name d)) \<noteq> Some Directory \<Longrightarrow>
   \<exists>s'. ldra_entries p ds s = Inr (0, s') \<and> l_cnt s' = l_cnt s + int (length (regs (l_files s) p ds)) \<and>
     (\<forall>d\<in>set (regs (l_files s) p ds). l_files s' (path_of p d) = None \<and>
        l_files s' (path_of p (new_name d)) = l_files s (path_of p (last (renamed_to (l_files s) p ds (new_name d))))) \<and>
     (\<forall>x. x \<notin> path_of p ` set (regs (l_files s) p ds) \<longrightarrow> x \<notin> (path_of p \<circ> new_name) ` set (regs (l_files s) p ds) \<longrightarrow>
        l_files s' x = l_files s x)"
proof (induction ds arbitrary: s)
  case (Cons d ds)
  show ?case
  proof (cases "is_reg (l_files s) p d")
    case False
    have "ldra_entries p (d # ds) s = ldra_entries p ds s"
      using False Cons.prems(2) by (intro ldra_skip) simp_all
    then show ?thesis
      using Cons.IH [of s] Cons.prems False by (simp add: renamed_to_def del: ldra_entries.simps)
  next
    case True
    let ?fs = "l_files s"
    have nd: "new_name d \<notin> set (d # ds)" "?fs (path_of p (new_name d)) \<noteq> Some Directory"
      using Cons.prems(3) True by auto
    obtain s1 where s1: "ldra_entries p (d # ds) s = ldra_entries p ds s1" "l_cnt s1 = l_cnt s + 1"
      "l_files s1 = ?fs(path_of p (new_name d) := ?fs (path_of p d), path_of p d := None)"
      using ldra_step [OF True, of ds] Cons.prems(2) nd by auto
    have same: "is_reg (l_files s1) p e = is_reg ?fs p e" "l_files s1 (path_of p e) = ?fs (path_of p e)"
      if "e \<in> set ds" for e
    proof -
      have "e \<noteq> d" "e \<noteq> new_name d" using that Cons.prems(1) nd(1) by auto
      then show "l_files s1 (path_of p e) = ?fs (path_of p e)" by (simp add: s1(3))
      then show "is_reg (l_files s1) p e = is_reg ?fs p e"
        by (simp add: is_reg_def reg_bytes_def path_of_def)
    qed
    then have regs: "regs (l_files s1) p ds = regs ?fs p ds" by (intro filter_cong) auto
    have reg_d: "\<exists>bs. ?fs (path_of p d) = Some (Regular bs)"
      using True by (auto simp: is_reg_def reg_bytes_def path_of_def split: option.splits inode.splits)
    have "\<forall>e\<in>set (regs (l_files s1) p ds). new_name e \<notin> set ds \<and> l_files s1 (path_of p (new_name e)) \<noteq> Some Directory"
      using Cons.prems(3) True reg_d unfolding regs by (auto simp: s1(3))
    then obtain s' where s': "ldra_entries p ds s1 = Inr (0, s')"
      "l_cnt s' = l_cnt s1 + int (length (regs ?fs p ds))"
      "\<forall>e\<in>set (regs ?fs p ds). l_files s' (path_of p e) = None \<and>
        l_files s' (path_of p (new_name e)) = l_files s1 (path_of p (last (renamed_to ?fs p ds (new_name e))))"
      "\<forall>x. x \<notin> path_of p ` set (regs ?fs p ds) \<longrightarrow> x \<notin> (path_of p \<circ> new_name) ` set (regs ?fs p ds) \<longrightarrow>
        l_files s' x = l_files s1 x"
      using Cons.IH [of s1] Cons.prems(1,2) unfolding regs renamed_to_def by auto
    have fresh_d: "d \<notin> set (regs ?fs p ds)" "d \<notin> new_name ` set (regs ?fs p ds)" "new_name d \<notin> set (regs ?fs p ds)"
      using Cons.prems(1,3) True nd(1) by auto
    have old: "l_files s' (path_of p d) = None"
    proof -
      have "path_of p d \<notin> path_of p ` set (regs ?fs p ds)"
        "path_of p d \<notin> (path_of p \<circ> new_name) ` set (regs ?fs p ds)"
        using fresh_d(1,2) by auto
      then have "l_files s' (path_of p d) = l_files s1 (path_of p d)" using s'(4) by blast
      then show ?thesis by (simp add: s1(3))
    qed
    have in_ds: "last (renamed_to ?fs p ds n) \<in> set ds" if "renamed_to ?fs p ds n \<noteq> []" for n
      using last_in_set [OF that] by (auto simp: renamed_to_def)
    have new: "l_files s' (path_of p (new_name e)) = ?fs (path_of p (last (renamed_to ?fs p (d # ds) (new_name e))))"
      if e: "e \<in> set (regs ?fs p (d # ds))" for e
    proof (cases "renamed_to ?fs p ds (new_name e) = []")
      case True
      then have same_name: "new_name e = new_name d" and other: "new_name d \<notin> new_name ` set (regs ?fs p ds)"
        using e \<open>is_reg ?fs p d\<close> by (auto simp: renamed_to_def filter_empty_conv)
      have "path_of p (new_name d) \<notin> path_of p ` set (regs ?fs p ds)"
        "path_of p (new_name d) \<notin> (path_of p \<circ> new_name) ` set (regs ?fs p ds)"
        using fresh_d(3) other by auto
      then have "l_files s' (path_of p (new_name e)) = l_files s1 (path_of p (new_name e))"
        unfolding same_name by (rule s'(4) [rule_format])
      then show ?thesis
        using True \<open>new_name e = new_name d\<close> \<open>is_reg ?fs p d\<close> nd(1) by (simp add: renamed_to_def s1(3))
    next
      case False
      then obtain g where g: "g \<in> set (regs ?fs p ds)" "new_name g = new_name e"
        by (auto simp: renamed_to_def filter_empty_conv)
      have "l_files s' (path_of p (new_name e)) = l_files s1 (path_of p (last (renamed_to ?fs p ds (new_name e))))"
        using s'(3) g by metis
      also have "\<dots> = ?fs (path_of p (last (renamed_to ?fs p ds (new_name e))))"
        using in_ds [OF False] by (rule same(2))
      finally show ?thesis using False by (auto simp: renamed_to_def)
    qed
    have "l_files s' (path_of p e) = None" if "e \<in> set (regs ?fs p (d # ds))" for e
      using that old s'(3) True by auto
    moreover have "\<forall>x. x \<notin> path_of p ` set (regs ?fs p (d # ds)) \<longrightarrow>
        x \<notin> (path_of p \<circ> new_name) ` set (regs ?fs p (d # ds)) \<longrightarrow> l_files s' x = ?fs x"
      using s'(4) True by (auto simp: s1(3))
    ultimately show ?thesis
      using s1(1,2) s'(1,2) new True by (intro exI [of _ s']) (simp del: ldra_entries.simps)
  qed
qed simp


definition demo_caps :: fsys where
  "demo_caps = [''d/cap_1.x'' \<mapsto> Regular [1], ''d/cap_2.x'' \<mapsto> Regular [2]]"

lemma demo_caps_regular: "is_reg demo_caps ''d'' ''cap_1.x''" "is_reg demo_caps ''d'' ''cap_2.x''"
  by (simp_all add: is_reg_def reg_bytes_def demo_caps_def)


end
