(* ===== verification/PortServer.thy ===== *)
theory PortServer
  imports EpollSocket
begin

text \<open>
  The ten-port server \<^verbatim>\<open>src/wzq_project/src/component/epoll_server.cpp\<close>: one \<open>epoll\<close> loop over ten
  listening sockets and their clients. The state is the trace of system calls, the set of the
  listening sockets and the number of clients. \<open>Failed 0\<close> is the \<open>exit(0)\<close> of an error;
  messages on standard output are left out, except that printing a text needs a terminator.
\<close>

section \<open>The program\<close>

definition SERVER_SIZE :: nat where "SERVER_SIZE = 10"

definition MAX_EPOLLSIZE :: int where "MAX_EPOLLSIZE = 256 * 10"

definition PORT_BUFFER :: nat where "PORT_BUFFER = 256"

definition port_SetNonblock :: "env \<Rightarrow> int \<Rightarrow> int io" where
  "port_SetNonblock env fd = do {
     flags \<leftarrow> call_ret env (Fcntl fd);
     if flags < 0 then return flags
     else do { r \<leftarrow> call_ret env (Fcntl fd); return (if r < 0 then - 1 else 0) }
   }"

text \<open>Never called.\<close>

definition port_SetReUseAddr :: "env \<Rightarrow> int \<Rightarrow> int io" where
  "port_SetReUseAddr env fd = call_ret env (SetSockOpt fd)"

text \<open>The listening sockets of the ports \<open>port + i\<close>, for the numbers \<open>i\<close> of a list.\<close>

fun port_listen :: "env \<Rightarrow> int \<Rightarrow> int \<Rightarrow> nat list \<Rightarrow> int set \<Rightarrow> int set outcome io" where
  "port_listen env efd port [] srv = return (Running srv)"
| "port_listen env efd port (i # is) srv = do {
     sockfd \<leftarrow> call_ret env Socket;
     bindR (guardR (0 \<le> sockfd) 0) (\<lambda>_.
     bindR (liftR (ck (port + int i))) (\<lambda>p. do {
       b \<leftarrow> call_ret env (Bind sockfd ''0.0.0.0'' p);
       bindR (guardR (0 \<le> b) 0) (\<lambda>_. do {
         l \<leftarrow> call_ret env (Listen sockfd 10);
         bindR (guardR (0 \<le> l) 0) (\<lambda>_. do {
           _ \<leftarrow> port_SetNonblock env sockfd;
           _ \<leftarrow> sys env (EpollAdd efd sockfd);
           port_listen env efd port is (insert sockfd srv)
         })
       })
     }))
   }"

text \<open>A new client is greeted and watched.\<close>

definition port_accept :: "env \<Rightarrow> int \<Rightarrow> int \<Rightarrow> int \<Rightarrow> int io" where
  "port_accept env efd fd icnt = do {
     cfd \<leftarrow> call_ret env (Accept fd);
     if cfd < 0 then return icnt
     else do {
       _ \<leftarrow> sys env (Write cfd (''connected'' @ [NUL]));
       _ \<leftarrow> sys env (EpollAdd efd cfd);
       return (icnt + 1)
     }
   }"

text \<open>The buffer was cleared before \<open>recv\<close>, which may fill it.\<close>

definition port_buffer :: "string \<Rightarrow> char list" where
  "port_buffer d = take PORT_BUFFER d @ replicate (PORT_BUFFER - length d) NUL"

text \<open>A writable client gets the whole buffer, with a greeting at its start.\<close>

definition port_greeting :: "int \<Rightarrow> string" where
  "port_greeting fd = ''hello ,I am server '' @ show_int fd"

definition port_out :: "env \<Rightarrow> int \<Rightarrow> nat \<Rightarrow> char list \<Rightarrow> int \<Rightarrow> int outcome io" where
  "port_out env fd ev buf icnt =
     (if has_out ev then
        bindR (liftR (strcpy buf (port_greeting fd))) (\<lambda>b. do {
          _ \<leftarrow> sys env (Write fd b);
          return (Running icnt)
        })
      else return (Running icnt))"

text \<open>One event. Error 4 is \<open>EINTR\<close>.\<close>

definition port_event :: "env \<Rightarrow> int \<Rightarrow> int set \<Rightarrow> int \<Rightarrow> int \<times> nat \<Rightarrow> int outcome io" where
  "port_event env efd srv icnt = (\<lambda>(fd, ev).
     if has_in ev then
       (if fd \<in> srv then do { n \<leftarrow> port_accept env efd fd icnt; return (Running n) }
        else do {
          r \<leftarrow> sys env (Read fd PORT_BUFFER);
          if ret r > 0 then
            bindR (liftR (c_string (port_buffer (data r)))) (\<lambda>_. port_out env fd ev (port_buffer (data r)) icnt)
          else if ret r = 0 then do {
            _ \<leftarrow> sys env (EpollDel efd fd);
            _ \<leftarrow> sys env (Close fd);
            port_out env fd ev (port_buffer []) (icnt - 1)
          }
          else if ret r = - 4 then return (Running icnt)
          else do {
            _ \<leftarrow> sys env (Close fd);
            port_out env fd ev (port_buffer []) icnt
          }
        })
     else port_out env fd ev (port_buffer []) icnt)"

fun port_events :: "env \<Rightarrow> int \<Rightarrow> int set \<Rightarrow> int \<Rightarrow> (int \<times> nat) list \<Rightarrow> int outcome io" where
  "port_events env efd srv icnt [] = return (Running icnt)"
| "port_events env efd srv icnt (e # es) =
     bindR (port_event env efd srv icnt e) (\<lambda>n. port_events env efd srv n es)"

text \<open>The first \<open>k\<close> rounds of the loop.\<close>

fun port_loop :: "env \<Rightarrow> int \<Rightarrow> int set \<Rightarrow> nat \<Rightarrow> int \<Rightarrow> int outcome io" where
  "port_loop env efd srv 0 icnt = return (Running icnt)"
| "port_loop env efd srv (Suc k) icnt = do {
     r \<leftarrow> sys env (EpollWait efd);
     bindR (guardR (0 \<le> ret r) 0) (\<lambda>_.
     bindR (port_events env efd srv icnt (take (nat (ret r)) (evs r))) (\<lambda>n. do {
       _ \<leftarrow> sys env (Usleep 1000);
       port_loop env efd srv k n
     }))
   }"

text \<open>
  The address and the port of the arguments after the program's name; the address is copied to
  a buffer of 64 characters and not used.
\<close>

definition port_args :: "string list \<Rightarrow> int res" where
  "port_args args = (case args of
     [ip, p] \<Rightarrow> bindE (strcpy (replicate 64 NUL) ip) (\<lambda>_. atoi p)
   | _ \<Rightarrow> Inr 8080)"

text \<open>The descriptor of the epoll instance and the listening sockets.\<close>

definition port_setup :: "env \<Rightarrow> string list \<Rightarrow> (int \<times> int set) outcome io" where
  "port_setup env args =
     bindR (liftR (port_args args)) (\<lambda>port. do {
       efd \<leftarrow> call_ret env (EpollCreate MAX_EPOLLSIZE);
       bindR (guardR (0 \<le> efd) 0) (\<lambda>_.
       bindR (port_listen env efd port [0..<SERVER_SIZE] {}) (\<lambda>srv. return (Running (efd, srv))))
     })"

definition port_main :: "env \<Rightarrow> nat \<Rightarrow> string list \<Rightarrow> int outcome io" where
  "port_main env k args =
     bindR (port_setup env args) (\<lambda>(efd, srv). port_loop env efd srv k 0)"

section \<open>The listening sockets\<close>

text \<open>
  The listening sockets are open and watched; clients are accepted on them only, and they are
  never read from or closed.
\<close>

definition serving :: "int set \<Rightarrow> trace \<Rightarrow> bool" where
  "serving srv t \<longleftrightarrow> srv \<subseteq> open_set t \<inter> watched t \<and> (\<forall>(c, r)\<in>set t. case c of
     Accept fd \<Rightarrow> fd \<in> srv | Read fd n \<Rightarrow> fd \<notin> srv | Close fd \<Rightarrow> fd \<notin> srv | _ \<Rightarrow> True)"

lemma serving_empty [simp]: "serving srv [] \<longleftrightarrow> srv = {}"
  by (auto simp: serving_def)

lemma serving_Cons:
  "serving srv t \<Longrightarrow>
   (case c of Accept fd \<Rightarrow> fd \<in> srv | Read fd n \<Rightarrow> fd \<notin> srv | Close fd \<Rightarrow> fd \<notin> srv | EpollDel e fd \<Rightarrow> fd \<notin> srv | _ \<Rightarrow> True) \<Longrightarrow>
   serving srv ((c, r) # t)"
  by (auto simp: serving_def split: call.splits)

lemma serving_call:
  "(case c of Accept fd \<Rightarrow> fd \<in> srv | Read fd n \<Rightarrow> fd \<notin> srv | Close fd \<Rightarrow> fd \<notin> srv | EpollDel e fd \<Rightarrow> fd \<notin> srv | _ \<Rightarrow> True) \<Longrightarrow>
   keeps_trace (serving srv) (sys env c)"
  "(case c of Accept fd \<Rightarrow> fd \<in> srv | Read fd n \<Rightarrow> fd \<notin> srv | Close fd \<Rightarrow> fd \<notin> srv | EpollDel e fd \<Rightarrow> fd \<notin> srv | _ \<Rightarrow> True) \<Longrightarrow>
   keeps_trace (serving srv) (call_ret env c)"
  by (intro keeps_trace_sys keeps_trace_call serving_Cons; assumption)+

lemmas serving_rules = keeps_trace_intros serving_call

lemma port_event_serving: "keeps_trace (serving srv) (port_event env efd srv n e)"
  unfolding port_event_def port_accept_def port_out_def
  by (cases e) (auto intro!: serving_rules)

lemma port_events_serving: "keeps_trace (serving srv) (port_events env efd srv n es)"
  by (induction es arbitrary: n) (auto intro!: serving_rules port_event_serving)

lemma port_loop_serving: "keeps_trace (serving srv) (port_loop env efd srv k n)"
  by (induction k arbitrary: n) (auto intro!: serving_rules port_events_serving)

section \<open>The ten ports\<close>

text \<open>The sockets that were bound, with their ports, oldest first.\<close>

fun binds :: "trace \<Rightarrow> (int \<times> int) list" where
  "binds [] = []"
| "binds ((c, r) # t) = (case c of Bind fd ip p \<Rightarrow> binds t @ [(fd, p)] | _ \<Rightarrow> binds t)"

text \<open>While the sockets are made, nothing is accepted, read or closed.\<close>

definition quiet :: "trace \<Rightarrow> bool" where
  "quiet t \<longleftrightarrow> (\<forall>(c, r)\<in>set t. case c of Accept _ \<Rightarrow> False | Read _ _ \<Rightarrow> False | Close _ \<Rightarrow> False | _ \<Rightarrow> True)"

lemma quiet_serving: "quiet t \<Longrightarrow> srv \<subseteq> open_set t \<inter> watched t \<Longrightarrow> serving srv t"
  by (fastforce simp: quiet_def serving_def split: call.splits)

lemma port_SetNonblock_keeps:
  "run_state (port_SetNonblock env fd) t = (r, t') \<Longrightarrow>
   open_set t' = open_set t \<and> watched t' = watched t \<and> binds t' = binds t \<and> (quiet t \<longrightarrow> quiet t')"
  by (auto simp: port_SetNonblock_def quiet_def split: if_splits)

lemma port_listen_ok:
  "run_state (port_listen env efd port is srv) t = (Running srv', t') \<Longrightarrow>
   quiet t \<Longrightarrow> srv \<subseteq> open_set t \<inter> watched t \<Longrightarrow>
   quiet t' \<and> srv' \<subseteq> open_set t' \<inter> watched t' \<and>
   (\<exists>new. binds t' = binds t @ new \<and> map snd new = map (\<lambda>i. port + int i) is \<and> srv' = srv \<union> fst ` set new)"
proof (induction "is" arbitrary: srv t)
  case (Cons i "is")
  let ?s = "ret (env t Socket)" and ?p = "port + int i"
  let ?t1 = "(Socket, env t Socket) # t"
  let ?t2 = "(Bind ?s ''0.0.0.0'' ?p, env ?t1 (Bind ?s ''0.0.0.0'' ?p)) # ?t1"
  let ?t3 = "(Listen ?s 10, env ?t2 (Listen ?s 10)) # ?t2"
  obtain r t4 where nb: "run_state (port_SetNonblock env ?s) ?t3 = (r, t4)" by (metis prod.exhaust)
  let ?t5 = "(EpollAdd efd ?s, env t4 (EpollAdd efd ?s)) # t4"
  have s: "0 \<le> ?s" and run: "run_state (port_listen env efd port is (insert ?s srv)) ?t5 = (Running srv', t')"
    using Cons.prems(1) nb by (auto simp: run_bindR_Running ck_def split: if_splits)
  have "quiet ?t3" using Cons.prems(2) by (simp add: quiet_def)
  then have t5: "open_set ?t5 = insert ?s (open_set t)" "watched ?t5 = insert ?s (watched t)" "quiet ?t5"
    "binds ?t5 = binds t @ [(?s, ?p)]"
    using port_SetNonblock_keeps [OF nb] s by (simp_all add: quiet_def)
  have "insert ?s srv \<subseteq> open_set ?t5 \<inter> watched ?t5" using Cons.prems(3) t5(1,2) by auto
  from Cons.IH [OF run t5(3) this] show ?case unfolding t5(4) by auto
qed simp

lemma port_setup_ok:
  assumes "run_state (port_setup env args) [] = (Running (efd, srv), t)"
  obtains port where "port_args args = Inr port" "map snd (binds t) = map (\<lambda>i. port + int i) [0..<SERVER_SIZE]"
    "srv = fst ` set (binds t)" "serving srv t"
proof -
  obtain port where p: "port_args args = Inr port" and run:
    "run_state (port_listen env efd port [0..<SERVER_SIZE] {}) [(EpollCreate MAX_EPOLLSIZE, env [] (EpollCreate MAX_EPOLLSIZE))]
       = (Running srv, t)"
    using assms by (auto simp: port_setup_def run_bindR_Running)
  from port_listen_ok [OF run] have "quiet t" "srv \<subseteq> open_set t \<inter> watched t"
    "map snd (binds t) = map (\<lambda>i. port + int i) [0..<SERVER_SIZE]" "srv = fst ` set (binds t)"
    by (auto simp: quiet_def)
  then show thesis using that p quiet_serving by blast
qed

lemma binds_call:
  "\<forall>fd ip p. c \<noteq> Bind fd ip p \<Longrightarrow> keeps_trace (\<lambda>t. binds t = b) (sys env c)"
  "\<forall>fd ip p. c \<noteq> Bind fd ip p \<Longrightarrow> keeps_trace (\<lambda>t. binds t = b) (call_ret env c)"
  by (cases c; simp add: keeps_trace_def)+

lemmas binds_rules = keeps_trace_intros binds_call

lemma port_loop_binds: "keeps_trace (\<lambda>t. binds t = b) (port_loop env efd srv k n)"
proof -
  have e: "keeps_trace (\<lambda>t. binds t = b) (port_event env efd srv n e)" for n e
    unfolding port_event_def port_accept_def port_out_def by (cases e) (auto intro!: binds_rules)
  have "keeps_trace (\<lambda>t. binds t = b) (port_events env efd srv n es)" for n es
    by (induction es arbitrary: n) (auto intro!: binds_rules e)
  then show ?thesis by (induction k arbitrary: n) (auto intro!: binds_rules)
qed


section \<open>Clients\<close>

definition port_count :: "int \<Rightarrow> trace \<Rightarrow> bool" where
  "port_count n t \<longleftrightarrow> n = n_accepted t - n_left t \<and> n_closed t = n_left t + n_failed t"

lemma port_count_simps [simp]:
  "port_count n ((EpollWait e, r) # t) = port_count n t" "port_count n ((Usleep u, r) # t) = port_count n t"
  by (simp_all add: port_count_def)

lemma port_event_count:
  "run_state (port_event env efd srv n e) t = (Running n', t') \<Longrightarrow> port_count n t \<Longrightarrow> port_count n' t'"
  by (cases e) (auto simp: port_event_def port_accept_def port_out_def port_count_def run_bindR_Running split: if_splits)

lemma port_events_count:
  "run_state (port_events env efd srv n es) t = (Running n', t') \<Longrightarrow> port_count n t \<Longrightarrow> port_count n' t'"
  by (induction es arbitrary: n t) (auto simp: run_bindR_Running dest: port_event_count)

lemma port_loop_count:
  "run_state (port_loop env efd srv k n) t = (Running n', t') \<Longrightarrow> port_count n t \<Longrightarrow> port_count n' t'"
proof (induction k arbitrary: n t)
  case (Suc k)
  let ?t1 = "(EpollWait efd, env t (EpollWait efd)) # t"
  obtain n1 t2 where "run_state (port_events env efd srv n (take (nat (ret (env t (EpollWait efd)))) (evs (env t (EpollWait efd))))) ?t1
      = (Running n1, t2)"
    and "run_state (port_loop env efd srv k n1) ((Usleep 1000, env t2 (Usleep 1000)) # t2) = (Running n', t')"
    using Suc.prems(1) by (auto simp: run_bindR_Running)
  moreover from this(1) have "port_count n1 t2"
    using port_events_count Suc.prems(2) by simp
  ultimately show ?case using Suc.IH by simp
qed simp

text \<open>The number of clients exceeds the connections that are open by those whose \<open>recv\<close> failed.\<close>

lemma port_clients_overcounted:
  assumes "run_state (port_loop env efd srv k 0) t0 = (Running n, t)" "port_count 0 t0"
  shows "n = n_accepted t - n_closed t + n_failed t"
  using port_loop_count [OF assms] by (simp add: port_count_def)

text \<open>
  A client that is also writable gets back what stands in the buffer behind the greeting: the
  rest of the message it has just sent.
\<close>

lemma port_answer_has_old_text:
  assumes "ret (env t (Read fd PORT_BUFFER)) > 0" "data (env t (Read fd PORT_BUFFER)) = d" "length d < PORT_BUFFER"
    and "fd \<notin> srv" "has_in ev" "has_out ev" "length (port_greeting fd) < PORT_BUFFER"
  shows "\<exists>t'. run_state (port_event env efd srv n (fd, ev)) t = (Running n, t') \<and>
    writes t' = writes t @ [(fd, port_greeting fd @ NUL # drop (length (port_greeting fd) + 1) (port_buffer d))]"
proof -
  have "length (port_buffer d) = PORT_BUFFER" using assms(3) by (simp add: port_buffer_def)
  moreover have "\<exists>x. c_string (port_buffer d) = Inr x"
    using assms(3) by (auto simp: c_string_def port_buffer_def)
  ultimately show ?thesis
    using assms by (auto simp: port_event_def port_out_def strcpy_def)
qed

section \<open>An example\<close>

text \<open>A kernel that numbers the sockets and reports the first listening socket, then a client that left.\<close>

definition demo_ports :: env where
  "demo_ports t c = (case c of
     Socket \<Rightarrow> \<lparr>ret = int (length t), data = [], evs = []\<rparr>
   | Accept s \<Rightarrow> \<lparr>ret = 90, data = [], evs = []\<rparr>
   | EpollWait e \<Rightarrow> \<lparr>ret = 2, data = [], evs = [(1, 1), (91, 1)]\<rparr>
   | _ \<Rightarrow> \<lparr>ret = 0, data = [], evs = []\<rparr>)"

lemma port_listen_runs:
  "\<forall>t c. 0 \<le> ret (env t c) \<Longrightarrow> \<forall>i\<in>set is. is_i32 (port + int i) \<Longrightarrow>
   \<exists>srv' t'. run_state (port_listen env efd port is srv) t = (Running srv', t')"
proof (induction "is" arbitrary: srv t)
  case (Cons i "is")
  then show ?case by (simp add: run_bindR_Running port_SetNonblock_def)
qed simp

lemma demo_ports_run: "\<exists>n t. run_state (port_main demo_ports 1 []) [] = (Running n, t)"
proof -
  have pos: "\<forall>t c. 0 \<le> ret (demo_ports t c)" by (auto simp: demo_ports_def split: call.splits)
  have "\<forall>i\<in>set [0..<SERVER_SIZE]. is_i32 (8080 + int i)"
    by (auto simp: SERVER_SIZE_def is_i32_def INT_MAX_def INT_MIN_def)
  from port_listen_runs [OF pos this]
  obtain srv t where "run_state (port_listen demo_ports 0 8080 [0..<SERVER_SIZE] {}) [(EpollCreate MAX_EPOLLSIZE,
      demo_ports [] (EpollCreate MAX_EPOLLSIZE))] = (Running srv, t)"
    by blast
  moreover have "\<exists>n t'. run_state (port_loop demo_ports 0 srv 1 0) t = (Running n, t')" for srv t
    by (simp add: run_bindR_Running port_event_def port_accept_def port_out_def has_in_def has_out_def demo_ports_def)
  ultimately show ?thesis
    by (simp add: port_main_def port_setup_def port_args_def run_bindR_Running demo_ports_def)
qed


end
