(* ===== verification/PortClient.thy ===== *)
theory PortClient
  imports PortServer Http
begin

text \<open>
  Two clients: \<^verbatim>\<open>src/wzq_project/src/component/epoll_client.cpp\<close>, which connects to the ten ports of
  PortServer and answers all of them in one \<open>epoll\<close> loop, and \<^verbatim>\<open>src/wzq_http/client.cpp\<close>, the same
  loop over one connection to the web server. \<open>Failed 0\<close> is \<open>exit(0)\<close>; messages on standard output are left
  out, except that printing a received text needs a terminator.
\<close>

section \<open>The client of ten ports\<close>

definition CLIENT_SIZE :: nat where "CLIENT_SIZE = 10"

definition CLIENT_EPOLLSIZE :: int where "CLIENT_EPOLLSIZE = 10 * 2"

definition tc_SetNonblock :: "env \<Rightarrow> int \<Rightarrow> int io" where
  "tc_SetNonblock env fd = do {
     flags \<leftarrow> call_ret env (Fcntl fd);
     if flags < 0 then return flags
     else do { r \<leftarrow> call_ret env (Fcntl fd); return (if r < 0 then - 1 else 0) }
   }"

definition tc_SetReUseAddr :: "env \<Rightarrow> int \<Rightarrow> int io" where
  "tc_SetReUseAddr env fd = call_ret env (SetSockOpt fd)"

text \<open>The connections to the ports \<open>port + i\<close>, and the counter of connections.\<close>

fun tc_connect :: "env \<Rightarrow> int \<Rightarrow> string \<Rightarrow> int \<Rightarrow> nat list \<Rightarrow> int \<Rightarrow> int outcome io" where
  "tc_connect env efd ip port [] icnt = return (Running icnt)"
| "tc_connect env efd ip port (i # is) icnt = do {
     sockfd \<leftarrow> call_ret env Socket;
     bindR (guardR (0 \<le> sockfd) 0) (\<lambda>_.
     bindR (liftR (ck (port + int i))) (\<lambda>p. do {
       c \<leftarrow> call_ret env (Connect sockfd ip p);
       bindR (guardR (0 \<le> c) 0) (\<lambda>_. do {
         _ \<leftarrow> tc_SetNonblock env sockfd;
         _ \<leftarrow> tc_SetReUseAddr env sockfd;
         _ \<leftarrow> sys env (EpollAdd efd sockfd);
         tc_connect env efd ip port is (icnt + 1)
       })
     }))
   }"

definition tc_greeting :: "int \<Rightarrow> string" where
  "tc_greeting fd = ''hello ,I am client '' @ show_int fd"

definition tc_out :: "env \<Rightarrow> int \<Rightarrow> nat \<Rightarrow> char list \<Rightarrow> int \<Rightarrow> int outcome io" where
  "tc_out env fd ev buf icnt =
     (if has_out ev then
        bindR (liftR (strcpy buf (tc_greeting fd))) (\<lambda>b. do {
          _ \<leftarrow> sys env (Write fd b);
          return (Running icnt)
        })
      else return (Running icnt))"

text \<open>One event; the buffer was cleared before it.\<close>

definition tc_event :: "env \<Rightarrow> int \<Rightarrow> int \<Rightarrow> int \<times> nat \<Rightarrow> int outcome io" where
  "tc_event env efd icnt = (\<lambda>(fd, ev).
     if has_in ev then do {
       r \<leftarrow> sys env (Read fd PORT_BUFFER);
       if ret r > 0 then
         bindR (liftR (c_string (port_buffer (data r)))) (\<lambda>_. tc_out env fd ev (port_buffer (data r)) icnt)
       else if ret r = 0 then do {
         _ \<leftarrow> sys env (EpollDel efd fd);
         _ \<leftarrow> sys env (Close fd);
         tc_out env fd ev (port_buffer []) (icnt - 1)
       }
       else if ret r = - 4 then return (Running icnt)
       else do {
         _ \<leftarrow> sys env (Close fd);
         tc_out env fd ev (port_buffer []) icnt
       }
     }
     else tc_out env fd ev (port_buffer []) icnt)"

fun tc_events :: "env \<Rightarrow> int \<Rightarrow> int \<Rightarrow> (int \<times> nat) list \<Rightarrow> int outcome io" where
  "tc_events env efd icnt [] = return (Running icnt)"
| "tc_events env efd icnt (e # es) =
     bindR (tc_event env efd icnt e) (\<lambda>n. tc_events env efd n es)"

text \<open>
  The counter is also the number of events asked for: \<open>epoll_wait\<close> fails (\<open>EINVAL\<close>) when it is not
  positive, and reports at most that many events otherwise.
\<close>

fun tc_loop :: "env \<Rightarrow> int \<Rightarrow> nat \<Rightarrow> int \<Rightarrow> int outcome io" where
  "tc_loop env efd 0 icnt = return (Running icnt)"
| "tc_loop env efd (Suc k) icnt = do {
     r \<leftarrow> sys env (EpollWait efd);
     bindR (guardR (0 < icnt \<and> 0 \<le> ret r) 0) (\<lambda>_.
     bindR (tc_events env efd icnt (take (nat (min icnt (ret r))) (evs r))) (\<lambda>n. do {
       _ \<leftarrow> sys env (Usleep 1000);
       tc_loop env efd k n
     }))
   }"

text \<open>The address (in a buffer of 64 characters) and the port.\<close>

definition tc_args :: "string list \<Rightarrow> (string \<times> int) res" where
  "tc_args args = (case args of
     [ip, p] \<Rightarrow> bindE (strcpy (replicate 64 NUL) ip) (\<lambda>b. bindE (c_string b) (\<lambda>ip'. bindE (atoi p) (\<lambda>port. Inr (ip', port))))
   | _ \<Rightarrow> Inr (''127.0.0.1'', 8080))"

definition tc_main :: "env \<Rightarrow> nat \<Rightarrow> string list \<Rightarrow> int outcome io" where
  "tc_main env k args =
     bindR (liftR (tc_args args)) (\<lambda>(ip, port). do {
       efd \<leftarrow> call_ret env (EpollCreate CLIENT_EPOLLSIZE);
       bindR (guardR (0 \<le> efd) 0) (\<lambda>_.
       bindR (tc_connect env efd ip port [0..<CLIENT_SIZE] 0) (\<lambda>icnt. tc_loop env efd k icnt))
     })"

section \<open>The counter of connections\<close>

fun is_connect :: "call \<Rightarrow> reply \<Rightarrow> bool" where
  "is_connect (Connect fd ip p) r \<longleftrightarrow> True"
| "is_connect c r \<longleftrightarrow> False"

abbreviation "n_connected \<equiv> count_calls is_connect"

text \<open>
  The counter falls with every connection that ends, but not when \<open>recv\<close> fails: those sockets
  are closed and stay counted.
\<close>

definition tc_count :: "int \<Rightarrow> trace \<Rightarrow> bool" where
  "tc_count n t \<longleftrightarrow> n_connected t = int CLIENT_SIZE \<and> n = n_connected t - n_left t \<and> n_closed t = n_left t + n_failed t"

lemma tc_count_simps [simp]:
  "tc_count n ((EpollWait e, r) # t) = tc_count n t" "tc_count n ((Usleep u, r) # t) = tc_count n t"
  "tc_count n ((Write fd s, r) # t) = tc_count n t"
  by (simp_all add: tc_count_def)

lemma tc_event_count: "triple (tc_count n) (tc_event env efd n e) tc_count"
  unfolding triple_def
  by (cases e) (auto simp: tc_event_def tc_out_def run_bindR_Running tc_count_def split: if_splits)

lemma tc_events_count: "triple (tc_count n) (tc_events env efd n es) tc_count"
proof (induction es arbitrary: n)
  case (Cons e es)
  then show ?case by (auto intro: triple_bindR tc_event_count)
qed (simp add: triple_return)

lemma tc_loop_count: "triple (tc_count n) (tc_loop env efd k n) tc_count"
proof (induction k arbitrary: n)
  case (Suc k)
  have again: "triple (tc_count m) (sys env (Usleep 1000) \<bind> (\<lambda>_. tc_loop env efd k m)) tc_count" for m
    by (rule triple_sys, rule triple_weaken [OF Suc.IH]) auto
  have step: "triple (tc_count n) (bindR (tc_events env efd n es)
      (\<lambda>m. sys env (Usleep 1000) \<bind> (\<lambda>_. tc_loop env efd k m))) tc_count" for es
    by (rule triple_bindR [OF tc_events_count again])
  show ?case
    unfolding tc_loop.simps by (intro triple_sys triple_guardR, rule triple_weaken, rule step) auto
qed (simp add: triple_return)

lemma tc_SetNonblock_count:
  "run_state (tc_SetNonblock env fd) t = (r, t') \<Longrightarrow>
   n_connected t' = n_connected t \<and> n_left t' = n_left t \<and> n_closed t' = n_closed t \<and> n_failed t' = n_failed t"
  by (auto simp: tc_SetNonblock_def split: if_splits)

lemma tc_connect_count:
  "run_state (tc_connect env efd ip port is n) t = (Running n', t') \<Longrightarrow>
   n' = n + int (length is) \<and> n_connected t' = n_connected t + int (length is) \<and>
   n_left t' = n_left t \<and> n_closed t' = n_closed t \<and> n_failed t' = n_failed t"
proof (induction "is" arbitrary: n t)
  case (Cons i "is")
  let ?s = "ret (env t Socket)" and ?p = "port + int i"
  let ?t1 = "(Socket, env t Socket) # t"
  let ?t2 = "(Connect ?s ip ?p, env ?t1 (Connect ?s ip ?p)) # ?t1"
  obtain r t3 where nb: "run_state (tc_SetNonblock env ?s) ?t2 = (r, t3)" by (metis prod.exhaust)
  let ?t4 = "(SetSockOpt ?s, env t3 (SetSockOpt ?s)) # t3"
  let ?t5 = "(EpollAdd efd ?s, env ?t4 (EpollAdd efd ?s)) # ?t4"
  have "run_state (tc_connect env efd ip port is (n + 1)) ?t5 = (Running n', t')"
    using Cons.prems nb by (auto simp: run_bindR_Running ck_def tc_SetReUseAddr_def split: if_splits)
  from Cons.IH [OF this] show ?case
    using tc_SetNonblock_count [OF nb] by simp
qed simp

text \<open>A run goes on from where it was cut.\<close>

lemma tc_loop_more:
  "run_state (tc_loop env efd k n) t = (Running n', t') \<Longrightarrow>
   run_state (tc_loop env efd (k + j) n) t = run_state (tc_loop env efd j n') t'"
proof (induction k arbitrary: n t)
  case (Suc k)
  let ?r = "env t (EpollWait efd)"
  obtain m t1 where m: "0 < n" "0 \<le> ret ?r"
    "run_state (tc_events env efd n (take (nat (min n (ret ?r))) (evs ?r))) ((EpollWait efd, ?r) # t) = (Running m, t1)"
    "run_state (tc_loop env efd k m) ((Usleep 1000, env t1 (Usleep 1000)) # t1) = (Running n', t')"
    using Suc.prems by (auto simp: run_bindR_Running)
  then show ?case using Suc.IH by (simp add: bindR_def guardR_def)
qed simp

text \<open>
  C21: When the client ends. While it runs, the counter is ten minus the connections that ended in order, and when all
  have ended the next \<open>epoll_wait\<close> makes it exit. A connection whose \<open>recv\<close> failed is
  closed but stays counted: with such a failure the counter is positive although
  nothing is connected, and the client never exits this way.
\<close>

theorem client_ends_when_all_left:
  assumes "run_state (tc_main env k args) [] = (Running n, t)"
  shows "n = int CLIENT_SIZE - n_left t \<and> n_closed t = n_left t + n_failed t \<and>
    (n_left t = int CLIENT_SIZE \<longrightarrow> fst (run_state (tc_main env (Suc k) args) []) = Failed 0) \<and>
    (n_closed t = int CLIENT_SIZE \<longrightarrow> n = n_failed t)"
proof -
  let ?e = "env [] (EpollCreate CLIENT_EPOLLSIZE)"
  obtain ip port n0 t0 where a: "tc_args args = Inr (ip, port)"
    and e: "0 \<le> ret ?e"
    and c: "run_state (tc_connect env (ret ?e) ip port [0..<CLIENT_SIZE] 0) [(EpollCreate CLIENT_EPOLLSIZE, ?e)] = (Running n0, t0)"
    and l: "run_state (tc_loop env (ret ?e) k n0) t0 = (Running n, t)"
    using assms by (auto simp: tc_main_def run_bindR_Running)
  have "tc_count n0 t0" using tc_connect_count [OF c] by (simp add: tc_count_def)
  then have count: "tc_count n t" by (rule tripleD [OF tc_loop_count l])
  have "run_state (tc_main env (Suc k) args) [] = run_state (tc_loop env (ret ?e) (Suc 0) n) t"
    using a e c tc_loop_more [OF l, of "Suc 0"] by (simp add: tc_main_def bindR_def guardR_def liftR_def)
  then have "n \<le> 0 \<Longrightarrow> fst (run_state (tc_main env (Suc k) args) []) = Failed 0"
    by (simp add: bindR_def guardR_def)
  then show ?thesis using count by (auto simp: tc_count_def)
qed

text \<open>A kernel on which ten connections end in the first round.\<close>

definition demo_leaving :: env where
  "demo_leaving t c = (case c of
     EpollWait e \<Rightarrow> \<lparr>ret = 10, data = [], evs = map (\<lambda>i. (int i, 1)) [3..<13]\<rparr>
   | _ \<Rightarrow> \<lparr>ret = 0, data = [], evs = []\<rparr>)"

lemma tc_connect_runs:
  "\<forall>t c. 0 \<le> ret (env t c) \<Longrightarrow> \<forall>i\<in>set is. is_i32 (port + int i) \<Longrightarrow>
   \<exists>n' t'. run_state (tc_connect env efd ip port is n) t = (Running n', t')"
proof (induction "is" arbitrary: n t)
  case (Cons i "is")
  then show ?case by (simp add: run_bindR_Running tc_SetNonblock_def tc_SetReUseAddr_def)
qed simp

lemma client_ends_when_all_left_witness:
  "fst (run_state (tc_main demo_leaving 2 []) []) = Failed 0"
proof -
  have pos: "\<forall>t c. 0 \<le> ret (demo_leaving t c)" by (auto simp: demo_leaving_def split: call.splits)
  have small: "\<forall>i\<in>set [0..<CLIENT_SIZE]. is_i32 (8080 + int i)"
    by (auto simp: CLIENT_SIZE_def is_i32_def INT_MAX_def INT_MIN_def)
  let ?e = "demo_leaving [] (EpollCreate CLIENT_EPOLLSIZE)"
  obtain n t where c: "run_state (tc_connect demo_leaving 0 ''127.0.0.1'' 8080 [0..<CLIENT_SIZE] 0)
      [(EpollCreate CLIENT_EPOLLSIZE, ?e)] = (Running n, t)"
    using tc_connect_runs [OF pos small] by blast
  then have n: "n = 10" using tc_connect_count [OF c] by (simp add: CLIENT_SIZE_def)
  have "\<exists>t'. run_state (tc_loop demo_leaving 0 1 10) t = (Running 0, t')"
    by (simp add: run_bindR_Running tc_event_def tc_out_def has_in_def has_out_def demo_leaving_def)
  then obtain t' where run: "run_state (tc_main demo_leaving 1 []) [] = (Running 0, t')"
    using c n by (auto simp: tc_main_def tc_args_def run_bindR_Running demo_leaving_def)
  from client_ends_when_all_left [OF run] show ?thesis by (simp add: numeral_2_eq_2)
qed

section \<open>The client of the web server\<close>

text \<open>The server's address and the size of the events array.\<close>

definition wc_IP :: string where "wc_IP = ''127.0.0.1''"

definition wc_SetNonblock :: "env \<Rightarrow> int \<Rightarrow> int io" where
  "wc_SetNonblock env fd = do {
     flags \<leftarrow> call_ret env (Fcntl fd);
     if flags < 0 then return flags
     else do { r \<leftarrow> call_ret env (Fcntl fd); return (if r < 0 then - 1 else 0) }
   }"

text \<open>Never called.\<close>

definition wc_SetReUseAddr :: "env \<Rightarrow> int \<Rightarrow> int io" where
  "wc_SetReUseAddr env fd = call_ret env (SetSockOpt fd)"

definition wc_text :: string where
  "wc_text = ''hello  server ,I'm a client''"

text \<open>
  One event: a readable connection is not written to. The end of the stream, where \<open>recv\<close> returns 0, is
  printed like a message.
\<close>

definition wc_event :: "env \<Rightarrow> int \<times> nat \<Rightarrow> unit outcome io" where
  "wc_event env = (\<lambda>(fd, ev).
     if has_in ev then do {
       r \<leftarrow> sys env (Read fd HTTP_BUFFER_SIZE);
       bindR (guardR (0 \<le> ret r) 0) (\<lambda>_.
       bindR (liftR (c_string (http_buffer (data r)))) (\<lambda>_. return (Running ())))
     }
     else if has_out ev then
       bindR (liftR (strcpy (http_buffer []) wc_text)) (\<lambda>b. do {
         w \<leftarrow> call_ret env (Write fd b);
         guardR (0 \<le> w) 0
       })
     else return (Running ()))"

fun wc_events :: "env \<Rightarrow> (int \<times> nat) list \<Rightarrow> unit outcome io" where
  "wc_events env [] = return (Running ())"
| "wc_events env (e # es) = bindR (wc_event env e) (\<lambda>_. wc_events env es)"

fun wc_loop :: "env \<Rightarrow> int \<Rightarrow> nat \<Rightarrow> unit outcome io" where
  "wc_loop env efd 0 = return (Running ())"
| "wc_loop env efd (Suc k) = do {
     r \<leftarrow> sys env (EpollWait efd);
     bindR (guardR (0 \<le> ret r) 0) (\<lambda>_.
     bindR (wc_events env (take (nat (ret r)) (evs r))) (\<lambda>_. do {
       _ \<leftarrow> sys env (Usleep 1000);
       wc_loop env efd k
     }))
   }"

definition wc_Run :: "env \<Rightarrow> nat \<Rightarrow> unit outcome io" where
  "wc_Run env k = do {
     sockfd \<leftarrow> call_ret env Socket;
     bindR (guardR (0 \<le> sockfd) 0) (\<lambda>_. do {
       c \<leftarrow> call_ret env (Connect sockfd wc_IP HTTP_PORT);
       bindR (guardR (0 \<le> c) 0) (\<lambda>_. do {
         _ \<leftarrow> wc_SetNonblock env sockfd;
         efd \<leftarrow> call_ret env (EpollCreate CONNECT_SIZE);
         bindR (guardR (0 \<le> efd) 0) (\<lambda>_. do {
           _ \<leftarrow> sys env (EpollAdd efd sockfd);
           wc_loop env efd k
         })
       })
     })
   }"

text \<open>What the client writes is the text with the rest of its buffer.\<close>

definition wc_message :: "char list" where
  "wc_message = wc_text @ replicate (HTTP_BUFFER_SIZE - length wc_text) NUL"

lemma wc_message_eq: "strcpy (http_buffer []) wc_text = Inr wc_message"
proof -
  have "length wc_text < HTTP_BUFFER_SIZE" by (simp add: HTTP_BUFFER_SIZE_def wc_text_def)
  then obtain k where "HTTP_BUFFER_SIZE = length wc_text + Suc k" by (auto dest: less_imp_Suc_add)
  then have "HTTP_BUFFER_SIZE - length wc_text = Suc k" "HTTP_BUFFER_SIZE - Suc (length wc_text) = k"
    "length wc_text < HTTP_BUFFER_SIZE"
    by simp_all
  then show ?thesis by (simp add: strcpy_def http_buffer_def wc_message_def)
qed

lemma http_buffer_message: "http_buffer wc_message = wc_message" "c_string wc_message = Inr wc_text" "length wc_message = HTTP_BUFFER_SIZE"
proof -
  have l: "length wc_text < HTTP_BUFFER_SIZE" by (simp add: HTTP_BUFFER_SIZE_def wc_text_def)
  then obtain k where k: "HTTP_BUFFER_SIZE - length wc_text = Suc k" by (cases "HTTP_BUFFER_SIZE - length wc_text") auto
  show len: "length wc_message = HTTP_BUFFER_SIZE" using l by (simp add: wc_message_def)
  then show "http_buffer wc_message = wc_message" by (simp add: http_buffer_def)
  have "NUL \<notin> set wc_text" by (simp add: wc_text_def)
  then show "c_string wc_message = Inr wc_text" by (simp add: wc_message_def k c_string_prefix)
qed

lemma answer_for_message: "answer_for wc_message = Inr ''hello .this is server!''"
proof -
  have "strstr wc_text ''GET '' = None" by (simp add: wc_text_def strstr.simps)
  moreover have "\<exists>b. memset0 wc_message 8 = Inr b \<and> length b = HTTP_BUFFER_SIZE"
    using http_buffer_message(3) by (simp add: memset0_def HTTP_BUFFER_SIZE_def)
  ultimately show ?thesis
    by (auto simp: answer_for_def http_buffer_message(2) HTTP_BUFFER_SIZE_def intro!: strcpy_c_string)
qed


definition demo_web :: env where
  "demo_web t c = (case c of
     Read fd n \<Rightarrow> (if fd = 5 then \<lparr>ret = int (length wc_message), data = wc_message, evs = []\<rparr>
       else \<lparr>ret = 22, data = ''hello .this is server!'', evs = []\<rparr>)
   | _ \<Rightarrow> \<lparr>ret = 0, data = [], evs = []\<rparr>)"


end
