(* ===== verification/ChatClients.thy ===== *)
theory ChatClients
  imports PollChat Outcome
begin

text \<open>
  Two programs that connect the terminal with a socket: the client with a heartbeat
  (the file whose name begins with \<^verbatim>\<open>src/socket/\<close> and means ``example of a long connection'') and the client of the
  chat server, \<^verbatim>\<open>src/socket/network/poll_chat_client.cpp\<close>. \<open>Failed i\<close> is the end of the
  program with the status \<open>i\<close> (134 for a failing assertion); messages on standard output are left out.
\<close>

section \<open>The client with a heartbeat\<close>

definition MAXBUF :: nat where "MAXBUF = 1024"

definition heartbeat :: string where "heartbeat = ''hello server''"

definition to_lower :: "char \<Rightarrow> char" where
  "to_lower c = (if 65 \<le> (of_char c :: nat) \<and> (of_char c :: nat) \<le> 90 then char_of (of_char c + 32 :: nat) else c)"

text \<open>\<open>strncasecmp\<close>: whether the first \<open>n\<close> characters agree (no terminator among them differs).\<close>

definition same_prefix :: "string \<Rightarrow> string \<Rightarrow> nat \<Rightarrow> bool" where
  "same_prefix s p n \<longleftrightarrow> map to_lower (take n s) = map to_lower (take n p)"

text \<open>
  A message of the server. The buffer has \<open>MAXBUF\<close> characters and \<open>bzero\<close> is asked to clear one more. The
  flag says whether the loop goes on.
\<close>

definition beat_message :: "env \<Rightarrow> int \<Rightarrow> char list \<Rightarrow> (bool \<times> char list) outcome io" where
  "beat_message env sockfd buffer =
     bindR (liftR (memset0 buffer (MAXBUF + 1))) (\<lambda>b. do {
       r \<leftarrow> sys env (Read sockfd MAXBUF);
       if ret r > 0 then
         (let b' = take MAXBUF (data r) @ drop (length (take MAXBUF (data r))) b in
          bindR (liftR (c_string b')) (\<lambda>_. return (Running (True, b'))))
       else return (Running (False, b))
     })"

text \<open>A line of the terminal: it is sent without its last character; \<open>fgets\<close> is not checked.\<close>

definition beat_line :: "env \<Rightarrow> int \<Rightarrow> char list \<Rightarrow> (bool \<times> char list) outcome io" where
  "beat_line env sockfd buffer =
     bindR (liftR (memset0 buffer (MAXBUF + 1))) (\<lambda>b. do {
       r \<leftarrow> sys env (Fgets MAXBUF);
       bindR (liftR (if ret r > 0 then strcpy b (take (MAXBUF - 1) (data r)) else Inr b)) (\<lambda>b'.
       bindR (liftR (c_string b')) (\<lambda>s.
         if same_prefix s ''quit'' 4 then return (Running (False, b'))
         else bindR (liftR (if s = [] then Inl OutOfBounds else Inr (butlast s))) (\<lambda>m. do {
           w \<leftarrow> call_ret env (Write sockfd m);
           return (Running (0 \<le> w, b'))
         })))
     })"

text \<open>One round; \<open>select\<close> waits for two seconds.\<close>

definition beat_round :: "env \<Rightarrow> int \<Rightarrow> char list \<Rightarrow> (bool \<times> char list) outcome io" where
  "beat_round env sockfd buffer =
     bindR (liftR (fd_set sockfd)) (\<lambda>_. do {
       r \<leftarrow> sys env (Select [0, sockfd]);
       if ret r < 0 then return (Running (False, buffer))
       else if ret r = 0 then do {
         w \<leftarrow> call_ret env (Write sockfd heartbeat);
         return (Running (0 \<le> w, buffer))
       }
       else
         bindR (if sockfd \<in> fst ` set (evs r) then beat_message env sockfd buffer else return (Running (True, buffer)))
           (\<lambda>(go, b). if \<not> go then return (Running (False, b))
             else if 0 \<in> fst ` set (evs r) then beat_line env sockfd b else return (Running (True, b)))
     })"

fun beat_loop :: "env \<Rightarrow> int \<Rightarrow> nat \<Rightarrow> char list \<Rightarrow> unit outcome io" where
  "beat_loop env sockfd 0 buffer = return (Running ())"
| "beat_loop env sockfd (Suc k) buffer =
     bindR (beat_round env sockfd buffer) (\<lambda>(go, b).
       if go then beat_loop env sockfd k b
       else do { _ \<leftarrow> sys env (Close sockfd); return (Failed 0) })"

text \<open>
  \<open>main\<close> with the arguments after the program's name: \<open>inet_aton\<close> accepts some of the addresses. The status is
  the error code of the failing call, and 0 for a bad address, which sets none. The buffer
  starts with what is on the stack.
\<close>

definition beat_main :: "env \<Rightarrow> (string \<Rightarrow> bool) \<Rightarrow> char list \<Rightarrow> nat \<Rightarrow> string list \<Rightarrow> unit outcome io" where
  "beat_main env inet_aton stack k args = (case args of
     [ip, p] \<Rightarrow> do {
       s \<leftarrow> call_ret env Socket;
       bindR (guardR (0 \<le> s) (- s)) (\<lambda>_.
       bindR (liftR (atoi p)) (\<lambda>port.
       bindR (guardR (inet_aton ip) 0) (\<lambda>_. do {
         c \<leftarrow> call_ret env (Connect s ip port);
         bindR (guardR (c = 0) (- c)) (\<lambda>_. beat_loop env s k stack)
       })))
     }
   | _ \<Rightarrow> return (Failed 0))"

section \<open>Only heartbeats\<close>

lemma bzero_overflows: "length buffer = MAXBUF \<Longrightarrow> memset0 buffer (Suc MAXBUF) = Inl OutOfBounds"
  by (simp add: memset0_def)

lemma ready_overflows:
  "length buffer = MAXBUF \<Longrightarrow> beat_message env sockfd buffer = return (Crashed OutOfBounds)"
  "length buffer = MAXBUF \<Longrightarrow> beat_line env sockfd buffer = return (Crashed OutOfBounds)"
  by (simp_all add: beat_message_def beat_line_def bzero_overflows liftR_def bindR_def)

definition only_beats :: "trace \<Rightarrow> bool" where
  "only_beats t \<longleftrightarrow> (\<forall>(c, r)\<in>set t. case c of Read _ _ \<Rightarrow> False | Fgets _ \<Rightarrow> False | Write _ s \<Rightarrow> s = heartbeat | _ \<Rightarrow> True)"

lemma only_beats_call:
  "(case c of Read _ _ \<Rightarrow> False | Fgets _ \<Rightarrow> False | Write _ s \<Rightarrow> s = heartbeat | _ \<Rightarrow> True) \<Longrightarrow> keeps_trace only_beats (sys env c)"
  "(case c of Read _ _ \<Rightarrow> False | Fgets _ \<Rightarrow> False | Write _ s \<Rightarrow> s = heartbeat | _ \<Rightarrow> True) \<Longrightarrow> keeps_trace only_beats (call_ret env c)"
  by (auto intro!: keeps_trace_sys keeps_trace_call simp: only_beats_def)

lemmas beat_rules = keeps_trace_intros only_beats_call

text \<open>A round that goes on has sent a heartbeat, or nothing was ready; what is ready ends in the overflow.\<close>

lemma beat_ready_overflows:
  assumes "length buffer = MAXBUF" "0 \<le> sockfd" "sockfd < 1024"
    and "r = env t (Select [0, sockfd])" "0 < ret r" "0 \<in> fst ` set (evs r) \<or> sockfd \<in> fst ` set (evs r)"
  shows "run_state (beat_round env sockfd buffer) t = (Crashed OutOfBounds, (Select [0, sockfd], r) # t)"
  using assms by (auto simp: beat_round_def ready_overflows fd_set_def liftR_def bindR_def)

lemma beat_round_only:
  assumes "length buffer = MAXBUF"
  shows "keeps_trace only_beats (beat_round env sockfd buffer)"
  unfolding beat_round_def ready_overflows [OF assms] bindR_if bindR_simps
  by (auto intro!: beat_rules simp: ready_overflows [OF assms])

lemma beat_round_buffer:
  "length buffer = MAXBUF \<Longrightarrow> run_state (beat_round env sockfd buffer) t = (Running (go, b), t') \<Longrightarrow> b = buffer"
  by (auto simp: beat_round_def ready_overflows run_bindR_Running split: if_splits)

lemma beat_loop_only:
  "length buffer = MAXBUF \<Longrightarrow> keeps_trace only_beats (beat_loop env sockfd k buffer)"
proof (induction k)
  case (Suc k)
  have "only_beats (snd (run_state (beat_loop env sockfd (Suc k) buffer) t))" if t: "only_beats t" for t
  proof -
    obtain r t1 where r: "run_state (beat_round env sockfd buffer) t = (r, t1)" by (metis prod.exhaust)
    then have t1: "only_beats t1"
      using beat_round_only [OF Suc.prems] t by (metis keeps_trace_def snd_conv)
    show ?thesis
    proof (cases "\<exists>go b. r = Running (go, b)")
      case True
      then have "r = Running (True, buffer) \<or> (\<exists>b. r = Running (False, b))"
        using beat_round_buffer [OF Suc.prems] r by (metis (full_types))
      then show ?thesis
        using Suc.IH [OF Suc.prems] r t1 only_beats_call(1) [of "Close sockfd" env]
        by (auto simp: bindR_def keeps_trace_def)
    next
      case False
      then show ?thesis using r t1 by (cases r) (auto simp: bindR_def)
    qed
  qed
  then show ?case by (simp only: keeps_trace_def) blast
qed (simp add: keeps_trace_return)

lemma beat_loop_more:
  "length buffer = MAXBUF \<Longrightarrow> run_state (beat_loop env sockfd k buffer) t = (Running (), t') \<Longrightarrow>
   run_state (beat_loop env sockfd (Suc k) buffer) t = run_state (beat_loop env sockfd 1 buffer) t'"
proof (induction k arbitrary: t)
  case (Suc k)
  obtain go b t1 where r: "run_state (beat_round env sockfd buffer) t = (Running (go, b), t1)"
    and l: "run_state (if go then beat_loop env sockfd k b else do { _ \<leftarrow> sys env (Close sockfd); return (Failed 0) }) t1 = (Running (), t')"
    using Suc.prems(2) by (auto simp: run_bindR_Running)
  from l have "go" by (cases go) auto
  with l have go: go and l: "run_state (beat_loop env sockfd k buffer) t1 = (Running (), t')"
    using beat_round_buffer [OF Suc.prems(1) r] by simp_all
  have "run_state (beat_loop env sockfd (Suc (Suc k)) buffer) t = run_state (beat_loop env sockfd (Suc k) buffer) t1"
    using r go beat_round_buffer [OF Suc.prems(1) r] by (simp add: bindR_def)
  then show ?case using Suc.IH [OF Suc.prems(1) l] by simp
qed simp


text \<open>A server that speaks after the first heartbeat.\<close>

definition demo_beat :: env where
  "demo_beat t c = (case c of
     Socket \<Rightarrow> \<lparr>ret = 3, data = [], evs = []\<rparr>
   | Select l \<Rightarrow> (if length t < 3 then \<lparr>ret = 0, data = [], evs = []\<rparr> else \<lparr>ret = 1, data = [], evs = [(3, 1)]\<rparr>)
   | _ \<Rightarrow> \<lparr>ret = 0, data = [], evs = []\<rparr>)"


section \<open>The client of the chat server\<close>

definition pcc_fds :: "int \<Rightarrow> pollfd list" where
  "pcc_fds sockfd = [\<lparr>fd = 0, events = POLLIN, revents = 0\<rparr>,
     \<lparr>fd = sockfd, events = POLLIN OR POLLRDHUP, revents = 0\<rparr>]"

text \<open>The two descriptors of a pipe, in the reply.\<close>

definition pipe_fds :: "reply \<Rightarrow> int \<times> int" where
  "pipe_fds r = (case evs r of (a, _) # (b, _) # _ \<Rightarrow> (a, b) | _ \<Rightarrow> (0, 0))"

text \<open>
  One round: the events of the terminal (entry 0) and of the socket (entry 1). What the terminal offers
  is moved to the pipe and from the pipe to the socket. The received text is printed; at most 1023 characters are read
  into a cleared buffer of 1024.
\<close>

definition pcc_round :: "env \<Rightarrow> int \<Rightarrow> int \<times> int \<Rightarrow> bool io" where
  "pcc_round env sockfd = (\<lambda>(rd_end, wr_end). do {
     r \<leftarrow> sys env (Poll (map (\<lambda>f. (fd f, unat (events f))) (pcc_fds sockfd)));
     if ret r < 0 then return False
     else
       (let e0 = revents (polled r 0 (pcc_fds sockfd ! 0)); e1 = revents (polled r 1 (pcc_fds sockfd ! 1)) in
        if has e1 POLLRDHUP then return False
        else do {
          _ \<leftarrow> (if has e1 POLLIN then do { _ \<leftarrow> sys env (Read sockfd 1023); return () } else return ());
          _ \<leftarrow> (if has e0 POLLIN then do {
              _ \<leftarrow> sys env (Splice 0 wr_end 32768);
              _ \<leftarrow> sys env (Splice rd_end sockfd 32768);
              return ()
            } else return ());
          return True
        })
   })"

fun pcc_loop :: "env \<Rightarrow> int \<Rightarrow> int \<times> int \<Rightarrow> nat \<Rightarrow> unit outcome io" where
  "pcc_loop env sockfd pfds 0 = return (Running ())"
| "pcc_loop env sockfd pfds (Suc k) = do {
     go \<leftarrow> pcc_round env sockfd pfds;
     if go then pcc_loop env sockfd pfds k
     else do { _ \<leftarrow> sys env (Close sockfd); return (Failed 0) }
   }"

definition pcc_main :: "env \<Rightarrow> nat \<Rightarrow> string list \<Rightarrow> unit outcome io" where
  "pcc_main env k args = (case args of
     ip # p # _ \<Rightarrow>
       bindR (liftR (atoi p)) (\<lambda>port. do {
         s \<leftarrow> call_ret env Socket;
         bindR (guardR (0 < s) 134) (\<lambda>_. do {
           c \<leftarrow> call_ret env (Connect s ip port);
           if c < 0 then do { _ \<leftarrow> sys env (Close s); return (Failed (- 1)) }
           else do {
             r \<leftarrow> sys env Pipe;
             bindR (guardR (0 \<le> ret r) 134) (\<lambda>_. pcc_loop env s (pipe_fds r) k)
           }
         })
       })
   | _ \<Rightarrow> return (Failed (- 1)))"

text \<open>The sockets that are open: the client's own while it runs, none after a normal end.\<close>

lemma pcc_round_keeps: "keeps_trace (\<lambda>t. open_fds t = m) (pcc_round env sockfd p)"
  unfolding pcc_round_def Let_def
  by (auto intro!: keeps_trace_intros keeps_trace_sys split: prod.split)

lemma pcc_loop_descriptors:
  "run_state (pcc_loop env s p k) t = (o1, t') \<Longrightarrow>
   open_fds t' = open_fds t \<and> o1 = Running () \<or> open_fds t' = open_fds t - {#s#} \<and> o1 = Failed 0"
proof (induction k arbitrary: t)
  case (Suc k)
  obtain go t1 where r: "run_state (pcc_round env s p) t = (go, t1)" by (metis prod.exhaust)
  then have "open_fds t1 = open_fds t" by (rule keeps_traceD [OF pcc_round_keeps]) simp
  then show ?case using Suc.prems r by (cases go) (auto dest: Suc.IH)
qed auto

lemma pcc_descriptors:
  assumes "run_state (pcc_main env k args) [] = (o1, t)"
  shows "(case o1 of Running _ \<Rightarrow> open_fds t = {#ret (env [] Socket)#}
    | Failed i \<Rightarrow> i \<noteq> 134 \<longrightarrow> open_fds t = {#} | Crashed e \<Rightarrow> open_fds t = {#})"
  using assms
  by (auto simp: pcc_main_def bindR_def guardR_def liftR_def split: list.splits if_splits sum.splits
      dest!: pcc_loop_descriptors)

end
