(* ===== verification/SelectServer.thy ===== *)
theory SelectServer
  imports Http
begin

text \<open>
  The first socket programs of the repository: a \<open>select\<close> server and its client (\<^verbatim>\<open>src/socket/server.cpp\<close>,
  \<^verbatim>\<open>client.cpp\<close>, \<^verbatim>\<open>common.h\<close>), a server for one client at a time and its client
  (\<^verbatim>\<open>src/socket/20160222\<close>), and a server of one page (\<^verbatim>\<open>src/socket/httptest.cpp\<close>). \<open>Failed i\<close> is
  \<open>exit(i)\<close>; messages on standard output are left out, except that printing a buffer needs a
  terminator. The local time is a parameter that sees the trace.
\<close>

section \<open>Common parts\<close>

definition SEL_PORT :: int where "SEL_PORT = 6666"

definition SEL_SIZE :: nat where "SEL_SIZE = 1024"

definition MAX_ATTARCH_SIZE :: nat where "MAX_ATTARCH_SIZE = 10"

text \<open>The time is printed into an array of 15 characters.\<close>

definition CurTime :: "tm \<Rightarrow> char list res" where
  "CurTime x = strcpy (replicate 15 NUL)
     (pad0 4 (tm_year x + 1900) @ pad0 2 (tm_mon x + 1) @ pad0 2 (tm_mday x) @
      pad0 2 (tm_hour x) @ pad0 2 (tm_min x) @ pad0 2 (tm_sec x))"

definition clock :: "(trace \<Rightarrow> tm) \<Rightarrow> tm io" where
  "clock now = State_Monad.get \<bind> (\<lambda>t. return (now t))"

text \<open>The first \<open>n\<close> characters of a buffer, as \<open>write\<close> reads them (a negative number is a huge size).\<close>

definition read_buf :: "char list \<Rightarrow> int \<Rightarrow> char list res" where
  "read_buf buf n = (if 0 \<le> n \<and> n \<le> int (length buf) then Inr (take (nat n) buf) else Inl OutOfBounds)"

definition to_upper :: "char \<Rightarrow> char" where
  "to_upper c = (if 97 \<le> (of_char c :: nat) \<and> (of_char c :: nat) \<le> 122 then char_of (of_char c - 32 :: nat) else c)"

section \<open>The select server\<close>

record sel =
  clients :: "int list"
  maxi :: int
  maxFd :: int
  allset :: "int list"

text \<open>A new client takes the first free slot.\<close>

definition sel_accept :: "env \<Rightarrow> int \<Rightarrow> sel \<Rightarrow> sel outcome io" where
  "sel_accept env iServFd s = do {
     c \<leftarrow> call_ret env (Accept iServFd);
     bindR (guardR (0 \<le> c) (- 1)) (\<lambda>_.
       let i = length (takeWhile (\<lambda>d. 0 \<le> d) (clients s)) in
       bindR (guardR (i \<noteq> MAX_ATTARCH_SIZE) 1) (\<lambda>_.
       bindR (liftR (fd_set c)) (\<lambda>_.
       return (Running (s\<lparr>clients := (clients s)[i := c], allset := List.insert c (allset s),
         maxFd := max (maxFd s) c, maxi := max (maxi s) (int i)\<rparr>)))))
   }"

text \<open>One readable client; what was read is sent back in upper case. A failing \<open>read\<close> returns -1 to \<open>write\<close>.\<close>

definition sel_readable :: "env \<Rightarrow> nat \<Rightarrow> int \<Rightarrow> sel \<Rightarrow> sel outcome io" where
  "sel_readable env i d s = do {
     r \<leftarrow> sys env (Read d SEL_SIZE);
     if ret r = 0 then do {
       _ \<leftarrow> sys env (Close d);
       return (Running (s\<lparr>clients := (clients s)[i := - 1], allset := removeAll d (allset s)\<rparr>))
     }
     else bindR (liftR (read_buf (map to_upper (data r)) (ret r))) (\<lambda>w. do {
       _ \<leftarrow> sys env (Write d w);
       return (Running s)
     })
   }"

text \<open>The slots of a list, with the number of descriptors that are still to be handled. Every client gets the time.\<close>

fun sel_pass :: "env \<Rightarrow> (trace \<Rightarrow> tm) \<Rightarrow> int set \<Rightarrow> int \<Rightarrow> nat list \<Rightarrow> sel \<Rightarrow> sel outcome io" where
  "sel_pass env now rset nready [] s = return (Running s)"
| "sel_pass env now rset nready (i # is) s =
     (let d = clients s ! i in
      if d < 0 then sel_pass env now rset nready is s
      else do {
        x \<leftarrow> clock now;
        bindR (liftR (CurTime x)) (\<lambda>b.
        bindR (liftR (read_buf b (int SEL_SIZE))) (\<lambda>w. do {
          _ \<leftarrow> sys env (Write d w);
          if d \<in> rset then
            bindR (sel_readable env i d s) (\<lambda>s'.
              if nready - 1 = 0 then return (Running s')
              else sel_pass env now rset (nready - 1) is s')
          else sel_pass env now rset nready is s
        }))
      })"

text \<open>One round; when \<open>select\<close> fails the set is unchanged, and every descriptor counts as ready.\<close>

definition sel_round :: "env \<Rightarrow> (trace \<Rightarrow> tm) \<Rightarrow> int \<Rightarrow> sel \<Rightarrow> sel outcome io" where
  "sel_round env now iServFd s = do {
     r \<leftarrow> sys env (Select (allset s));
     let rset = (if ret r < 0 then set (allset s) else fst ` set (evs r));
         slots = (\<lambda>s'. [0..<nat (maxi s' + 1)]) in
     if iServFd \<in> rset then
       bindR (sel_accept env iServFd s) (\<lambda>s'.
         if ret r - 1 = 0 then return (Running s')
         else sel_pass env now rset (ret r - 1) (slots s') s')
     else sel_pass env now rset (ret r) (slots s) s
   }"

fun sel_loop :: "env \<Rightarrow> (trace \<Rightarrow> tm) \<Rightarrow> int \<Rightarrow> nat \<Rightarrow> sel \<Rightarrow> sel outcome io" where
  "sel_loop env now iServFd 0 s = return (Running s)"
| "sel_loop env now iServFd (Suc k) s =
     bindR (sel_round env now iServFd s) (\<lambda>s'. sel_loop env now iServFd k s')"

definition sel_init :: "int \<Rightarrow> sel" where
  "sel_init iServFd = \<lparr>clients = replicate MAX_ATTARCH_SIZE (- 1), maxi = - 1, maxFd = iServFd, allset = [iServFd]\<rparr>"

text \<open>A listening socket for every address, as all three servers make it.\<close>

definition sel_listen :: "env \<Rightarrow> int outcome io" where
  "sel_listen env = do {
     s \<leftarrow> call_ret env Socket;
     bindR (guardR (0 \<le> s) (- 1)) (\<lambda>_. do {
       b \<leftarrow> call_ret env (Bind s ''0.0.0.0'' SEL_PORT);
       bindR (guardR (0 \<le> b) (- 1)) (\<lambda>_. do {
         l \<leftarrow> call_ret env (Listen s (int SEL_SIZE));
         bindR (guardR (0 \<le> l) (- 1)) (\<lambda>_. return (Running s))
       })
     })
   }"

definition sel_main :: "env \<Rightarrow> (trace \<Rightarrow> tm) \<Rightarrow> nat \<Rightarrow> sel outcome io" where
  "sel_main env now k =
     bindR (sel_listen env) (\<lambda>s. bindR (liftR (fd_set s)) (\<lambda>_. sel_loop env now s k (sel_init s)))"

section \<open>The server serves nobody\<close>

lemma run_clock [simp]: "run_state (clock now) t = (now t, t)"
  by (simp add: clock_def State_Monad.get_def)

lemma CurTime_short: "CurTime x = Inr b \<Longrightarrow> length b = 15"
  by (auto simp: CurTime_def strcpy_def split: if_splits)

text \<open>The time has 15 characters, and 1024 are sent.\<close>

lemma sel_time_overread: "bindR (liftR (CurTime x)) (\<lambda>b. bindR (liftR (read_buf b (int SEL_SIZE))) f) = return (Crashed OutOfBounds)"
proof (cases "CurTime x")
  case (Inl e)
  then show ?thesis by (auto simp: CurTime_def strcpy_def split: if_splits)
next
  case (Inr b)
  then show ?thesis using CurTime_short [OF Inr] by (simp add: read_buf_def SEL_SIZE_def)
qed

lemma sel_pass_Cons:
  "sel_pass env now rset n (i # is) s =
     (if clients s ! i < 0 then sel_pass env now rset n is s else clock now \<bind> (\<lambda>_. return (Crashed OutOfBounds)))"
  by (simp add: sel_time_overread Let_def del: of_nat_numeral)

declare sel_pass.simps(2) [simp del]

lemma sel_pass_result:
  "run_state (sel_pass env now rset n is s) t =
     (if \<exists>i\<in>set is. 0 \<le> clients s ! i then Crashed OutOfBounds else Running s, t)"
  by (induction "is") (auto simp: sel_pass_Cons not_less)

text \<open>What the server has done: nothing was read, written or closed, and the table holds the clients it accepted.\<close>

definition connected :: "sel \<Rightarrow> int list" where
  "connected s = filter (\<lambda>c. 0 \<le> c) (clients s)"

definition sel_quiet :: "trace \<Rightarrow> bool" where
  "sel_quiet t \<longleftrightarrow> (\<forall>(c, r)\<in>set t. case c of Write _ _ \<Rightarrow> False | Read _ _ \<Rightarrow> False | Close _ \<Rightarrow> False | _ \<Rightarrow> True)"

definition sel_ok :: "trace \<Rightarrow> sel \<Rightarrow> bool" where
  "sel_ok t s \<longleftrightarrow> length (clients s) = MAX_ATTARCH_SIZE \<and> (\<forall>i < MAX_ATTARCH_SIZE. 0 \<le> clients s ! i \<longrightarrow> int i \<le> maxi s) \<and>
     int (length (connected s)) = n_accepted t"

lemma sel_accept_ok:
  assumes "run_state (sel_accept env l s) t = (o1, t')" "sel_ok t s"
  shows "sel_quiet t \<longrightarrow> sel_quiet t'"
    and "o1 = Running s' \<Longrightarrow> sel_ok t' s' \<and> connected s' \<noteq> []"
proof -
  let ?c = "ret (env t (Accept l))" and ?i = "length (takeWhile (\<lambda>d. 0 \<le> d) (clients s))"
  have t': "t' = (Accept l, env t (Accept l)) # t"
    using assms(1) by (auto simp: sel_accept_def Let_def bindR_def guardR_def liftR_def split: if_splits sum.splits)
  then show "sel_quiet t \<longrightarrow> sel_quiet t'" by (simp add: sel_quiet_def)
  assume o1: "o1 = Running s'"
  have c: "0 \<le> ?c" "?i \<noteq> MAX_ATTARCH_SIZE"
    and s': "s' = s\<lparr>clients := (clients s)[?i := ?c], allset := List.insert ?c (allset s), maxFd := max (maxFd s) ?c, maxi := max (maxi s) (int ?i)\<rparr>"
    using assms(1) unfolding o1 by (auto simp: sel_accept_def Let_def run_bindR_Running)
  have len: "length (clients s) = MAX_ATTARCH_SIZE" using assms(2) by (simp add: sel_ok_def)
  then have i: "?i < length (clients s)" using c(2) length_takeWhile_le [of "\<lambda>d. 0 \<le> d" "clients s"] by simp
  have free: "clients s ! ?i < 0" using nth_length_takeWhile [OF i] by simp
  have split: "clients s = take ?i (clients s) @ clients s ! ?i # drop (Suc ?i) (clients s)"
    using i by (rule id_take_nth_drop)
  have "filter (\<lambda>d. 0 \<le> d) (clients s) = filter (\<lambda>d. 0 \<le> d) (take ?i (clients s)) @ filter (\<lambda>d. 0 \<le> d) (drop (Suc ?i) (clients s))"
    using free by (subst split) simp
  moreover have "filter (\<lambda>d. 0 \<le> d) ((clients s)[?i := ?c]) =
      filter (\<lambda>d. 0 \<le> d) (take ?i (clients s)) @ ?c # filter (\<lambda>d. 0 \<le> d) (drop (Suc ?i) (clients s))"
    using c(1) i by (simp add: upd_conv_take_nth_drop)
  ultimately have "length (connected s') = Suc (length (connected s))" by (simp add: connected_def s')
  moreover have "\<forall>j < MAX_ATTARCH_SIZE. 0 \<le> clients s' ! j \<longrightarrow> int j \<le> maxi s'"
    using assms(2) i len by (auto simp: s' sel_ok_def nth_list_update)
  ultimately show "sel_ok t' s' \<and> connected s' \<noteq> []"
    using assms(2) c(1) len by (auto simp: sel_ok_def t' s')
qed

lemma some_client:
  assumes "sel_ok t s"
  shows "(\<exists>i\<in>set [0..<nat (maxi s + 1)]. 0 \<le> clients s ! i) \<or> connected s = []"
proof (cases "connected s")
  case (Cons c cs)
  then have "c \<in> set (connected s)" by simp
  then obtain i where "i < length (clients s)" "clients s ! i = c" "0 \<le> c"
    by (auto simp: connected_def in_set_conv_nth)
  moreover from this have "int i \<le> maxi s" using assms by (simp add: sel_ok_def)
  ultimately have "i \<in> set [0..<nat (maxi s + 1)]" "0 \<le> clients s ! i" by auto
  then show ?thesis by blast
qed simp

text \<open>A round: with a client in the table only a single new connection is survived.\<close>

lemma sel_round_ok:
  assumes "run_state (sel_round env now l s) t = (o1, t')" "sel_ok t s" "sel_quiet t"
  shows "sel_quiet t'" and "o1 = Running s' \<Longrightarrow> sel_ok t' s'"
    and "o1 = Running s' \<Longrightarrow> connected s \<noteq> [] \<Longrightarrow>
      ret (env t (Select (allset s))) = 1 \<and> l \<in> fst ` set (evs (env t (Select (allset s))))"
proof -
  let ?r = "env t (Select (allset s))"
  let ?rset = "if ret ?r < 0 then set (allset s) else fst ` set (evs ?r)"
  let ?t1 = "(Select (allset s), ?r) # t"
  have 1: "sel_ok ?t1 s" "sel_quiet ?t1" using assms(2,3) by (simp_all add: sel_ok_def sel_quiet_def)
  have "sel_quiet t' \<and> (\<forall>s'. o1 = Running s' \<longrightarrow> sel_ok t' s' \<and> (connected s \<noteq> [] \<longrightarrow> ret ?r = 1 \<and> l \<in> fst ` set (evs ?r)))"
  proof (cases "l \<in> ?rset")
    case False
    then have "run_state (sel_pass env now ?rset (ret ?r) [0..<nat (maxi s + 1)] s) ?t1 = (o1, t')"
      using assms(1) by (simp add: sel_round_def Let_def)
    then show ?thesis
      using some_client [OF 1(1)] 1 by (auto simp: sel_pass_result split: if_splits)
  next
    case True
    obtain o2 t2 where acc: "run_state (sel_accept env l s) ?t1 = (o2, t2)" by (metis prod.exhaust)
    note a = sel_accept_ok [OF acc 1(1)]
    show ?thesis
    proof (cases o2)
      case (Running s1)
      have s1: "sel_ok t2 s1" "connected s1 \<noteq> []" using a(2) [OF Running] by simp_all
      have "run_state (if ret ?r - 1 = 0 then return (Running s1)
          else sel_pass env now ?rset (ret ?r - 1) [0..<nat (maxi s1 + 1)] s1) t2 = (o1, t')"
        using assms(1) True acc Running by (simp add: sel_round_def Let_def bindR_def)
      then show ?thesis
        using some_client [OF s1(1)] s1 a(1) 1(2) True by (auto simp: sel_pass_result split: if_splits)
    qed (use assms(1) True acc a(1) 1(2) in \<open>auto simp: sel_round_def Let_def bindR_def\<close>)
  qed
  then show "sel_quiet t'" and "o1 = Running s' \<Longrightarrow> sel_ok t' s'"
    and "o1 = Running s' \<Longrightarrow> connected s \<noteq> [] \<Longrightarrow> ret ?r = 1 \<and> l \<in> fst ` set (evs ?r)"
    by simp_all
qed

lemma sel_loop_ok:
  "run_state (sel_loop env now l k s) t = (o1, t') \<Longrightarrow> sel_ok t s \<Longrightarrow> sel_quiet t \<Longrightarrow>
   sel_quiet t' \<and> (\<forall>s'. o1 = Running s' \<longrightarrow> sel_ok t' s')"
proof (induction k arbitrary: s t)
  case (Suc k)
  obtain o2 t2 where r: "run_state (sel_round env now l s) t = (o2, t2)" by (metis prod.exhaust)
  note round = sel_round_ok [OF r Suc.prems(2,3)]
  show ?case
    using Suc.prems(1) r round Suc.IH by (cases o2) (auto simp: bindR_def)
qed auto

lemma sel_loop_more:
  "run_state (sel_loop env now l k s) t = (Running s', t') \<Longrightarrow>
   run_state (sel_loop env now l (Suc k) s) t = run_state (sel_round env now l s') t'"
proof (induction k arbitrary: s t)
  case 0
  then show ?case
    by (cases "run_state (sel_round env now l s) t") (auto simp: bindR_def split: outcome.splits)
next
  case (Suc k)
  obtain s1 t1 where "run_state (sel_round env now l s) t = (Running s1, t1)"
    "run_state (sel_loop env now l k s1) t1 = (Running s', t')"
    using Suc.prems by (auto simp: run_bindR_Running)
  then show ?case using Suc.IH by (simp add: bindR_def)
qed

lemma sel_init_ok: "n_accepted t = 0 \<Longrightarrow> sel_ok t (sel_init l)"
  by (simp add: sel_ok_def sel_init_def connected_def MAX_ATTARCH_SIZE_def)


text \<open>A client connects in the first round; in the second nothing happens for three seconds.\<close>

definition demo_sel :: env where
  "demo_sel t c = (case c of
     Socket \<Rightarrow> \<lparr>ret = 3, data = [], evs = []\<rparr>
   | Accept l \<Rightarrow> \<lparr>ret = 4, data = [], evs = []\<rparr>
   | Select ds \<Rightarrow> (if length ds = 1 then \<lparr>ret = 1, data = [], evs = [(3, 1)]\<rparr> else \<lparr>ret = 0, data = [], evs = []\<rparr>)
   | _ \<Rightarrow> \<lparr>ret = 0, data = [], evs = []\<rparr>)"

lemma demo_sel_run:
  "\<exists>t. run_state (sel_main demo_sel now 1) [] = (Running (sel_init 3\<lparr>clients := 4 # replicate 9 (- 1), maxi := 0, maxFd := 4,
     allset := [4, 3]\<rparr>), t) \<and> n_accepted t = 1"
  by (simp add: sel_main_def sel_listen_def sel_round_def sel_accept_def sel_init_def demo_sel_def fd_set_def
      run_bindR_Running MAX_ATTARCH_SIZE_def numeral_eq_Suc List.insert_def)


section \<open>The client\<close>

text \<open>A terminator behind the \<open>n\<close> characters that were received; the buffer is then printed.\<close>

definition terminate :: "char list \<Rightarrow> string \<Rightarrow> int \<Rightarrow> char list res" where
  "terminate buf d n = wri (d @ drop (length d) buf) n NUL"

text \<open>The client's loop: \<open>recv\<close> may return the size of the buffer.\<close>

fun cl_loop :: "env \<Rightarrow> int \<Rightarrow> nat \<Rightarrow> char list \<Rightarrow> unit outcome io" where
  "cl_loop env s 0 buf = return (Running ())"
| "cl_loop env s (Suc k) buf = do {
     r \<leftarrow> sys env (Read s SEL_SIZE);
     if ret r > 0 then bindR (liftR (terminate buf (data r) (ret r))) (\<lambda>b. cl_loop env s k b)
     else do { _ \<leftarrow> sys env (Sleep 3); cl_loop env s k buf }
   }"

definition cl_connect :: "env \<Rightarrow> string \<Rightarrow> int outcome io" where
  "cl_connect env ip = do {
     s \<leftarrow> call_ret env Socket;
     bindR (guardR (0 \<le> s) (- 1)) (\<lambda>_. do {
       c \<leftarrow> call_ret env (Connect s ip SEL_PORT);
       bindR (guardR (0 \<le> c) (- 1)) (\<lambda>_. return (Running s))
     })
   }"

text \<open>The buffer starts with what is on the stack; all of it is sent.\<close>

definition cl_message :: "env \<Rightarrow> char list \<Rightarrow> string option \<Rightarrow> char list outcome io" where
  "cl_message env stack arg = (case arg of
     Some a \<Rightarrow> liftR (strncpy stack a (SEL_SIZE - 1))
   | None \<Rightarrow> do { p \<leftarrow> call_ret env Getpid; liftR (strcpy stack (show_int p)) })"

definition cl_main :: "env \<Rightarrow> char list \<Rightarrow> nat \<Rightarrow> string option \<Rightarrow> unit outcome io" where
  "cl_main env stack k arg =
     bindR (cl_connect env ''127.0.0.1'') (\<lambda>s.
     bindR (cl_message env stack arg) (\<lambda>buf. do {
       w \<leftarrow> call_ret env (Write s buf);
       bindR (guardR (0 \<le> w) (- 1)) (\<lambda>_. cl_loop env s k buf)
     }))"

text \<open>Behind the short message the server gets what was on the client's stack.\<close>

lemma cl_sends_stack:
  assumes "length stack = SEL_SIZE" "length (show_int (ret (env t Getpid))) < SEL_SIZE"
  shows "\<exists>t'. run_state (cl_message env stack None) t = (Running (show_int (ret (env t Getpid)) @ NUL #
    drop (length (show_int (ret (env t Getpid))) + 1) stack), t')"
  using assms by (simp add: cl_message_def liftR_def strcpy_def)

section \<open>One client at a time\<close>

text \<open>
  \<^verbatim>\<open>20160222/server.cpp\<close>: a client's message is sent back in upper case behind the time, with its terminator, and the
  client is closed. The received number is an index of the buffer, also when it is -1.
\<close>

definition up_serve :: "env \<Rightarrow> (trace \<Rightarrow> tm) \<Rightarrow> int \<Rightarrow> char list \<Rightarrow> char list outcome io" where
  "up_serve env now l buf = do {
     c \<leftarrow> call_ret env (Accept l);
     bindR (guardR (0 \<le> c) (- 1)) (\<lambda>_. do {
       r \<leftarrow> sys env (Read c SEL_SIZE);
       bindR (liftR (terminate buf (data r) (ret r))) (\<lambda>b.
         let b' = map to_upper (take (nat (ret r)) b) @ drop (nat (ret r)) b in do {
         x \<leftarrow> clock now;
         bindR (liftR (CurTime x)) (\<lambda>tb.
         bindR (liftR (read_buf tb 15)) (\<lambda>w1. do {
           n1 \<leftarrow> call_ret env (Write c w1);
           bindR (guardR (0 \<le> n1) (- 1)) (\<lambda>_.
           bindR (liftR (read_buf b' (ret r))) (\<lambda>w2. do {
             n2 \<leftarrow> call_ret env (Write c w2);
             bindR (guardR (0 \<le> n2) (- 1)) (\<lambda>_. do {
               _ \<leftarrow> sys env (Close c);
               _ \<leftarrow> sys env (Sleep 5);
               return (Running b')
             })
           }))
         }))
       })
     })
   }"

fun up_loop :: "env \<Rightarrow> (trace \<Rightarrow> tm) \<Rightarrow> int \<Rightarrow> nat \<Rightarrow> char list \<Rightarrow> unit outcome io" where
  "up_loop env now l 0 buf = return (Running ())"
| "up_loop env now l (Suc k) buf = bindR (up_serve env now l buf) (\<lambda>b. up_loop env now l k b)"

definition up_main :: "env \<Rightarrow> (trace \<Rightarrow> tm) \<Rightarrow> char list \<Rightarrow> nat \<Rightarrow> unit outcome io" where
  "up_main env now stack k = bindR (sel_listen env) (\<lambda>l. up_loop env now l k stack)"

text \<open>\<^verbatim>\<open>20160222/client.cpp\<close>: a line of the terminal is sent, with the rest of the buffer.\<close>

definition line_client :: "env \<Rightarrow> char list \<Rightarrow> nat \<Rightarrow> unit outcome io" where
  "line_client env stack k =
     bindR (cl_connect env ''192.168.41.138'') (\<lambda>s. do {
       r \<leftarrow> sys env (Fgets SEL_SIZE);
       bindR (liftR (if ret r > 0 then strcpy stack (data r) else Inr stack)) (\<lambda>buf. do {
         w \<leftarrow> call_ret env (Write s buf);
         bindR (guardR (0 \<le> w) (- 1)) (\<lambda>_. cl_loop env s k buf)
       })
     })"

lemma terminate_ok:
  assumes "length buf = SEL_SIZE" "length d = nat n" "0 \<le> n" "n < int SEL_SIZE"
  shows "terminate buf d n = Inr (d @ NUL # drop (length d + 1) buf)"
proof -
  have "length d < length buf" "int (length d) = n" using assms by auto
  moreover from this have "(d @ drop (length d) buf)[length d := NUL] = d @ NUL # drop (length d + 1) buf"
    by (simp add: Cons_nth_drop_Suc [symmetric] list_update_append)
  ultimately show ?thesis by (auto simp: terminate_def wri_in)
qed

text \<open>A local time of this era fits the array.\<close>

definition tm_ok :: "tm \<Rightarrow> bool" where
  "tm_ok x \<longleftrightarrow> tm_year x + 1900 < 10000 \<and> tm_mon x < 12 \<and> tm_mday x < 32 \<and> tm_hour x < 24 \<and> tm_min x < 60 \<and> tm_sec x < 61"

lemma length_pad0: "n < 10 ^ Suc k \<Longrightarrow> length (pad0 (Suc k) n) = Suc k"
  using length_show_nat [of n k] by (simp add: pad0_def Let_def)

lemma CurTime_ok:
  assumes "tm_ok x"
  shows "\<exists>b. CurTime x = Inr b \<and> length b = 15"
proof -
  have "length (pad0 (Suc 3) (tm_year x + 1900)) = Suc 3"
    by (rule length_pad0) (use assms in \<open>simp add: tm_ok_def\<close>)
  moreover have four: "Suc 3 = 4" by simp
  ultimately have "length (pad0 4 (tm_year x + 1900)) = 4" by (simp only: four)
  moreover have "length (pad0 2 n) = 2" if "n < 100" for n
  proof -
    have "length (pad0 (Suc 1) n) = Suc 1" by (rule length_pad0) (use that in simp)
    then show ?thesis by (simp only: Suc_1)
  qed
  ultimately have "\<exists>b. CurTime x = Inr b" using assms by (simp add: CurTime_def strcpy_def tm_ok_def)
  then show ?thesis using CurTime_short by blast
qed

text \<open>
  C28: The server for one client at a time. A client whose message leaves room for the terminator gets the time
  and then its message in upper case, and is closed; a message that fills the buffer, or a failing \<open>recv\<close>, makes
  the server write outside its buffer.
\<close>

theorem upper_case_served:
  assumes "length buf = SEL_SIZE" "0 \<le> c" "env t (Accept l) = \<lparr>ret = c, data = [], evs = []\<rparr>"
    and "\<And>t. env t (Read c SEL_SIZE) = r" "length (data r) = nat (ret r)" "ret r \<le> int SEL_SIZE"
    and "\<And>t. tm_ok (now t)" "\<And>t w. 0 \<le> ret (env t (Write c w))"
  shows "if 0 \<le> ret r \<and> ret r < int SEL_SIZE
    then \<exists>b t' x w. run_state (up_serve env now l buf) t = (Running b, t') \<and> length b = SEL_SIZE \<and>
      CurTime (now x) = Inr w \<and> writes t' = writes t @ [(c, w), (c, map to_upper (data r))] \<and> open_fds t' = open_fds t
    else fst (run_state (up_serve env now l buf) t) = Crashed OutOfBounds"
proof (cases "0 \<le> ret r \<and> ret r < int SEL_SIZE")
  case True
  let ?t1 = "(Read c SEL_SIZE, r) # (Accept l, env t (Accept l)) # t"
  obtain w where w: "CurTime (now ?t1) = Inr w" "length w = 15" using CurTime_ok assms(7) by blast
  let ?b = "data r @ NUL # drop (length (data r) + 1) buf"
  have "terminate buf (data r) (ret r) = Inr ?b" using True assms(1,5) by (intro terminate_ok) auto
  moreover have "read_buf w 15 = Inr w" using w(2) by (simp add: read_buf_def)
  moreover have "length (data r) < SEL_SIZE" using True assms(5) by auto
  ultimately show ?thesis
    using True assms w by (auto simp: up_serve_def Let_def read_buf_def guardR_def nat_eq_iff2 intro!: exI [of _ ?t1])
next
  case False
  have "terminate buf (data r) (ret r) = Inl OutOfBounds"
    using False assms(1,5,6) by (auto simp: terminate_def wri_def wr_def)
  then have "fst (run_state (up_serve env now l buf) t) = Crashed OutOfBounds"
    using assms(2,3,4) by (simp add: up_serve_def guardR_def)
  then show ?thesis unfolding if_not_P [OF False] .
qed

definition noon :: tm where
  "noon = \<lparr>tm_year = 116, tm_mon = 1, tm_mday = 22, tm_hour = 12, tm_min = 0, tm_sec = 0\<rparr>"

definition demo_upper :: env where
  "demo_upper t c = (case c of
     Accept l \<Rightarrow> \<lparr>ret = 4, data = [], evs = []\<rparr>
   | Read d n \<Rightarrow> \<lparr>ret = 3, data = ''a-z'', evs = []\<rparr>
   | _ \<Rightarrow> \<lparr>ret = 0, data = [], evs = []\<rparr>)"

lemma to_upper_demo: "to_upper CHR ''a'' = CHR ''A''" "to_upper CHR ''-'' = CHR ''-''" "to_upper CHR ''z'' = CHR ''Z''"
  by code_simp+

lemma upper_case_served_witness:
  "\<exists>b t' w. run_state (up_serve demo_upper (\<lambda>_. noon) 3 (replicate SEL_SIZE NUL)) [] = (Running b, t') \<and>
    writes t' = [(4, w), (4, ''A-Z'')]"
proof -
  have "3 < int SEL_SIZE" by (simp add: SEL_SIZE_def)
  then show ?thesis
    using upper_case_served [of "replicate SEL_SIZE NUL" 4 demo_upper "[]" 3 "\<lparr>ret = 3, data = ''a-z'', evs = []\<rparr>" "\<lambda>_. noon"]
    by (auto simp: demo_upper_def noon_def tm_ok_def to_upper_demo)
qed

section \<open>One page for everybody\<close>

text \<open>\<^verbatim>\<open>httptest.cpp\<close>: the page of the web server's greeting; no call is checked, and no request matters.\<close>

definition ht_serve :: "env \<Rightarrow> int \<Rightarrow> unit outcome io" where
  "ht_serve env l = do {
     c \<leftarrow> call_ret env (Accept l);
     r \<leftarrow> sys env (Read c HTTP_BUFFER_SIZE);
     bindR (liftR (c_string (http_buffer (data r)))) (\<lambda>_.
     bindR (liftR (respond HTTP_BUFFER_SIZE (http_buffer (data r)) html)) (\<lambda>page. do {
       _ \<leftarrow> sys env (Write c page);
       _ \<leftarrow> sys env (Close c);
       return (Running ())
     }))
   }"

fun ht_loop :: "env \<Rightarrow> int \<Rightarrow> nat \<Rightarrow> unit outcome io" where
  "ht_loop env l 0 = return (Running ())"
| "ht_loop env l (Suc k) = bindR (ht_serve env l) (\<lambda>_. ht_loop env l k)"

definition ht_main :: "env \<Rightarrow> nat \<Rightarrow> unit outcome io" where
  "ht_main env k = do {
     s \<leftarrow> call_ret env Socket;
     _ \<leftarrow> sys env (Bind s ''0.0.0.0'' 8888);
     _ \<leftarrow> sys env (Listen s 5);
     ht_loop env s k
   }"

lemma html_page: "length html < 600 \<and> NUL \<notin> set html"
  by (simp add: html_def crlf_def tab_def)

lemma ht_serves_page:
  assumes "length (data (env ((Accept l, env t (Accept l)) # t) (Read (ret (env t (Accept l))) HTTP_BUFFER_SIZE))) < HTTP_BUFFER_SIZE"
  shows "\<exists>t'. run_state (ht_serve env l) t = (Running (), t') \<and>
    writes t' = writes t @ [(ret (env t (Accept l)), header_html (length html) @ html)]"
proof -
  let ?d = "data (env ((Accept l, env t (Accept l)) # t) (Read (ret (env t (Accept l))) HTTP_BUFFER_SIZE))"
  note b = http_buffer_string [OF assms]
  have "respond HTTP_BUFFER_SIZE (http_buffer ?d) html = Inr (header_html (length html) @ html)"
    using html_page header_length [of "length html"] by (intro respond_ok) (simp_all only: b(2), simp_all add: HTTP_BUFFER_SIZE_def)
  then show ?thesis by (simp add: ht_serve_def b(1))
qed

end
