(* ===== verification/Volte.thy ===== *)
theory Volte
  imports CString
begin

text \<open>
  The configuration generator \<^verbatim>\<open>src/wzq_study/volte_config.{h,cpp}\<close>: for four hosts and eight letters it makes
  \<open>sed\<close> commands that rename the memory tables and processes of a template. Twice it formats an array into itself,
  \<^verbatim>\<open>sprintf(proc, "%s%d%s", proc, ...)\<close>, which the language leaves undefined; what that call leaves in the array is a
  parameter of the model.
\<close>

section \<open>Tables\<close>

definition g_proc_name :: "string list" where
  "g_proc_name = [''sesn_2_teleSesn'', ''csvWCDR_3_teleCsvW'', ''WSCodePri_6_teleWSCode'',
     ''WSCodeSec_6_teleWSCode'', ''docTcpip_7_teleDoc'']"

definition g_mem_name :: "string list" where
  "g_mem_name = [''memFlow_80000000'', ''memSesn_40000000'', ''memDoc_20000000'', ''memPdp_40000000'',
     ''memPdpSesn_40000000'', ''memTcpSendXDR_40000000'', ''memTcpSendSesn_40000000'',
     ''memWSImPri_20000000'', ''memWSImSec_20000000'', ''memWSExPri_20000000'', ''memWSExSec_20000000'',
     ''memCmdQuery_40000000'', ''memCmdResult_40000000'', ''memCmdQueryXdr_40000000'', ''memCmdResultXdr_40000000'']"

definition g_proc_child_name :: "string list" where
  "g_proc_child_name = [''A'', ''B'', ''C'', ''D'', ''E'', ''F'', ''G'', ''H'']"

section \<open>The generator\<close>

text \<open>\<open>%x\<close>.\<close>

definition hex_digit :: "nat \<Rightarrow> char" where
  "hex_digit d = (if d < 10 then char_of (48 + d) else char_of (87 + d))"

fun show_hex :: "nat \<Rightarrow> string" where
  "show_hex n = (if n < 16 then [hex_digit n] else show_hex (n div 16) @ [hex_digit (n mod 16)])"

declare show_hex.simps [simp del]

text \<open>A cleared array of \<open>n\<close> characters, and \<open>sprintf\<close> into one.\<close>

abbreviation zeros :: "nat \<Rightarrow> char list" where "zeros n \<equiv> replicate n NUL"

definition sprintf_str :: "nat \<Rightarrow> string \<Rightarrow> string res" where
  "sprintf_str n s = bindE (strcpy (zeros n) s) c_string"

text \<open>What the program has put together: the next identifier, the two lists, the commands by file, the output.\<close>

record volte =
  vid :: int
  mem_add :: string
  proc_add :: string
  file_vector :: "string list list"
  v_out :: string

text \<open>The commands of one host and letter; they are put together and not printed.\<close>

record vcmd =
  strCmd :: string
  strCmdimport :: string
  strCmdexport :: string
  strCmdList :: string

definition v_say :: "string \<Rightarrow> volte \<Rightarrow> volte" where
  "v_say t s = s\<lparr>v_out := v_out s @ t\<rparr>"

definition vcmd_new :: vcmd where
  "vcmd_new = \<lparr>strCmd = ''sed -i '' @ [CHR 0x27] @ ''/memPdpSesn...size/a '' @ [CHR 0x5C, CHR 0x5C] @ ''n'',
     strCmdimport = ''queryExport='', strCmdexport = CHR 0x5C # ''nqueryImport='', strCmdList = []\<rparr>"

definition esc_n :: string where "esc_n = [CHR 0x5C, CHR ''n'']"

definition has_text :: "string \<Rightarrow> string \<Rightarrow> bool" where
  "has_text s p \<longleftrightarrow> strstr s p \<noteq> None"

text \<open>Where a memory table is mentioned.\<close>

definition note_mem :: "string \<Rightarrow> vcmd \<Rightarrow> vcmd" where
  "note_mem proc c =
     (if has_text proc ''memCmdQuery'' then
        c\<lparr>strCmdimport := strCmdimport c @ proc @ '','',
          strCmdList := strCmdList c @ esc_n @ ''listFlag.'' @ proc @
            (if has_text proc ''memCmdQueryXdr'' then ''=3'' else ''=1-9'')\<rparr>
      else if has_text proc ''memCmdResult'' then c\<lparr>strCmdexport := strCmdexport c @ proc @ '',''\<rparr>
      else c)"

text \<open>The three commands for a table: its old name, its new name and the file of host \<open>fn\<close> and letter \<open>ch\<close>.\<close>

definition conf_file :: "nat \<Rightarrow> string \<Rightarrow> string" where
  "conf_file fn ch = [CHR 0x27] @ '' *'' @ show_nat fn @ ch @ ''.conf''"

definition sed_scripts :: "nat \<Rightarrow> string \<Rightarrow> string \<Rightarrow> string \<Rightarrow> string \<Rightarrow> string \<Rightarrow> string list res" where
  "sed_scripts fn ch proc0 proc proc2 size2 =
     (let sed = ''sed -i '' @ [CHR 0x27] in
      bindE (sprintf_str 64 (sed @ ''/'' @ proc0 @ ''.id=/c '' @ proc2 @ conf_file fn ch)) (\<lambda>a.
      bindE (sprintf_str 64 (sed @ ''/'' @ proc0 @ ''.size=/c '' @ size2 @ conf_file fn ch)) (\<lambda>b.
      bindE (sprintf_str 64 (sed @ ''s/'' @ proc0 @ ''/'' @ proc @ ''/g'' @ conf_file fn ch)) (\<lambda>c.
      Inr [a, b, c]))))"

text \<open>
  One table. \<open>ov buf t\<close> is the array after formatting it into itself with \<open>t\<close> behind it.
\<close>

definition mem_entry :: "(char list \<Rightarrow> string \<Rightarrow> char list res) \<Rightarrow> nat \<Rightarrow> string \<Rightarrow> nat \<Rightarrow> string \<Rightarrow> volte \<times> vcmd \<Rightarrow> (volte \<times> vcmd) res" where
  "mem_entry ov fn ch vn name = (\<lambda>(s, c).
     case strstr name ''_'' of
       None \<Rightarrow> Inl NullDeref
     | Some i \<Rightarrow>
       bindE (strncpy (zeros 32) name i) (\<lambda>buf.
       bindE (sprintf_str 32 (drop (i + 1) name)) (\<lambda>size.
       bindE (c_string buf) (\<lambda>base.
       bindE (sprintf_str 32 (base @ show_nat fn @ ''E'')) (\<lambda>proc0.
       bindE (ov buf (show_nat fn @ ch)) (\<lambda>buf'.
       bindE (c_string buf') (\<lambda>proc.
       bindE (sprintf_str 64 (proc @ ''.id=0x'' @ show_hex (nat (vid s)))) (\<lambda>proc2.
       bindE (ck (vid s + 1)) (\<lambda>next.
       bindE (sprintf_str 64 (proc @ ''.size='' @ size)) (\<lambda>size2.
       bindE (sed_scripts fn ch proc0 proc proc2 size2) (\<lambda>scripts.
       let s1 = v_say (proc2 @ endl @ size2 @ endl @ endl) (s\<lparr>vid := next\<rparr>);
           s2 = (if has_text proc ''memWS'' then s1 else s1\<lparr>mem_add := mem_add s1 @ proc @ '',''\<rparr>);
           c1 = c\<lparr>strCmd := strCmd c @ proc2 @ esc_n @ size2 @ esc_n\<rparr>
       in Inr (s2\<lparr>file_vector := (file_vector s2)[vn := file_vector s2 ! vn @ scripts]\<rparr>, note_mem proc c1))))))))))))"

fun mem_entries :: "(char list \<Rightarrow> string \<Rightarrow> char list res) \<Rightarrow> nat \<Rightarrow> string \<Rightarrow> nat \<Rightarrow> string list \<Rightarrow> volte \<times> vcmd \<Rightarrow> (volte \<times> vcmd) res" where
  "mem_entries ov fn ch vn [] sc = Inr sc"
| "mem_entries ov fn ch vn (name # names) sc =
     bindE (mem_entry ov fn ch vn name sc) (mem_entries ov fn ch vn names)"

text \<open>One host and letter: what is put together at the end is dropped.\<close>

definition mem_child :: "(char list \<Rightarrow> string \<Rightarrow> char list res) \<Rightarrow> nat \<Rightarrow> nat \<Rightarrow> volte \<Rightarrow> volte res" where
  "mem_child ov fn pn s =
     (let ch = g_proc_child_name ! pn; vn = (fn - 1) * length g_proc_child_name + pn in
      bindE (mem_entries ov fn ch vn g_mem_name (s, vcmd_new)) (\<lambda>(s1, c).
      bindE (sprintf_str 32 ([CHR 0x27] @ '' sesn'' @ show_nat fn @ ch @ ''.conf'')) (\<lambda>sCmd.
      let cmd = strCmd c @ sCmd;
          port = ''sed -i '' @ [CHR 0x27] @ ''/pdpImport/a '' @ butlast (strCmdimport c) @ butlast (strCmdexport c) @ strCmdList c @ sCmd
      in Inr s1)))"

fun mem_all :: "(char list \<Rightarrow> string \<Rightarrow> char list res) \<Rightarrow> (nat \<times> nat) list \<Rightarrow> volte \<Rightarrow> volte res" where
  "mem_all ov [] s = Inr s"
| "mem_all ov ((fn, pn) # ps) s = bindE (mem_child ov fn pn s) (mem_all ov ps)"

text \<open>One process.\<close>

definition proc_entry :: "(char list \<Rightarrow> string \<Rightarrow> char list res) \<Rightarrow> nat \<Rightarrow> nat \<Rightarrow> string \<Rightarrow> volte \<Rightarrow> volte res" where
  "proc_entry ov fn pn name s = (case strstr name ''_'' of
     None \<Rightarrow> Inl NullDeref
   | Some i \<Rightarrow> (case strstr (drop (i + 1) name) ''_'' of
       None \<Rightarrow> Inl NullDeref
     | Some j \<Rightarrow>
       bindE (strncpy (zeros 32) name i) (\<lambda>buf.
       bindE (strncpy (zeros 2) (drop (i + 1) name) j) (\<lambda>sequen.
       bindE (sprintf_str 32 (drop (i + j + 2) name)) (\<lambda>exe.
       bindE (ov buf (show_nat fn @ g_proc_child_name ! pn)) (\<lambda>buf'.
       bindE (c_string buf') (\<lambda>proc.
       Inr (if has_text proc ''WSCode'' then s else s\<lparr>proc_add := proc_add s @ proc @ '',''\<rparr>))))))))"

fun proc_entries :: "(char list \<Rightarrow> string \<Rightarrow> char list res) \<Rightarrow> nat \<Rightarrow> nat \<Rightarrow> string list \<Rightarrow> volte \<Rightarrow> volte res" where
  "proc_entries ov fn pn [] s = Inr s"
| "proc_entries ov fn pn (name # names) s =
     bindE (proc_entry ov fn pn name s) (proc_entries ov fn pn names)"

fun proc_all :: "(char list \<Rightarrow> string \<Rightarrow> char list res) \<Rightarrow> (nat \<times> nat) list \<Rightarrow> volte \<Rightarrow> volte res" where
  "proc_all ov [] s = Inr s"
| "proc_all ov ((fn, pn) # ps) s = bindE (proc_entries ov fn pn g_proc_name s) (proc_all ov ps)"

text \<open>The headings are left out. Printing the commands is commented out in the program.\<close>

definition hosts :: "(nat \<times> nat) list" where
  "hosts = List.product [1..<5] [0..<length g_proc_child_name]"

definition test_config_0 :: "(char list \<Rightarrow> string \<Rightarrow> char list res) \<Rightarrow> volte res" where
  "test_config_0 ov =
     (let s0 = \<lparr>vid = 0x1210, mem_add = [], proc_add = [],
        file_vector = replicate (4 * length g_proc_child_name) [], v_out = []\<rparr> in
      bindE (mem_all ov hosts s0) (\<lambda>s1. bindE (proc_all ov hosts s1) (\<lambda>s2.
      Inr (v_say (mem_add s2 @ endl) s2))))"

section \<open>Room for the commands\<close>

text \<open>The common C library appends when an array is formatted into itself.\<close>

definition appends :: "(char list \<Rightarrow> string \<Rightarrow> char list res) \<Rightarrow> bool" where
  "appends ov \<longleftrightarrow> (\<forall>buf t. ov buf t = bindE (c_string buf) (\<lambda>s. strcpy buf (s @ t)))"

lemma c_string_at: "NUL \<notin> set s \<Longrightarrow> c_string (s @ NUL # r) = Inr s"
  by (auto simp: c_string_def takeWhile_append)

lemma sprintf_str_eq:
  "NUL \<notin> set s \<Longrightarrow> sprintf_str n s = (if length s < n then Inr s else Inl OutOfBounds)"
  by (simp add: sprintf_str_def strcpy_def c_string_at)

lemma show_hex_length:
  "16 ^ k \<le> n \<Longrightarrow> n < 16 ^ Suc k \<Longrightarrow> length (show_hex n) = Suc k"
proof (induction k arbitrary: n)
  case 0
  then show ?case by (simp add: show_hex.simps)
next
  case (Suc k)
  then have "16 ^ k \<le> n div 16" "n div 16 < 16 ^ Suc k"
    by (auto simp: less_eq_div_iff_mult_less_eq less_mult_imp_div_less mult.commute)
  moreover have "(16 :: nat) * 1 \<le> 16 * 16 ^ k" by (intro mult_left_mono) simp_all
  then have "\<not> n < 16" using Suc.prems(1) unfolding power_Suc by linarith
  ultimately show ?case using Suc.IH by (simp add: show_hex.simps [of n])
qed

lemma show_hex_no_NUL: "NUL \<notin> set (show_hex n)"
proof -
  have digit: "hex_digit k \<noteq> NUL" if "k < 16" for k
  proof
    assume "hex_digit k = NUL"
    then have "(of_char (hex_digit k) :: nat) = of_char NUL" by (rule arg_cong)
    then show False using that by (simp add: hex_digit_def of_char_of split: if_splits)
  qed
  show ?thesis
  proof (induction n rule: show_hex.induct)
    case (1 n)
    then show ?case using digit [of n] digit [of "n mod 16"] by (subst show_hex.simps) auto
  qed
qed

lemma show_hex_4: "0x1000 \<le> n \<Longrightarrow> n < 0x10000 \<Longrightarrow> length (show_hex n) = 4"
  using show_hex_length [of 3 n] by simp

text \<open>The three commands of a table, as text.\<close>

definition rename_scripts :: "nat \<Rightarrow> char \<Rightarrow> string \<Rightarrow> string \<Rightarrow> nat \<Rightarrow> string list" where
  "rename_scripts fn ch a z n =
     (let sed = ''sed -i '' @ [CHR 0x27]; old = a @ show_nat fn @ ''E''; new = a @ show_nat fn @ [ch];
          file = conf_file fn [ch] in
      [sed @ ''/'' @ old @ ''.id=/c '' @ new @ ''.id=0x'' @ show_hex n @ file,
       sed @ ''/'' @ old @ ''.size=/c '' @ new @ ''.size='' @ z @ file,
       sed @ ''s/'' @ old @ ''/'' @ new @ ''/g'' @ file])"

definition fits_sed :: "string \<Rightarrow> string \<Rightarrow> bool" where
  "fits_sed a z \<longleftrightarrow> 2 * length a + 40 < 64 \<and> 2 * length a + length z + 38 < 64"

lemma show_digit: "fn < 10 \<Longrightarrow> length (show_nat fn) = 1 \<and> NUL \<notin> set (show_nat fn)"
  using show_nat_digits [of fn] by (subst show_nat.simps, auto simp: isdigit_def)

lemma strncpy_base:
  assumes "NUL \<notin> set a"
  shows "length a < 32 \<Longrightarrow> strncpy (zeros 32) (a @ r) (length a) = Inr (a @ zeros (32 - length a)) \<and> c_string (a @ zeros (32 - length a)) = Inr a"
    and "length a \<ge> 32 \<Longrightarrow> strncpy (zeros 32) (a @ r) (length a) = Inl OutOfBounds \<or>
      (\<exists>b. strncpy (zeros 32) (a @ r) (length a) = Inr b \<and> c_string b = Inl OutOfBounds)"
proof -
  assume "length a < 32"
  then obtain k where "32 - length a = Suc k" by (cases "32 - length a") auto
  then show "strncpy (zeros 32) (a @ r) (length a) = Inr (a @ zeros (32 - length a)) \<and> c_string (a @ zeros (32 - length a)) = Inr a"
    using assms \<open>length a < 32\<close> by (simp add: strncpy_def c_string_at)
qed (use assms in \<open>auto simp: strncpy_def c_string_def\<close>)

lemma sed_scripts_eq:
  assumes "fn < 10" "NUL \<notin> set a" "NUL \<notin> set z" "ch \<noteq> NUL" "0x1000 \<le> n" "n < 0x10000"
  shows "sed_scripts fn [ch] (a @ show_nat fn @ ''E'') (a @ show_nat fn @ [ch]) (a @ show_nat fn @ [ch] @ ''.id=0x'' @ show_hex n)
      (a @ show_nat fn @ [ch] @ ''.size='' @ z) =
    (if fits_sed a z then Inr (rename_scripts fn ch a z n) else Inl OutOfBounds)"
proof -
  have free: "NUL \<notin> set (show_nat fn)" "NUL \<notin> set (show_hex n)" and len: "length (show_nat fn) = 1" "length (show_hex n) = 4"
    using assms show_digit show_hex_no_NUL show_hex_4 by auto
  show ?thesis
    using assms(2,3,4) free len
    by (simp add: sed_scripts_def Let_def conf_file_def sprintf_str_eq rename_scripts_def fits_sed_def)
qed

lemma first_mark: "CHR ''_'' \<notin> set a \<Longrightarrow> strstr (a @ CHR ''_'' # z) ''_'' = Some (length a)"
  by (simp add: strstr_char takeWhile_append)

text \<open>What the program does for one table of the list.\<close>

definition named :: "string \<Rightarrow> string \<Rightarrow> bool" where
  "named a z \<longleftrightarrow> CHR ''_'' \<notin> set a \<and> NUL \<notin> set a \<and> NUL \<notin> set z"

lemma mem_entry_eq:
  assumes "appends ov" "named a z" "ch \<noteq> NUL" "fn < 10" "0x1000 \<le> vid s" "vid s < 0x10000"
  shows "if fits_sed a z
    then \<exists>s' k'. mem_entry ov fn [ch] vn (a @ CHR ''_'' # z) (s, k) = Inr (s', k') \<and> vid s' = vid s + 1 \<and>
      file_vector s' = (file_vector s)[vn := file_vector s ! vn @ rename_scripts fn ch a z (nat (vid s))]
    else mem_entry ov fn [ch] vn (a @ CHR ''_'' # z) (s, k) = Inl OutOfBounds"
proof -
  have nul: "NUL \<notin> set a" "NUL \<notin> set z" and mark: "strstr (a @ CHR ''_'' # z) ''_'' = Some (length a)"
    using assms(2) first_mark by (auto simp: named_def)
  have n: "0x1000 \<le> nat (vid s)" "nat (vid s) < 0x10000" using assms(5,6) by auto
  have free: "NUL \<notin> set (show_nat fn)" "NUL \<notin> set (show_hex (nat (vid s)))" and len: "length (show_nat fn) = 1" "length (show_hex (nat (vid s))) = 4"
    using assms(4) n show_digit show_hex_no_NUL show_hex_4 by auto
  have ck: "ck (vid s + 1) = Inr (vid s + 1)"
    using assms(5,6) by (intro ck_i32) (simp add: is_i32_def INT_MAX_def INT_MIN_def)
  show ?thesis
  proof (cases "length a + 2 < 32 \<and> length z < 32")
    case True
    let ?new = "a @ show_nat fn @ [ch]"
    have base: "strncpy (zeros 32) (a @ CHR ''_'' # z) (length a) = Inr (a @ zeros (32 - length a))"
      "c_string (a @ zeros (32 - length a)) = Inr a"
      using strncpy_base(1) [OF nul(1)] True by auto
    have "strcpy (a @ zeros (32 - length a)) ?new = Inr (?new @ NUL # drop (length ?new + 1) (a @ zeros (32 - length a)))"
      using True len by (simp add: strcpy_def)
    then have new: "bindE (ov (a @ zeros (32 - length a)) (show_nat fn @ [ch])) (\<lambda>b. bindE (c_string b) f) = f ?new" for f
      using assms(1,3) nul free base(2) c_string_at [of ?new] by (simp add: appends_def)
    show ?thesis
      using True nul free len assms(3) ck
      by (auto simp: mem_entry_def mark base new sprintf_str_eq sed_scripts_eq [OF assms(4) nul assms(3) n, unfolded append.simps] Let_def v_say_def fits_sed_def)
  next
    case False
    then have no: "\<not> fits_sed a z" by (auto simp: fits_sed_def)
    have "mem_entry ov fn [ch] vn (a @ CHR ''_'' # z) (s, k) = Inl OutOfBounds"
    proof (cases "length a < 32")
      case True
      then show ?thesis
        using False strncpy_base(1) [OF nul(1) True, of "CHR ''_'' # z"] nul free len
        by (auto simp: mem_entry_def mark sprintf_str_eq)
    next
      case less: False
      show ?thesis
        using strncpy_base(2) [OF nul(1), of "CHR ''_'' # z"] less nul
        by (auto simp: mem_entry_def mark sprintf_str_eq)
    qed
    then show ?thesis using no by simp
  qed
qed

lemma mem_entries_overflow:
  "appends ov \<Longrightarrow> \<forall>(a, z)\<in>set ps. named a z \<Longrightarrow> \<exists>(a, z)\<in>set ps. \<not> fits_sed a z \<Longrightarrow> ch \<noteq> NUL \<Longrightarrow> fn < 10 \<Longrightarrow>
   0x1000 \<le> vid s \<Longrightarrow> vid s + int (length ps) < 0x10000 \<Longrightarrow>
   mem_entries ov fn [ch] vn (map (\<lambda>(a, z). a @ CHR ''_'' # z) ps) (s, k) = Inl OutOfBounds"
proof (induction ps arbitrary: s k)
  case (Cons p ps)
  obtain a z where p: "p = (a, z)" by (cases p)
  have "vid s < 0x10000" "named a z" using Cons.prems(2,7) by (auto simp: p)
  note entry = mem_entry_eq [OF Cons.prems(1) this(2) Cons.prems(4,5,6) this(1), of vn k]
  show ?case
  proof (cases "fits_sed a z")
    case True
    then obtain s' k' where e: "mem_entry ov fn [ch] vn (a @ CHR ''_'' # z) (s, k) = Inr (s', k')" "vid s' = vid s + 1"
      using entry by auto
    have "mem_entries ov fn [ch] vn (map (\<lambda>(a, z). a @ CHR ''_'' # z) ps) (s', k') = Inl OutOfBounds"
      using Cons.prems True by (intro Cons.IH) (auto simp: p e(2))
    then show ?thesis by (simp add: p e(1))
  qed (use entry in \<open>simp add: p\<close>)
qed simp

definition mem_pairs :: "(string \<times> string) list" where
  "mem_pairs = [(''memFlow'', ''80000000''), (''memSesn'', ''40000000''), (''memDoc'', ''20000000''), (''memPdp'', ''40000000''),
     (''memPdpSesn'', ''40000000''), (''memTcpSendXDR'', ''40000000''), (''memTcpSendSesn'', ''40000000''),
     (''memWSImPri'', ''20000000''), (''memWSImSec'', ''20000000''), (''memWSExPri'', ''20000000''), (''memWSExSec'', ''20000000''),
     (''memCmdQuery'', ''40000000''), (''memCmdResult'', ''40000000''), (''memCmdQueryXdr'', ''40000000''), (''memCmdResultXdr'', ''40000000'')]"

lemma mem_names: "g_mem_name = map (\<lambda>(a, z). a @ CHR ''_'' # z) mem_pairs"
  by (simp add: g_mem_name_def mem_pairs_def)


definition glibc_ov :: "char list \<Rightarrow> string \<Rightarrow> char list res" where
  "glibc_ov buf t = bindE (c_string buf) (\<lambda>s. strcpy buf (s @ t))"


end
