(* ===== verification/Libevent.thy ===== *)
theory Libevent
  imports Outcome
begin

text \<open>
  The libevent programs \<^verbatim>\<open>src/socket/libevent\<close>: three echo servers and three terminal clients, each with
  callbacks on events (\<^verbatim>\<open>chuji\<close>), on buffered events (\<^verbatim>\<open>zhongji\<close>), and with the library accepting and
  connecting (\<^verbatim>\<open>gaoji\<close>). The library is a part of the environment: its functions are calls, a created event
  is the handle in the reply (0 for NULL), and \<open>Dispatch\<close> is one turn of the library's loop, whose
  reply names the handle that is called back with its event bits, or nothing when the loop ends. A program keeps the callbacks it has
  registered. \<open>Failed i\<close> is the end of the program with the status \<open>i\<close>; messages on
  standard output are left out.
\<close>

section \<open>Callbacks\<close>

text \<open>The registered handles, each with its descriptor and the callback.\<close>

type_synonym 'c events = "(int \<times> int \<times> 'c) list"

definition drop_event :: "int \<Rightarrow> 'c events \<Rightarrow> 'c events" where
  "drop_event h l = filter (\<lambda>(h', _). h' \<noteq> h) l"

text \<open>The turn of a library's loop, and the first \<open>k\<close> turns: the callback gets the descriptor, the event bits and the handle.\<close>

definition turn :: "env \<Rightarrow> ('c \<Rightarrow> int \<Rightarrow> nat \<Rightarrow> int \<Rightarrow> 'c events \<Rightarrow> 'c events outcome io) \<Rightarrow> 'c events \<Rightarrow> 'c events outcome io" where
  "turn env call l = do {
     r \<leftarrow> sys env Dispatch;
     (case evs r of
        [] \<Rightarrow> return (Failed 0)
      | (h, ev) # _ \<Rightarrow> (case map_of l h of
          None \<Rightarrow> return (Running l)
        | Some (fd, cb) \<Rightarrow> call cb fd ev h l))
   }"

fun turns :: "env \<Rightarrow> ('c \<Rightarrow> int \<Rightarrow> nat \<Rightarrow> int \<Rightarrow> 'c events \<Rightarrow> 'c events outcome io) \<Rightarrow> nat \<Rightarrow> 'c events \<Rightarrow> 'c events outcome io" where
  "turns env call 0 l = return (Running l)"
| "turns env call (Suc k) l = bindR (turn env call l) (turns env call k)"

text \<open>A new handle; using NULL is undefined.\<close>

definition new_handle :: "env \<Rightarrow> call \<Rightarrow> int outcome io" where
  "new_handle env c = do {
     h \<leftarrow> call_ret env c;
     return (if h = 0 then Crashed NullDeref else Running h)
   }"

section \<open>The servers\<close>

text \<open>A listening socket of \<^verbatim>\<open>chuji_server.cpp\<close>; -1 for a failure, after which nothing is open.\<close>

definition tcp_server_init :: "env \<Rightarrow> int \<Rightarrow> int \<Rightarrow> int io" where
  "tcp_server_init env port listen_num = do {
     s \<leftarrow> call_ret env Socket;
     if s < 0 then return (- 1)
     else do {
       _ \<leftarrow> sys env (SetSockOpt s);
       b \<leftarrow> call_ret env (Bind s ''0.0.0.0'' port);
       if b < 0 then do { _ \<leftarrow> sys env (Close s); return (- 1) }
       else do {
         l \<leftarrow> call_ret env (Listen s listen_num);
         if l < 0 then do { _ \<leftarrow> sys env (Close s); return (- 1) }
         else do { _ \<leftarrow> sys env (Fcntl s); return s }
       }
     }
   }"

definition reply_prefix :: string where "reply_prefix = ''I have recvieced the msg: ''"

text \<open>\<open>strcat\<close> behind the prefix, in an array of 4096 characters.\<close>

definition reply_text :: "string \<Rightarrow> string res" where
  "reply_text msg = bindE (strcpy (replicate 4096 NUL) (reply_prefix @ msg)) c_string"

text \<open>The string in an array of \<open>n\<close> characters after \<open>len\<close> of them were read and a NUL was put behind them.\<close>

definition msg_text :: "nat \<Rightarrow> string \<Rightarrow> string res" where
  "msg_text n d = (if length d < n then c_string (d @ [NUL]) else Inl OutOfBounds)"

datatype cj_cb = CjAccept | CjRead

definition cj_accept_cb :: "env \<Rightarrow> int \<Rightarrow> cj_cb events \<Rightarrow> cj_cb events outcome io" where
  "cj_accept_cb env fd l = do {
     c \<leftarrow> call_ret env (Accept fd);
     _ \<leftarrow> sys env (Fcntl c);
     bindR (new_handle env (EventNew (- 1))) (\<lambda>h. do {
       _ \<leftarrow> sys env (EventAdd h);
       return (Running ((h, c, CjRead) # l))
     })
   }"

definition cj_read_cb :: "env \<Rightarrow> int \<Rightarrow> int \<Rightarrow> cj_cb events \<Rightarrow> cj_cb events outcome io" where
  "cj_read_cb env fd h l = do {
     r \<leftarrow> sys env (Read fd 4095);
     if ret r \<le> 0 then do {
       _ \<leftarrow> sys env (EventFree h);
       _ \<leftarrow> sys env (Close fd);
       return (Running (drop_event h l))
     }
     else bindR (liftR (msg_text 4096 (take 4095 (data r)))) (\<lambda>msg.
       bindR (liftR (reply_text msg)) (\<lambda>s. do {
         _ \<leftarrow> sys env (Write fd s);
         return (Running l)
       }))
   }"

fun cj_call :: "env \<Rightarrow> cj_cb \<Rightarrow> int \<Rightarrow> nat \<Rightarrow> int \<Rightarrow> cj_cb events \<Rightarrow> cj_cb events outcome io" where
  "cj_call env CjAccept fd ev h l = cj_accept_cb env fd l"
| "cj_call env CjRead fd ev h l = cj_read_cb env fd h l"

definition cj_main :: "env \<Rightarrow> nat \<Rightarrow> cj_cb events outcome io" where
  "cj_main env k = do {
     listener \<leftarrow> tcp_server_init env 9999 10;
     bindR (guardR (listener \<noteq> - 1) (- 1)) (\<lambda>_.
     bindR (new_handle env (EventNew listener)) (\<lambda>h. do {
       _ \<leftarrow> sys env (EventAdd h);
       turns env (cj_call env) k [(h, listener, CjAccept)]
     }))
   }"

text \<open>\<^verbatim>\<open>zhongji_server.cpp\<close>: buffered events; the library reads and writes, and closes the descriptor of a freed event.\<close>

definition zj_server_init :: "env \<Rightarrow> int \<Rightarrow> int \<Rightarrow> int io" where
  "zj_server_init = tcp_server_init"

datatype zj_cb = ZjAccept | ZjClient

definition zj_accept_cb :: "env \<Rightarrow> int \<Rightarrow> zj_cb events \<Rightarrow> zj_cb events outcome io" where
  "zj_accept_cb env fd l = do {
     c \<leftarrow> call_ret env (Accept fd);
     _ \<leftarrow> sys env (Fcntl c);
     bindR (new_handle env (BevNew c)) (\<lambda>h. do {
       _ \<leftarrow> sys env (EventAdd h);
       return (Running ((h, c, ZjClient) # l))
     })
   }"

text \<open>\<open>bufferevent_read\<close> may fill the array of 4096 characters.\<close>

definition zj_read_cb :: "env \<Rightarrow> int \<Rightarrow> zj_cb events \<Rightarrow> zj_cb events outcome io" where
  "zj_read_cb env h l = do {
     r \<leftarrow> sys env (BevRead h 4096);
     bindR (liftR (msg_text 4096 (take 4096 (data r)))) (\<lambda>msg.
     bindR (liftR (reply_text msg)) (\<lambda>s. do {
       _ \<leftarrow> sys env (BevWrite h s);
       return (Running l)
     }))
   }"

definition zj_event_cb :: "env \<Rightarrow> int \<Rightarrow> 'c events \<Rightarrow> 'c events outcome io" where
  "zj_event_cb env h l = do {
     _ \<leftarrow> sys env (BevFree h);
     return (Running (drop_event h l))
   }"

text \<open>The read callback for the bit of \<open>BEV_EVENT_READING\<close> alone, the event callback for the others.\<close>

definition is_reading :: "nat \<Rightarrow> bool" where "is_reading ev \<longleftrightarrow> ev = 1"

fun zj_call :: "env \<Rightarrow> zj_cb \<Rightarrow> int \<Rightarrow> nat \<Rightarrow> int \<Rightarrow> zj_cb events \<Rightarrow> zj_cb events outcome io" where
  "zj_call env ZjAccept fd ev h l = zj_accept_cb env fd l"
| "zj_call env ZjClient fd ev h l = (if is_reading ev then zj_read_cb env h l else zj_event_cb env h l)"

definition zj_main :: "env \<Rightarrow> nat \<Rightarrow> zj_cb events outcome io" where
  "zj_main env k = do {
     listener \<leftarrow> zj_server_init env 9999 10;
     bindR (guardR (listener \<noteq> - 1) (- 1)) (\<lambda>_.
     bindR (new_handle env (EventNew listener)) (\<lambda>h. do {
       _ \<leftarrow> sys env (EventAdd h);
       turns env (zj_call env) k [(h, listener, ZjAccept)]
     }))
   }"

text \<open>\<^verbatim>\<open>gaoji_server.cpp\<close>: the library accepts, and gives the new descriptor with the callback.\<close>

datatype gj_cb = GjListener | GjClient

definition gj_listener_cb :: "env \<Rightarrow> int \<Rightarrow> gj_cb events \<Rightarrow> gj_cb events outcome io" where
  "gj_listener_cb env c l =
     bindR (new_handle env (BevNew c)) (\<lambda>h. do {
       _ \<leftarrow> sys env (EventAdd h);
       return (Running ((h, c, GjClient) # l))
     })"

definition gj_read_cb :: "env \<Rightarrow> int \<Rightarrow> gj_cb events \<Rightarrow> gj_cb events outcome io" where
  "gj_read_cb env h l = do {
     r \<leftarrow> sys env (BevRead h 4095);
     bindR (liftR (msg_text 4096 (take 4095 (data r)))) (\<lambda>_. do {
       _ \<leftarrow> sys env (BevWrite h ''I has read your data'');
       return (Running l)
     })
   }"

definition gj_event_cb :: "env \<Rightarrow> int \<Rightarrow> gj_cb events \<Rightarrow> gj_cb events outcome io" where
  "gj_event_cb = zj_event_cb"

text \<open>The event bits of a listener are the accepted descriptor.\<close>

fun gj_call :: "env \<Rightarrow> gj_cb \<Rightarrow> int \<Rightarrow> nat \<Rightarrow> int \<Rightarrow> gj_cb events \<Rightarrow> gj_cb events outcome io" where
  "gj_call env GjListener fd ev h l = gj_listener_cb env (int ev) l"
| "gj_call env GjClient fd ev h l = (if is_reading ev then gj_read_cb env h l else gj_event_cb env h l)"

definition gj_main :: "env \<Rightarrow> nat \<Rightarrow> gj_cb events outcome io" where
  "gj_main env k =
     bindR (new_handle env (ListenerNew 9999)) (\<lambda>h. turns env (gj_call env) k [(h, - 1, GjListener)])"

section \<open>The clients\<close>

text \<open>\<^verbatim>\<open>chuji_client.cpp\<close>; \<open>inet_aton\<close> accepts some of the addresses.\<close>

definition tcp_connect_server :: "env \<Rightarrow> (string \<Rightarrow> bool) \<Rightarrow> string \<Rightarrow> int \<Rightarrow> int io" where
  "tcp_connect_server env inet_aton ip port =
     (if \<not> inet_aton ip then return (- 1)
      else do {
        s \<leftarrow> call_ret env Socket;
        if s < 0 then return (- 1)
        else do {
          c \<leftarrow> call_ret env (Connect s ip port);
          if c < 0 then do { _ \<leftarrow> sys env (Close s); return (- 1) }
          else do { _ \<leftarrow> sys env (Fcntl s); return s }
        }
      })"

datatype cc_cb = CcSocket | CcTerminal int

definition cc_cmd_cb :: "env \<Rightarrow> int \<Rightarrow> int \<Rightarrow> cc_cb events \<Rightarrow> cc_cb events outcome io" where
  "cc_cmd_cb env fd sockfd l = do {
     r \<leftarrow> sys env (Read fd 1024);
     bindR (guardR (0 < ret r) 1) (\<lambda>_. do {
       _ \<leftarrow> sys env (Write sockfd (take (nat (ret r)) (data r)));
       return (Running l)
     })
   }"

definition cc_read_cb :: "env \<Rightarrow> int \<Rightarrow> cc_cb events \<Rightarrow> cc_cb events outcome io" where
  "cc_read_cb env fd l = do {
     r \<leftarrow> sys env (Read fd 1023);
     bindR (guardR (0 < ret r) 1) (\<lambda>_.
     bindR (liftR (msg_text 1024 (take 1023 (data r)))) (\<lambda>_. return (Running l)))
   }"

fun cc_call :: "env \<Rightarrow> cc_cb \<Rightarrow> int \<Rightarrow> nat \<Rightarrow> int \<Rightarrow> cc_cb events \<Rightarrow> cc_cb events outcome io" where
  "cc_call env CcSocket fd ev h l = cc_read_cb env fd l"
| "cc_call env (CcTerminal sockfd) fd ev h l = cc_cmd_cb env fd sockfd l"

definition cc_main :: "env \<Rightarrow> (string \<Rightarrow> bool) \<Rightarrow> nat \<Rightarrow> string list \<Rightarrow> cc_cb events outcome io" where
  "cc_main env inet_aton k args = (case args of
     ip # p # _ \<Rightarrow>
       bindR (liftR (atoi p)) (\<lambda>port. do {
         s \<leftarrow> tcp_connect_server env inet_aton ip port;
         bindR (guardR (s \<noteq> - 1) (- 1)) (\<lambda>_.
         bindR (new_handle env (EventNew s)) (\<lambda>h. do {
           _ \<leftarrow> sys env (EventAdd h);
           bindR (new_handle env (EventNew 0)) (\<lambda>h'. do {
             _ \<leftarrow> sys env (EventAdd h');
             turns env (cc_call env) k [(h', 0, CcTerminal s), (h, s, CcSocket)]
           })
         }))
       })
   | _ \<Rightarrow> return (Failed (- 1)))"

text \<open>
  \<^verbatim>\<open>zhongji_client.cpp\<close> and \<^verbatim>\<open>gaoji_client.cpp\<close>: the callbacks know the other handle. The end of the input, where
  \<open>read\<close> returns 0, is written like a line.
\<close>

datatype zc_cb = ZcServer int | ZcTerminal int

definition zc_cmd_cb :: "env \<Rightarrow> int \<Rightarrow> int \<Rightarrow> zc_cb events \<Rightarrow> zc_cb events outcome io" where
  "zc_cmd_cb env fd bev l = do {
     r \<leftarrow> sys env (Read fd 1024);
     bindR (guardR (0 \<le> ret r) 1) (\<lambda>_. do {
       _ \<leftarrow> sys env (BevWrite bev (take (nat (ret r)) (data r)));
       return (Running l)
     })
   }"

definition zc_server_msg_cb :: "env \<Rightarrow> int \<Rightarrow> zc_cb events \<Rightarrow> zc_cb events outcome io" where
  "zc_server_msg_cb env bev l = do {
     r \<leftarrow> sys env (BevRead bev 1024);
     bindR (liftR (msg_text 1024 (take 1024 (data r)))) (\<lambda>_. return (Running l))
   }"

definition zc_event_cb :: "env \<Rightarrow> int \<Rightarrow> int \<Rightarrow> zc_cb events \<Rightarrow> zc_cb events outcome io" where
  "zc_event_cb env bev ev_cmd l = do {
     _ \<leftarrow> sys env (BevFree bev);
     _ \<leftarrow> sys env (EventFree ev_cmd);
     return (Running (drop_event ev_cmd (drop_event bev l)))
   }"

fun zc_call :: "env \<Rightarrow> zc_cb \<Rightarrow> int \<Rightarrow> nat \<Rightarrow> int \<Rightarrow> zc_cb events \<Rightarrow> zc_cb events outcome io" where
  "zc_call env (ZcServer ev_cmd) fd ev h l = (if is_reading ev then zc_server_msg_cb env h l else zc_event_cb env h ev_cmd l)"
| "zc_call env (ZcTerminal bev) fd ev h l = zc_cmd_cb env fd bev l"

definition zc_connect_server :: "env \<Rightarrow> (string \<Rightarrow> bool) \<Rightarrow> string \<Rightarrow> int \<Rightarrow> int io" where
  "zc_connect_server = tcp_connect_server"

definition zc_main :: "env \<Rightarrow> (string \<Rightarrow> bool) \<Rightarrow> nat \<Rightarrow> string list \<Rightarrow> zc_cb events outcome io" where
  "zc_main env inet_aton k args = (case args of
     ip # p # _ \<Rightarrow>
       bindR (liftR (atoi p)) (\<lambda>port. do {
         s \<leftarrow> zc_connect_server env inet_aton ip port;
         bindR (guardR (s \<noteq> - 1) (- 1)) (\<lambda>_.
         bindR (new_handle env (BevNew s)) (\<lambda>bev.
         bindR (new_handle env (EventNew 0)) (\<lambda>h. do {
           _ \<leftarrow> sys env (EventAdd h);
           _ \<leftarrow> sys env (EventAdd bev);
           turns env (zc_call env) k [(h, 0, ZcTerminal bev), (bev, s, ZcServer h)]
         })))
       })
   | _ \<Rightarrow> return (Failed (- 1)))"

text \<open>The bits 4, 5 and 7: the end of the stream, an error, the connection.\<close>

definition ev_bit :: "nat \<Rightarrow> nat \<Rightarrow> bool" where "ev_bit ev k \<longleftrightarrow> odd (ev div 2 ^ k)"

definition gc_event_cb :: "env \<Rightarrow> int \<Rightarrow> nat \<Rightarrow> int \<Rightarrow> zc_cb events \<Rightarrow> zc_cb events outcome io" where
  "gc_event_cb env bev ev ev_cmd l =
     (if \<not> ev_bit ev 4 \<and> \<not> ev_bit ev 5 \<and> ev_bit ev 7 then return (Running l)
      else do {
        _ \<leftarrow> sys env (BevFree bev);
        _ \<leftarrow> sys env (EventFree ev_cmd);
        return (Running (drop_event ev_cmd (drop_event bev l)))
      })"

definition gc_cmd_cb :: "env \<Rightarrow> int \<Rightarrow> int \<Rightarrow> zc_cb events \<Rightarrow> zc_cb events outcome io" where
  "gc_cmd_cb = zc_cmd_cb"

definition gc_server_msg_cb :: "env \<Rightarrow> int \<Rightarrow> zc_cb events \<Rightarrow> zc_cb events outcome io" where
  "gc_server_msg_cb = zc_server_msg_cb"

fun gc_call :: "env \<Rightarrow> zc_cb \<Rightarrow> int \<Rightarrow> nat \<Rightarrow> int \<Rightarrow> zc_cb events \<Rightarrow> zc_cb events outcome io" where
  "gc_call env (ZcServer ev_cmd) fd ev h l = (if is_reading ev then gc_server_msg_cb env h l else gc_event_cb env h ev ev_cmd l)"
| "gc_call env (ZcTerminal bev) fd ev h l = gc_cmd_cb env fd bev l"

definition gc_main :: "env \<Rightarrow> nat \<Rightarrow> string list \<Rightarrow> zc_cb events outcome io" where
  "gc_main env k args = (case args of
     ip # p # _ \<Rightarrow>
       bindR (new_handle env (BevNew (- 1))) (\<lambda>bev.
       bindR (new_handle env (EventNew 0)) (\<lambda>h. do {
         _ \<leftarrow> sys env (EventAdd h);
         bindR (liftR (atoi p)) (\<lambda>port. do {
           _ \<leftarrow> sys env (BevConnect bev ip port);
           _ \<leftarrow> sys env (EventAdd bev);
           turns env (gc_call env) k [(h, 0, ZcTerminal bev), (bev, - 1, ZcServer h)]
         })
       }))
   | _ \<Rightarrow> return (Failed (- 1)))"

section \<open>The timer\<close>

text \<open>\<^verbatim>\<open>example1.cpp\<close>: a timer is deleted when it fires, and the callback adds it again.\<close>

datatype timer_cb = OnTime

definition onTime :: "env \<Rightarrow> int \<Rightarrow> timer_cb events \<Rightarrow> timer_cb events outcome io" where
  "onTime env ev l = do {
     _ \<leftarrow> sys env (EventAdd ev);
     return (Running ((ev, - 1, OnTime) # drop_event ev l))
   }"

fun timer_call :: "env \<Rightarrow> timer_cb \<Rightarrow> int \<Rightarrow> nat \<Rightarrow> int \<Rightarrow> timer_cb events \<Rightarrow> timer_cb events outcome io" where
  "timer_call env OnTime fd ev h l = onTime env h l"

text \<open>The structure of the event is a local variable at the address \<open>ev\<close>.\<close>

definition timer_main :: "env \<Rightarrow> int \<Rightarrow> nat \<Rightarrow> timer_cb events outcome io" where
  "timer_main env ev k = do {
     _ \<leftarrow> sys env (EventAdd ev);
     turns env (timer_call env) k [(ev, - 1, OnTime)]
   }"

section \<open>What the servers answer\<close>

lemma msg_text_eq: "NUL \<notin> set d \<Longrightarrow> msg_text n d = (if length d < n then Inr d else Inl OutOfBounds)"
  by (simp add: msg_text_def c_string_def takeWhile_append)

lemma reply_text_eq:
  assumes "NUL \<notin> set d"
  shows "reply_text d = (if length d + 26 < 4096 then Inr (reply_prefix @ d) else Inl OutOfBounds)"
proof -
  have "length reply_prefix = 26" "NUL \<notin> set reply_prefix" by (simp_all add: reply_prefix_def)
  then show ?thesis using assms by (auto simp: reply_text_def strcpy_def c_string_def takeWhile_append)
qed

text \<open>
  Messages for the event servers. The server on plain events and the server on buffered events send a
  message back behind their prefix when both fit 4096 characters, and otherwise write past the end of the array; the third server
  answers every message it can read. (The message that fills the array is the library's choice only for the second.)
\<close>

theorem event_servers_answer:
  assumes "NUL \<notin> set d" "d \<noteq> []" "length d \<le> 4096"
    and "env t (Read fd 4095) = \<lparr>ret = int (length (take 4095 d)), data = take 4095 d, evs = []\<rparr>"
    and "data (env t (BevRead h 4096)) = d" "data (env t (BevRead h 4095)) = take 4095 d"
  shows "let (o1, t1) = run_state (cj_read_cb env fd h l) t; (o2, t2) = run_state (zj_read_cb env h l') t;
      (o3, t3) = run_state (gj_read_cb env h l'') t in
    (if length d + 26 < 4096
     then o1 = Running l \<and> map fst t1 = Write fd (reply_prefix @ d) # Read fd 4095 # map fst t \<and>
       o2 = Running l' \<and> map fst t2 = BevWrite h (reply_prefix @ d) # BevRead h 4096 # map fst t
     else o1 = Crashed OutOfBounds \<and> o2 = Crashed OutOfBounds) \<and>
    o3 = Running l'' \<and> map fst t3 = BevWrite h ''I has read your data'' # BevRead h 4095 # map fst t"
proof -
  have free: "NUL \<notin> set (take 4095 d)" using assms(1) by (auto dest: in_set_takeD)
  have "run_state (cj_read_cb env fd h l) t =
      (if length d + 26 < 4096
       then (Running l, (Write fd (reply_prefix @ d), env ((Read fd 4095, env t (Read fd 4095)) # t) (Write fd (reply_prefix @ d))) #
         (Read fd 4095, env t (Read fd 4095)) # t)
       else (Crashed OutOfBounds, (Read fd 4095, env t (Read fd 4095)) # t))"
    using assms(2,4)
    by (auto simp: cj_read_cb_def msg_text_eq [OF free] reply_text_eq [OF free] msg_text_eq [OF assms(1)] reply_text_eq [OF assms(1)])
  moreover have "run_state (zj_read_cb env h l') t =
      (if length d + 26 < 4096
       then (Running l', (BevWrite h (reply_prefix @ d), env ((BevRead h 4096, env t (BevRead h 4096)) # t) (BevWrite h (reply_prefix @ d))) #
         (BevRead h 4096, env t (BevRead h 4096)) # t)
       else (Crashed OutOfBounds, (BevRead h 4096, env t (BevRead h 4096)) # t))"
    using assms(3,5) by (auto simp: zj_read_cb_def msg_text_eq [OF assms(1)] reply_text_eq [OF assms(1)])
  moreover have "min (length d) 4095 < 4096" by simp
  ultimately show ?thesis
    using assms(6) by (simp add: gj_read_cb_def msg_text_eq [OF free])
qed

definition demo_event :: env where
  "demo_event t c = (case c of
     Read fd n \<Rightarrow> \<lparr>ret = 2, data = ''hi'', evs = []\<rparr>
   | BevRead h n \<Rightarrow> \<lparr>ret = 2, data = ''hi'', evs = []\<rparr>
   | _ \<Rightarrow> \<lparr>ret = 0, data = [], evs = []\<rparr>)"

lemma event_servers_answer_witness:
  "\<exists>t1 t2. run_state (cj_read_cb demo_event 5 1 []) [] = (Running [], t1) \<and>
     run_state (zj_read_cb demo_event 1 []) [] = (Running [], t2) \<and>
     map fst t1 = [Write 5 (reply_prefix @ ''hi''), Read 5 4095]"
proof -
  have "take 4095 ''hi'' = ''hi''" by simp
  then show ?thesis
    using event_servers_answer [of "''hi''" demo_event "[]" 5 1 "[]" "[]" "[]"]
    by (auto simp: demo_event_def Let_def split: prod.splits)
qed

section \<open>Open descriptors\<close>

text \<open>The handles that were created and not freed.\<close>

fun live :: "trace \<Rightarrow> int set" where
  "live [] = {}"
| "live ((c, r) # t) = (case c of
     EventNew _ \<Rightarrow> insert (ret r) (live t)
   | EventFree h \<Rightarrow> live t - {h}
   | _ \<Rightarrow> live t)"

text \<open>The library and the kernel do not hand out what is in use.\<close>

definition hands_out_fresh :: "env \<Rightarrow> bool" where
  "hands_out_fresh env \<longleftrightarrow> (\<forall>t fd. ret (env t (EventNew fd)) \<notin> live t) \<and> (\<forall>t s. ret (env t (Accept s)) \<notin> open_set t)"

text \<open>The descriptors of the registered events; a failing \<open>accept\<close> is registered with a negative one.\<close>

definition event_fds :: "'c events \<Rightarrow> int list" where
  "event_fds l = filter (\<lambda>fd. 0 \<le> fd) (map (\<lambda>(h, fd, cb). fd) l)"

definition cj_ok :: "trace \<Rightarrow> cj_cb events \<Rightarrow> bool" where
  "cj_ok t l \<longleftrightarrow> distinct (map fst l) \<and> set (map fst l) = live t \<and> distinct (event_fds l) \<and> set (event_fds l) = open_set t"

lemma cj_ok_simps [simp]:
  "cj_ok ((Write fd m, r) # t) l = cj_ok t l" "cj_ok ((Read fd n, r) # t) l = cj_ok t l"
  "cj_ok ((Dispatch, r) # t) l = cj_ok t l"
  by (simp_all add: cj_ok_def)

lemma event_fds_Cons [simp]: "event_fds ((h, fd, cb) # l) = (if 0 \<le> fd then fd # event_fds l else event_fds l)"
  by (simp add: event_fds_def)

lemma drop_event_simps [simp]: "drop_event h [] = []" "drop_event h ((h', p) # l) = (if h' = h then drop_event h l else (h', p) # drop_event h l)"
  by (simp_all add: drop_event_def)

lemma drop_event_other: "h \<notin> fst ` set l \<Longrightarrow> drop_event h l = l"
  by (force simp: drop_event_def filter_id_conv)

lemma drop_event_ok:
  assumes "distinct (map fst l)" "distinct (event_fds l)" "map_of l h = Some (fd, cb)"
  shows "distinct (map fst (drop_event h l)) \<and> set (map fst (drop_event h l)) = set (map fst l) - {h} \<and>
    distinct (event_fds (drop_event h l)) \<and> set (event_fds (drop_event h l)) = set (event_fds l) - {fd}"
  using assms
proof (induction l)
  case (Cons e l)
  obtain h' fd' cb' where e: "e = (h', fd', cb')" by (cases e)
  show ?case
  proof (cases "h' = h")
    case True
    then have "drop_event h (e # l) = l"
      using Cons.prems(1) by (simp add: e drop_event_other)
    moreover have "fd' = fd" using Cons.prems(3) True by (simp add: e)
    moreover have "set (event_fds l) \<subseteq> {0..}" by (auto simp: event_fds_def)
    ultimately show ?thesis using Cons.prems True by (auto simp: e split: if_splits)
  next
    case False
    have IH: "distinct (map fst (drop_event h l)) \<and> set (map fst (drop_event h l)) = set (map fst l) - {h} \<and>
      distinct (event_fds (drop_event h l)) \<and> set (event_fds (drop_event h l)) = set (event_fds l) - {fd}"
      using Cons.prems False by (intro Cons.IH) (auto simp: e split: if_splits)
    have "0 \<le> fd \<Longrightarrow> fd \<in> set (event_fds l)"
      using Cons.prems(3) False by (force simp: e event_fds_def dest: map_of_SomeD)
    then have "0 \<le> fd' \<Longrightarrow> fd' \<noteq> fd" using Cons.prems(2) by (auto simp: e)
    then show ?thesis using Cons.prems(1,2) IH False by (auto simp: e)
  qed
qed (simp add: drop_event_def event_fds_def)

lemma cj_turn_ok:
  assumes "hands_out_fresh env" "run_state (turn env (cj_call env) l) t = (Running l', t')" "cj_ok t l"
  shows "cj_ok t' l'"
proof -
  let ?t1 = "(Dispatch, env t Dispatch) # t"
  have ok: "cj_ok ?t1 l" using assms(3) by (simp add: cj_ok_def)
  obtain h ev es where evs: "evs (env t Dispatch) = (h, ev) # es"
    using assms(2) by (cases "evs (env t Dispatch)") (auto simp: turn_def)
  show ?thesis
  proof (cases "map_of l h")
    case None
    then show ?thesis using assms(2) ok by (auto simp: turn_def evs)
  next
    case (Some p)
    obtain fd cb where p: "p = (fd, cb)" by (cases p)
    have call: "run_state (cj_call env cb fd ev h l) ?t1 = (Running l', t')"
      using assms(2) by (simp add: turn_def evs Some p)
    show ?thesis
    proof (cases cb)
      case CjAccept
      let ?c = "ret (env ?t1 (Accept fd))"
      let ?t2 = "(Fcntl ?c, env ((Accept fd, env ?t1 (Accept fd)) # ?t1) (Fcntl ?c)) # (Accept fd, env ?t1 (Accept fd)) # ?t1"
      let ?h = "ret (env ?t2 (EventNew (- 1)))"
      have "?h \<notin> live t" "0 \<le> ?c \<Longrightarrow> ?c \<notin> open_set t"
        using assms(1) by (auto simp: hands_out_fresh_def dest: spec [of _ ?t2] spec [of _ ?t1])
      moreover have "l' = (?h, ?c, CjRead) # l"
        "t' = (EventAdd ?h, env ((EventNew (- 1), env ?t2 (EventNew (- 1))) # ?t2) (EventAdd ?h)) # (EventNew (- 1), env ?t2 (EventNew (- 1))) # ?t2"
        using call by (auto simp: CjAccept cj_accept_cb_def new_handle_def run_bindR_Running split: if_splits)
      ultimately show ?thesis using ok by (auto simp: cj_ok_def)
    next
      case CjRead
      let ?r = "env ?t1 (Read fd 4095)"
      have "distinct (map fst l)" "distinct (event_fds l)" "map_of l h = Some (fd, cb)"
        using ok Some p by (auto simp: cj_ok_def)
      from drop_event_ok [OF this] ok
      have dropped: "cj_ok ((Close fd, r1) # (EventFree h, r2) # (Read fd 4095, ?r) # ?t1) (drop_event h l)" for r1 r2
        by (simp add: cj_ok_def)
      show ?thesis
      proof (cases "ret ?r \<le> 0")
        case True
        then show ?thesis using call dropped by (auto simp: CjRead cj_read_cb_def)
      next
        case False
        then show ?thesis using call ok by (auto simp: CjRead cj_read_cb_def run_bindR_Running)
      qed
    qed
  qed
qed

lemma cj_turns_ok:
  "hands_out_fresh env \<Longrightarrow> run_state (turns env (cj_call env) k l) t = (Running l', t') \<Longrightarrow> cj_ok t l \<Longrightarrow> cj_ok t' l'"
proof (induction k arbitrary: l t)
  case (Suc k)
  then show ?case by (auto simp: run_bindR_Running dest: cj_turn_ok)
qed simp

lemma tcp_server_init_ok:
  assumes "run_state (tcp_server_init env port n) [] = (s, t)" "s \<noteq> - 1"
  shows "0 \<le> s \<and> open_set t = {s} \<and> live t = {}"
  using assms by (auto simp: tcp_server_init_def split: if_splits)

text \<open>
  C33: Descriptors of the event server. When the library and the kernel hand out what is not in use, then in every run the open
  descriptors of the server on plain events are exactly those of its registered events, each of them once, and
  the registered events are those that were created and not freed.
\<close>

theorem event_server_descriptors:
  assumes "hands_out_fresh env" "run_state (cj_main env k) [] = (Running l, t)"
  shows "distinct (event_fds l) \<and> set (event_fds l) = open_set t \<and> distinct (map fst l) \<and> set (map fst l) = live t"
proof -
  obtain s t0 where i: "run_state (tcp_server_init env 9999 10) [] = (s, t0)" by (metis prod.exhaust)
  let ?h = "ret (env t0 (EventNew s))"
  let ?t1 = "(EventNew s, env t0 (EventNew s)) # t0"
  have s: "s \<noteq> - 1" and run: "run_state (turns env (cj_call env) k [(?h, s, CjAccept)]) ((EventAdd ?h, env ?t1 (EventAdd ?h)) # ?t1) = (Running l, t)"
    using assms(2) i by (auto simp: cj_main_def new_handle_def run_bindR_Running split: if_splits)
  have "cj_ok ((EventAdd ?h, env ?t1 (EventAdd ?h)) # ?t1) [(?h, s, CjAccept)]"
    using tcp_server_init_ok [OF i s] by (simp add: cj_ok_def event_fds_def)
  from cj_turns_ok [OF assms(1) run this] show ?thesis by (simp add: cj_ok_def)
qed

text \<open>A library and a kernel that hand out a number above all that were returned; a client comes and leaves.\<close>

definition unused :: "trace \<Rightarrow> int" where
  "unused t = 1 + sum_list (map (\<lambda>(c, r). \<bar>ret r\<bar>) t)"

definition demo_lib :: env where
  "demo_lib t c = (case c of
     Socket \<Rightarrow> \<lparr>ret = unused t, data = [], evs = []\<rparr>
   | Accept l \<Rightarrow> \<lparr>ret = unused t, data = [], evs = []\<rparr>
   | EventNew fd \<Rightarrow> \<lparr>ret = unused t, data = [], evs = []\<rparr>
   | Dispatch \<Rightarrow> \<lparr>ret = 0, data = [], evs = [(if unused t = 4 then 2 else 8, 1)]\<rparr>
   | _ \<Rightarrow> \<lparr>ret = 0, data = [], evs = []\<rparr>)"

lemma unused_simps [simp]: "unused [] = 1" "unused ((c, r) # t) = unused t + \<bar>ret r\<bar>"
  by (simp_all add: unused_def)

lemma unused_above: "x \<in> live t \<or> x \<in> open_set t \<Longrightarrow> x < unused t \<and> 0 < unused t"
proof (induction t)
  case (Cons e t)
  obtain c r where e: "e = (c, r)" by (cases e)
  have "0 < unused t" by (induction t) auto
  then show ?case using Cons by (cases c) (auto simp: e split: if_splits)
qed simp

lemma unused_not_in [simp]: "unused t \<notin> live t" "unused t \<notin> open_set t"
  using unused_above [of "unused t" t] by auto

lemma demo_lib_fresh: "hands_out_fresh demo_lib"
  by (simp add: hands_out_fresh_def demo_lib_def)

lemma event_server_descriptors_witness:
  "\<exists>t. run_state (cj_main demo_lib 2) [] = (Running [(2, 1, CjAccept)], t) \<and> open_set t = {1} \<and> live t = {2}"
proof -
  have "\<exists>t. run_state (cj_main demo_lib 2) [] = (Running [(2, 1, CjAccept)], t)"
    by (simp add: cj_main_def tcp_server_init_def new_handle_def turn_def cj_accept_cb_def cj_read_cb_def demo_lib_def numeral_2_eq_2 bindR_def guardR_def)
  then obtain t where "run_state (cj_main demo_lib 2) [] = (Running [(2, 1, CjAccept)], t)" ..
  from this event_server_descriptors [OF demo_lib_fresh this] show ?thesis
    by (intro exI [of _ t]) (simp add: event_fds_def)
qed

text \<open>The timer is always registered, once, and was added once more than it fired.\<close>

definition fired :: "int \<Rightarrow> trace \<Rightarrow> nat" where
  "fired ev t = length (filter (\<lambda>(c, r). c = Dispatch \<and> (case evs r of [] \<Rightarrow> False | (h, _) # _ \<Rightarrow> h = ev)) t)"

definition adds :: "int \<Rightarrow> trace \<Rightarrow> nat" where
  "adds ev t = length (filter (\<lambda>(c, r). c = EventAdd ev) t)"

lemma timer_turn:
  assumes "run_state (turn env (timer_call env) [(ev, - 1, OnTime)]) t = (Running l, t')"
  shows "l = [(ev, - 1, OnTime)] \<and> adds ev t' + fired ev t = adds ev t + fired ev t'"
proof -
  obtain h e es where evs: "evs (env t Dispatch) = (h, e) # es"
    using assms by (cases "evs (env t Dispatch)") (auto simp: turn_def)
  show ?thesis
    using assms by (cases "h = ev") (auto simp: turn_def evs onTime_def adds_def fired_def)
qed

lemma timer_keeps_firing:
  "run_state (timer_main env ev k) [] = (Running l, t) \<Longrightarrow> l = [(ev, - 1, OnTime)] \<and> adds ev t = fired ev t + 1"
proof -
  have turns: "run_state (turns env (timer_call env) k [(ev, - 1, OnTime)]) t0 = (Running l, t) \<Longrightarrow>
      l = [(ev, - 1, OnTime)] \<and> adds ev t + fired ev t0 = adds ev t0 + fired ev t" for t0
  proof (induction k arbitrary: t0)
    case (Suc k)
    then obtain l1 t1 where 1: "run_state (turn env (timer_call env) [(ev, - 1, OnTime)]) t0 = (Running l1, t1)"
        "run_state (turns env (timer_call env) k l1) t1 = (Running l, t)"
      by (auto simp: run_bindR_Running)
    then show ?case using timer_turn [OF 1(1)] Suc.IH [of t1] by auto
  qed simp
  assume "run_state (timer_main env ev k) [] = (Running l, t)"
  then have "run_state (turns env (timer_call env) k [(ev, - 1, OnTime)]) [(EventAdd ev, env [] (EventAdd ev))] = (Running l, t)"
    by (simp add: timer_main_def)
  from turns [OF this] show ?thesis by (simp add: adds_def fired_def)
qed

end
