(* ===== verification/Pipes.thy ===== *)
theory Pipes
  imports StepSystem CString
begin

text \<open>
  Two programs with a pipe between a parent and its child: \<^verbatim>\<open>src/temp/pipe_test.cpp\<close> and
  \<open>test_process\<close> of \<^verbatim>\<open>src/wzq_study/process.cpp\<close>. The scheduler chooses which process makes the next step,
  so that the sleeps have no effect. A \<open>write\<close> of few characters is atomic, a \<open>read\<close> waits
  for characters or for the last writer to close the pipe, and a \<open>write\<close> without a reader ends the writer.
\<close>

section \<open>Ten messages\<close>

definition fmsg :: string where "fmsg = ''this is father''"

record pt_state =
  pipe_buf :: string
  father_i :: nat
  father_gone :: bool
  father_killed :: bool
  son_i :: nat
  son_gone :: bool
  shown :: "string list"

definition pt_init :: pt_state where
  "pt_init = \<lparr>pipe_buf = [], father_i = 0, father_gone = False, father_killed = False, son_i = 0, son_gone = False, shown = []\<rparr>"

datatype pt_event = Father | Son

definition father_step :: "pt_state \<Rightarrow> pt_state res option" where
  "father_step s =
     (if father_gone s then None
      else if father_i s < 10 then
        (if son_gone s then Some (Inr (s\<lparr>father_gone := True, father_killed := True\<rparr>))
         else Some (Inr (s\<lparr>pipe_buf := pipe_buf s @ fmsg @ [NUL], father_i := father_i s + 1\<rparr>)))
      else Some (Inr (s\<lparr>father_gone := True\<rparr>)))"

definition son_step :: "pt_state \<Rightarrow> pt_state res option" where
  "son_step s =
     (if son_gone s then None
      else if son_i s < 10 then
        (if pipe_buf s = [] then
           (if father_gone s then Some (Inr (s\<lparr>son_i := son_i s + 1\<rparr>)) else None)
         else let d = take 31 (pipe_buf s) in
           Some (bindE (c_string (d @ replicate (32 - length d) NUL)) (\<lambda>l.
             Inr (s\<lparr>pipe_buf := drop 31 (pipe_buf s), son_i := son_i s + 1, shown := shown s @ [l]\<rparr>))))
      else Some (Inr (s\<lparr>son_gone := True\<rparr>)))"

fun pt_step :: "pt_event \<Rightarrow> pt_state \<Rightarrow> pt_state res option" where
  "pt_step Father s = father_step s"
| "pt_step Son s = son_step s"

inductive pt_reach :: "pt_state \<Rightarrow> bool" where
  pt_start: "pt_reach pt_init"
| pt_next: "pt_reach s \<Longrightarrow> pt_step e s = Some (Inr s') \<Longrightarrow> pt_reach s'"

interpretation pt: step_system pt_step pt_reach pt_init
  by unfold_locales (auto intro: pt_reach.intros elim: pt_reach.induct)

text \<open>The pipe holds the end of one message and whole messages.\<close>

definition stream :: "nat \<Rightarrow> nat \<Rightarrow> string" where
  "stream p m = drop p (concat (replicate m (fmsg @ [NUL])))"

lemma length_fmsg [simp]: "length fmsg = 14" "NUL \<notin> set fmsg"
  by (simp_all add: fmsg_def)

lemma length_stream: "length (stream p m) = 15 * m - p"
  by (simp add: stream_def length_concat sum_list_replicate)

lemma stream_more: "p \<le> 15 * m \<Longrightarrow> stream p m @ fmsg @ [NUL] = stream p (Suc m)"
  by (simp add: stream_def length_concat sum_list_replicate flip: replicate_append_same)

lemma stream_skip: "drop (15 * q) (stream p (q + m)) = stream p m"
proof -
  have "length (concat (replicate q (fmsg @ [NUL]))) = 15 * q" by (simp add: length_concat sum_list_replicate)
  then have "drop (15 * q) (concat (replicate (q + m) (fmsg @ [NUL]))) = concat (replicate m (fmsg @ [NUL]))"
    by (simp add: replicate_add)
  then have "drop p (drop (15 * q) (concat (replicate (q + m) (fmsg @ [NUL])))) = stream p m"
    by (simp only: stream_def)
  then show ?thesis by (simp only: stream_def drop_drop add.commute)
qed

lemma stream_first: "p < 15 \<Longrightarrow> stream p (Suc m) = drop p fmsg @ NUL # stream 0 m"
  by (cases "p = 14") (simp_all add: stream_def)

definition pt_ok :: "pt_state \<Rightarrow> bool" where
  "pt_ok s \<longleftrightarrow> (\<exists>p m. p < 15 \<and> pipe_buf s = stream p m \<and> (m = 0 \<longrightarrow> p = 0) \<and> m + length (shown s) \<le> father_i s) \<and>
     father_i s \<le> 10 \<and> (\<forall>l\<in>set (shown s). suffix l fmsg) \<and> \<not> father_killed s \<and>
     (father_gone s \<longrightarrow> father_i s = 10) \<and> length (shown s) \<le> son_i s \<and> son_i s \<le> 10 \<and>
     (length (shown s) < son_i s \<longrightarrow> father_gone s \<and> pipe_buf s = []) \<and> (son_gone s \<longrightarrow> son_i s = 10)"

lemma pt_ok_done: "pt_ok s \<Longrightarrow> son_gone s \<Longrightarrow> father_i s = 10 \<and> pipe_buf s = []"
  by (auto simp: pt_ok_def stream_def)

lemma stream_rest:
  assumes "p < 15" "0 < m"
  shows "\<exists>p' m'. p' < 15 \<and> drop 31 (stream p m) = stream p' m' \<and> (m' = 0 \<longrightarrow> p' = 0) \<and> m' < m"
proof (cases "15 * m - p \<le> 31")
  case True
  then have "drop 31 (stream p m) = stream 0 0" by (simp add: length_stream) (simp add: stream_def)
  with assms(2) show ?thesis by (intro exI [of _ 0]) simp
next
  case False
  let ?q = "(p + 31) div 15" and ?r = "(p + 31) mod 15"
  have "?q * 15 + ?r = p + 31" by (rule div_mult_mod_eq)
  then have "drop 31 (stream p m) = stream ?r (m - ?q)"
    using False assms stream_skip [of ?q ?r "m - ?q"] by (simp add: stream_def add.commute)
  moreover have "?q < m" "0 < ?q" using False assms by auto
  ultimately show ?thesis by (intro exI [of _ ?r] exI [of _ "m - ?q"]) auto
qed

lemma son_reads:
  assumes "p < 15" "0 < m"
  shows "c_string (take 31 (stream p m) @ replicate (32 - length (take 31 (stream p m))) NUL) = Inr (drop p fmsg)"
proof -
  obtain m' where m: "m = Suc m'" using assms(2) by (cases m) simp_all
  have "NUL \<notin> set (drop p fmsg)" by (auto dest: in_set_dropD simp: fmsg_def)
  then show ?thesis
    using assms(1) by (auto simp: m stream_first c_string_def takeWhile_append take_Cons')
qed

lemma father_step_ok:
  assumes "pt_ok s" "father_step s = Some r"
  shows "\<exists>s'. r = Inr s' \<and> pt_ok s'"
proof -
  obtain p m where ok: "p < 15" "pipe_buf s = stream p m" "m = 0 \<longrightarrow> p = 0" "m + length (shown s) \<le> father_i s"
      "father_i s \<le> 10" "\<forall>l\<in>set (shown s). suffix l fmsg" "\<not> father_killed s" "father_gone s \<longrightarrow> father_i s = 10"
      "length (shown s) \<le> son_i s" "son_i s \<le> 10" "length (shown s) < son_i s \<longrightarrow> father_gone s \<and> pipe_buf s = []"
      "son_gone s \<longrightarrow> son_i s = 10"
    using assms(1) unfolding pt_ok_def by blast
  show ?thesis
  proof (cases "father_i s < 10")
    case True
    then have r: "r = Inr (s\<lparr>pipe_buf := stream p (Suc m), father_i := father_i s + 1\<rparr>)"
      using assms ok(1-3) pt_ok_done [OF assms(1)] by (cases m) (auto simp: father_step_def stream_more split: if_splits)
    have "pt_ok (s\<lparr>pipe_buf := stream p (Suc m), father_i := father_i s + 1\<rparr>)"
      unfolding pt_ok_def using ok True
      by (intro conjI exI [of _ p] exI [of _ "Suc m"]) auto
    with r show ?thesis by blast
  next
    case False
    then have r: "r = Inr (s\<lparr>father_gone := True\<rparr>)" using assms(2) by (simp add: father_step_def split: if_splits)
    have "pt_ok (s\<lparr>father_gone := True\<rparr>)"
      unfolding pt_ok_def using ok False by (intro conjI exI [of _ p] exI [of _ m]) auto
    with r show ?thesis by blast
  qed
qed

lemma son_step_ok:
  assumes "pt_ok s" "son_step s = Some r"
  shows "\<exists>s'. r = Inr s' \<and> pt_ok s'"
proof -
  obtain p m where ok: "p < 15" "pipe_buf s = stream p m" "m = 0 \<longrightarrow> p = 0" "m + length (shown s) \<le> father_i s"
      "father_i s \<le> 10" "\<forall>l\<in>set (shown s). suffix l fmsg" "\<not> father_killed s" "father_gone s \<longrightarrow> father_i s = 10"
      "length (shown s) \<le> son_i s" "son_i s \<le> 10" "length (shown s) < son_i s \<longrightarrow> father_gone s \<and> pipe_buf s = []"
      "son_gone s \<longrightarrow> son_i s = 10"
    using assms(1) unfolding pt_ok_def by blast
  consider "son_i s = 10" | "son_i s < 10" "pipe_buf s = []" | "son_i s < 10" "pipe_buf s \<noteq> []" using ok(10) by linarith
  then show ?thesis
  proof cases
    case 1
    then have r: "r = Inr (s\<lparr>son_gone := True\<rparr>)" using assms(2) by (simp add: son_step_def split: if_splits)
    have "pt_ok (s\<lparr>son_gone := True\<rparr>)"
      unfolding pt_ok_def using ok 1 by (intro conjI exI [of _ p] exI [of _ m]) auto
    with r show ?thesis by blast
  next
    case 2
    then have r: "r = Inr (s\<lparr>son_i := son_i s + 1\<rparr>)" "father_gone s"
      using assms(2) by (simp_all add: son_step_def split: if_splits)
    have "pt_ok (s\<lparr>son_i := son_i s + 1\<rparr>)"
      unfolding pt_ok_def using ok 2 r(2) by (intro conjI exI [of _ p] exI [of _ m]) auto
    with r show ?thesis by blast
  next
    case 3
    then have m: "0 < m" using ok(2,3) by (cases m) (simp_all add: stream_def)
    obtain p' m' where rest: "p' < 15" "drop 31 (stream p m) = stream p' m'" "m' = 0 \<longrightarrow> p' = 0" "m' < m"
      using stream_rest [OF ok(1) m] by blast
    let ?s = "s\<lparr>pipe_buf := stream p' m', son_i := son_i s + 1, shown := shown s @ [drop p fmsg]\<rparr>"
    have r: "r = Inr ?s"
      using assms(2) 3 rest(2) son_reads [OF ok(1) m] by (simp add: son_step_def ok(2) Let_def split: if_splits)
    have "length (shown s) = son_i s" using ok(9,11) 3 by linarith
    then have "pt_ok ?s"
      unfolding pt_ok_def using ok 3 rest by (intro conjI exI [of _ p'] exI [of _ m']) (auto simp: suffix_drop)
    with r show ?thesis by blast
  qed
qed

lemma pt_step_ok: "pt_ok s \<Longrightarrow> pt_step e s = Some r \<Longrightarrow> \<exists>s'. r = Inr s' \<and> pt_ok s'"
  by (cases e) (auto dest: father_step_ok son_step_ok)

text \<open>
  C32: The pipe of the father and the son. For every schedule: every line that the son prints is an end of the message, at
  most one line per message is printed, no buffer is overrun, the father is never killed, while
  one of the two is left one of them can go on, and when the son ends, all ten messages were written and read.
\<close>

theorem pipe_messages:
  assumes "pt_reach s"
  shows "(\<forall>l\<in>set (shown s). suffix l fmsg) \<and> length (shown s) \<le> father_i s \<and> father_i s \<le> 10 \<and> \<not> father_killed s \<and>
    (\<forall>e x. pt_step e s \<noteq> Some (Inl x)) \<and>
    (father_gone s \<and> son_gone s \<or> (\<exists>e. pt_step e s \<noteq> None)) \<and>
    (son_gone s \<longrightarrow> father_i s = 10 \<and> pipe_buf s = [])"
proof -
  have ok: "pt_ok s"
    using assms
  proof (rule pt.invariant)
    show "pt_ok pt_init" by (auto simp: pt_ok_def pt_init_def stream_def)
  next
    fix s e s' assume "pt_ok s" "pt_step e s = Some (Inr s')"
    then show "pt_ok s'" by (auto dest: pt_step_ok)
  qed
  have "pt_step e s \<noteq> Some (Inl x)" for e x using pt_step_ok [OF ok, of e "Inl x"] by auto
  moreover have "pt_step Father s \<noteq> None" if "\<not> father_gone s" using that by (simp add: father_step_def)
  moreover have "pt_step Son s \<noteq> None" if "father_gone s" "\<not> son_gone s" using that by (simp add: son_step_def Let_def)
  ultimately show ?thesis using ok pt_ok_done [OF ok] unfolding pt_ok_def by (metis add_leD2)
qed

text \<open>When the father is faster, messages are read together and most of their text is not printed.\<close>

definition father_first :: "pt_event list" where
  "father_first = replicate 11 Father @ replicate 11 Son"

lemma messages_are_lost:
  "\<exists>s. run_events pt_step father_first pt_init = Some s \<and> son_gone s \<and>
     shown s = map (\<lambda>p. drop p fmsg) [0, 1, 2, 3, 4]"
proof -
  have "map_option (\<lambda>s. (son_gone s, shown s)) (run_events pt_step father_first pt_init) =
      Some (True, map (\<lambda>p. drop p fmsg) [0, 1, 2, 3, 4])"
    by code_simp
  then show ?thesis by auto
qed

lemma pipe_messages_witness:
  "\<exists>s. pt_reach s \<and> son_gone s \<and> length (shown s) = 5 \<and> father_i s = 10"
proof -
  obtain s where s: "run_events pt_step father_first pt_init = Some s" "son_gone s"
      "shown s = map (\<lambda>p. drop p fmsg) [0, 1, 2, 3, 4]"
    using messages_are_lost by blast
  then have "pt_reach s" by (auto intro: pt.schedule_reach)
  with s show ?thesis using pipe_messages [of s] by (intro exI [of _ s]) simp
qed

section \<open>One message\<close>

text \<open>
  \<open>test_process\<close>. The events say which process goes on and whether its call succeeds; the lines that are printed are kept in
  their order, without the process numbers.
\<close>

datatype parent_pc = PStart | PFork | PHere | PWrite | PClose | PWait | PEnded

datatype child_pc = CUnborn | CHello | CRead | CClose | CEnded

datatype pr_line = PipeError | ForkError | ParentHere | ChildHere | Received string | ChildEnd | WriteError | ParentEnd

record pr_state =
  parent_pc :: parent_pc
  child_pc :: child_pc
  in_pipe :: string
  writer_open :: bool
  failed :: bool
  out :: "pr_line list"

definition pr_init :: pr_state where
  "pr_init = \<lparr>parent_pc = PStart, child_pc = CUnborn, in_pipe = [], writer_open = True, failed = False, out = []\<rparr>"

definition pr_print :: "pr_line \<Rightarrow> pr_state \<Rightarrow> pr_state" where
  "pr_print l s = s\<lparr>out := out s @ [l]\<rparr>"

datatype pr_event = Parent bool | Child bool

fun parent_step :: "bool \<Rightarrow> parent_pc \<Rightarrow> pr_state \<Rightarrow> pr_state option" where
  "parent_step ok PStart s = (if ok then Some (s\<lparr>parent_pc := PFork\<rparr>)
     else Some (pr_print PipeError (s\<lparr>parent_pc := PEnded, failed := True\<rparr>)))"
| "parent_step ok PFork s = (if ok then Some (s\<lparr>parent_pc := PHere, child_pc := CHello\<rparr>)
     else Some (pr_print ForkError (s\<lparr>parent_pc := PEnded, failed := True\<rparr>)))"
| "parent_step ok PHere s = Some (pr_print ParentHere (s\<lparr>parent_pc := PWrite\<rparr>))"
| "parent_step ok PWrite s = (if child_pc s = CEnded then Some (s\<lparr>parent_pc := PEnded, failed := True\<rparr>)
     else if ok then Some (s\<lparr>parent_pc := PClose, in_pipe := in_pipe s @ ''hello''\<rparr>)
     else Some (pr_print WriteError (s\<lparr>parent_pc := PClose, failed := True\<rparr>)))"
| "parent_step ok PClose s = Some (s\<lparr>parent_pc := PWait, writer_open := False\<rparr>)"
| "parent_step ok PWait s = (if child_pc s = CEnded then Some (pr_print ParentEnd (s\<lparr>parent_pc := PEnded\<rparr>)) else None)"
| "parent_step ok PEnded s = None"

text \<open>The array of the child has 64 characters and is cleared once; a read may fill it.\<close>

fun child_step :: "bool \<Rightarrow> child_pc \<Rightarrow> pr_state \<Rightarrow> pr_state res option" where
  "child_step ok CUnborn s = None"
| "child_step ok CHello s = Some (Inr (pr_print ChildHere (s\<lparr>child_pc := CRead\<rparr>)))"
| "child_step ok CRead s =
     (if \<not> ok then Some (Inr (s\<lparr>child_pc := CClose, failed := True\<rparr>))
      else if in_pipe s = [] then (if writer_open s then None else Some (Inr (s\<lparr>child_pc := CClose\<rparr>)))
      else let d = take 64 (in_pipe s) in
        Some (bindE (c_string (d @ replicate (64 - length d) NUL)) (\<lambda>l.
          Inr (pr_print (Received l) (s\<lparr>child_pc := CClose, in_pipe := drop 64 (in_pipe s)\<rparr>)))))"
| "child_step ok CClose s = Some (Inr (pr_print ChildEnd (s\<lparr>child_pc := CEnded\<rparr>)))"
| "child_step ok CEnded s = None"

fun pr_step :: "pr_event \<Rightarrow> pr_state \<Rightarrow> pr_state res option" where
  "pr_step (Parent ok) s = map_option Inr (parent_step ok (parent_pc s) s)"
| "pr_step (Child ok) s = child_step ok (child_pc s) s"

inductive pr_reach :: "pr_state \<Rightarrow> bool" where
  pr_start: "pr_reach pr_init"
| pr_next: "pr_reach s \<Longrightarrow> pr_step e s = Some (Inr s') \<Longrightarrow> pr_reach s'"

interpretation pr: step_system pr_step pr_reach pr_init
  by unfold_locales (auto intro: pr_reach.intros elim: pr_reach.induct)

text \<open>What the two processes have printed, and where the message is.\<close>

definition child_out :: "child_pc \<Rightarrow> bool \<Rightarrow> pr_line list" where
  "child_out c got = (if c = CUnborn \<or> c = CHello then [] else ChildHere # (if got then [Received ''hello''] else []) @
     (if c = CEnded then [ChildEnd] else []))"

definition early :: "parent_pc \<Rightarrow> bool" where
  "early p \<longleftrightarrow> p = PStart \<or> p = PFork \<or> p = PHere \<or> p = PWrite"

definition of_child :: "pr_line list \<Rightarrow> pr_line list" where
  "of_child ls = filter (\<lambda>l. l \<noteq> ParentHere \<and> l \<noteq> ParentEnd) ls"

text \<open>In all runs; and when no call has failed.\<close>

definition pr_ok :: "pr_state \<Rightarrow> bool" where
  "pr_ok s \<longleftrightarrow> (parent_pc s = PStart \<or> parent_pc s = PFork \<longrightarrow> child_pc s = CUnborn) \<and>
     (parent_pc s = PHere \<or> parent_pc s = PWrite \<or> parent_pc s = PClose \<or> parent_pc s = PWait \<longrightarrow> child_pc s \<noteq> CUnborn) \<and>
     (parent_pc s = PEnded \<longrightarrow> child_pc s = CUnborn \<or> child_pc s = CEnded) \<and>
     (in_pipe s = [] \<or> in_pipe s = ''hello'') \<and> (early (parent_pc s) \<longrightarrow> in_pipe s = [])"

definition pr_good :: "pr_state \<Rightarrow> bool" where
  "pr_good s \<longleftrightarrow> (writer_open s \<longleftrightarrow> parent_pc s \<noteq> PWait \<and> parent_pc s \<noteq> PEnded) \<and>
     (in_pipe s = ''hello'' \<longleftrightarrow> \<not> early (parent_pc s) \<and> (child_pc s = CHello \<or> child_pc s = CRead)) \<and>
     (early (parent_pc s) \<longrightarrow> child_pc s = CUnborn \<or> child_pc s = CHello \<or> child_pc s = CRead) \<and>
     (parent_pc s = PEnded \<longrightarrow> child_pc s = CEnded \<and> last (out s) = ParentEnd) \<and>
     of_child (out s) = child_out (child_pc s) (child_pc s = CClose \<or> child_pc s = CEnded)"

lemma hello_read: "c_string (''hello'' @ replicate 59 NUL) = Inr ''hello''"
  by (simp add: c_string_def takeWhile_append)

lemma parent_step_ok:
  "pr_ok s \<Longrightarrow> parent_step ok (parent_pc s) s = Some s' \<Longrightarrow> pr_ok s'"
  by (cases "parent_pc s"; cases "child_pc s"; cases ok; clarsimp simp: pr_ok_def pr_print_def early_def)

lemma parent_step_good:
  "pr_ok s \<Longrightarrow> pr_good s \<Longrightarrow> parent_step ok (parent_pc s) s = Some s' \<Longrightarrow> \<not> failed s' \<Longrightarrow> pr_good s'"
  by (cases "parent_pc s"; cases "child_pc s"; cases ok;
      clarsimp simp: pr_ok_def pr_good_def pr_print_def early_def child_out_def of_child_def)

lemma parent_step_failed: "parent_step ok p s = Some s' \<Longrightarrow> failed s \<Longrightarrow> failed s'"
  by (cases p; cases ok) (auto simp: pr_print_def split: if_splits)

lemma child_step_cases:
  assumes "pr_ok s" "child_step ok (child_pc s) s = Some r"
  shows "r = Inr (pr_print ChildHere (s\<lparr>child_pc := CRead\<rparr>)) \<and> child_pc s = CHello \<or>
    r = Inr (s\<lparr>child_pc := CClose, failed := True\<rparr>) \<and> child_pc s = CRead \<or>
    r = Inr (s\<lparr>child_pc := CClose\<rparr>) \<and> child_pc s = CRead \<and> in_pipe s = [] \<and> \<not> writer_open s \<or>
    r = Inr (pr_print (Received ''hello'') (s\<lparr>child_pc := CClose, in_pipe := []\<rparr>)) \<and> child_pc s = CRead \<and> in_pipe s = ''hello'' \<or>
    r = Inr (pr_print ChildEnd (s\<lparr>child_pc := CEnded\<rparr>)) \<and> child_pc s = CClose"
proof (cases "child_pc s = CRead \<and> in_pipe s = ''hello''")
  case True
  then show ?thesis using assms(2) hello_read by (simp split: if_splits)
next
  case False
  then have "child_pc s = CRead \<longrightarrow> in_pipe s = []" using assms(1) by (auto simp: pr_ok_def)
  then show ?thesis using assms(2) by (cases "child_pc s") (simp_all split: if_splits)
qed

lemma child_step_ok:
  assumes "pr_ok s" "child_step ok (child_pc s) s = Some r"
  shows "\<exists>s'. r = Inr s' \<and> pr_ok s' \<and> (failed s \<longrightarrow> failed s') \<and> (pr_good s \<and> \<not> failed s' \<longrightarrow> pr_good s')"
  using child_step_cases [OF assms]
proof (elim disjE conjE)
  assume "r = Inr (pr_print ChildHere (s\<lparr>child_pc := CRead\<rparr>))" "child_pc s = CHello"
  with assms(1) show ?thesis by (auto simp: pr_ok_def pr_good_def pr_print_def child_out_def of_child_def)
next
  assume "r = Inr (s\<lparr>child_pc := CClose, failed := True\<rparr>)" "child_pc s = CRead"
  with assms(1) show ?thesis by (auto simp: pr_ok_def)
next
  assume "r = Inr (s\<lparr>child_pc := CClose\<rparr>)" "child_pc s = CRead" "in_pipe s = []" "\<not> writer_open s"
  with assms(1) show ?thesis by (auto simp: pr_ok_def pr_good_def early_def)
next
  assume "r = Inr (pr_print (Received ''hello'') (s\<lparr>child_pc := CClose, in_pipe := []\<rparr>))" "child_pc s = CRead" "in_pipe s = ''hello''"
  with assms(1) show ?thesis by (auto simp: pr_ok_def pr_good_def pr_print_def child_out_def of_child_def)
next
  assume "r = Inr (pr_print ChildEnd (s\<lparr>child_pc := CEnded\<rparr>))" "child_pc s = CClose"
  with assms(1) show ?thesis by (auto simp: pr_ok_def pr_good_def pr_print_def child_out_def of_child_def)
qed

text \<open>
  The message of \<open>test_process\<close>. In every schedule in which no call fails, the child prints the message of the parent once,
  between its first and its last line, and the parent ends after the child; with failing calls the parent still
  waits for a child it started, and whatever fails, one of the two can go on until both have ended.
\<close>

theorem process_message:
  assumes "pr_reach s"
  shows "(\<forall>e x. pr_step e s \<noteq> Some (Inl x)) \<and>
    (parent_pc s = PEnded \<longrightarrow> child_pc s = CUnborn \<or> child_pc s = CEnded) \<and>
    (parent_pc s = PEnded \<and> \<not> failed s \<longrightarrow> last (out s) = ParentEnd \<and>
       of_child (out s) = [ChildHere, Received ''hello'', ChildEnd]) \<and>
    (parent_pc s = PEnded \<or> (\<exists>e. pr_step e s \<noteq> None))"
proof -
  have "pr_ok s \<and> (\<not> failed s \<longrightarrow> pr_good s)"
    using assms
  proof (rule pr.invariant)
    show "pr_ok pr_init \<and> (\<not> failed pr_init \<longrightarrow> pr_good pr_init)"
      by (simp add: pr_ok_def pr_good_def pr_init_def child_out_def of_child_def early_def)
  next
    fix s e s' assume I: "pr_ok s \<and> (\<not> failed s \<longrightarrow> pr_good s)" "pr_step e s = Some (Inr s')"
    show "pr_ok s' \<and> (\<not> failed s' \<longrightarrow> pr_good s')"
    proof (cases e)
      case (Parent ok)
      then have "parent_step ok (parent_pc s) s = Some s'" using I(2) by auto
      then show ?thesis using I(1) parent_step_ok parent_step_good parent_step_failed by blast
    next
      case (Child ok)
      then show ?thesis using I child_step_ok [of s ok "Inr s'"] by auto
    qed
  qed
  then have ok: "pr_ok s" and good: "\<not> failed s \<Longrightarrow> pr_good s" by blast+
  have "pr_step e s \<noteq> Some (Inl x)" for e x using child_step_ok [OF ok] by (cases e) auto
  moreover have "\<exists>e. pr_step e s \<noteq> None" if "parent_pc s \<noteq> PEnded"
  proof (cases "parent_pc s = PWait \<and> child_pc s \<noteq> CEnded")
    case True
    then have "child_step False (child_pc s) s \<noteq> None" using ok by (cases "child_pc s") (simp_all add: pr_ok_def)
    then show ?thesis by (intro exI [of _ "Child False"]) simp
  next
    case False
    then have "parent_step True (parent_pc s) s \<noteq> None" using that by (cases "parent_pc s") simp_all
    then show ?thesis by (intro exI [of _ "Parent True"]) simp
  qed
  moreover have "parent_pc s = PEnded \<longrightarrow> child_pc s = CUnborn \<or> child_pc s = CEnded" using ok by (simp add: pr_ok_def)
  moreover have "last (out s) = ParentEnd \<and> of_child (out s) = [ChildHere, Received ''hello'', ChildEnd]"
    if "parent_pc s = PEnded" "\<not> failed s"
    using good that by (simp add: pr_good_def child_out_def)
  ultimately show ?thesis by blast
qed

lemma process_message_witness:
  "\<exists>s. run_events pr_step (map Parent [True, True, True, True, True] @ map Child [True, True, True] @ [Parent True]) pr_init = Some s \<and>
     last (out s) = ParentEnd"
proof -
  let ?es = "map Parent [True, True, True, True, True] @ map Child [True, True, True] @ [Parent True]"
  have "map_option (\<lambda>s. (parent_pc s, failed s)) (run_events pr_step ?es pr_init) = Some (PEnded, False)" by code_simp
  then obtain s where s: "run_events pr_step ?es pr_init = Some s" "parent_pc s = PEnded" "\<not> failed s" by auto
  have "pr_reach s" using s(1) by (rule pr.schedule_reach)
  with s show ?thesis using process_message [of s] by (intro exI [of _ s]) simp
qed

end
