(* ===== verification/FileCopy.thy ===== *)
theory FileCopy
  imports Outcome Bytes
begin

text \<open>
  The comparison of two ways to copy a file, \<^verbatim>\<open>src/temp/file_test.cpp\<close>. The state is the files with their
  contents, the open descriptors with their offsets, and the number of mapped regions. The kernel is a
  parameter \<open>k\<close>: the \<open>i\<close>-th call fails when \<open>k i\<close> is negative; otherwise a \<open>write\<close> stores at most \<open>k i\<close>
  characters and a \<open>read\<close> returns at most \<open>k i\<close>, and at least one if there is one. \<open>Failed 0\<close> is \<open>exit(0)\<close>; messages
  on standard output and the measured times are left out.
\<close>

section \<open>Files\<close>

record world =
  files :: "string \<rightharpoonup> string"
  opened :: "int \<rightharpoonup> string \<times> nat"
  clock :: nat
  maps :: nat

definition tick :: "world \<Rightarrow> world" where "tick w = w\<lparr>clock := clock w + 1\<rparr>"

definition contents :: "world \<Rightarrow> string \<Rightarrow> string" where
  "contents w f = (case files w f of None \<Rightarrow> [] | Some s \<Rightarrow> s)"

text \<open>\<open>open\<close>, with \<open>O_CREAT | O_TRUNC\<close> or without.\<close>

definition w_open :: "(nat \<Rightarrow> int) \<Rightarrow> bool \<Rightarrow> string \<Rightarrow> world \<Rightarrow> int \<times> world" where
  "w_open k creat f w =
     (if k (clock w) < 0 \<or> \<not> creat \<and> files w f = None then (- 1, tick w)
      else let fd = int (clock w) + 3 in
        (fd, (tick w)\<lparr>files := if creat then (files w)(f \<mapsto> []) else files w, opened := (opened w)(fd \<mapsto> (f, 0))\<rparr>))"

definition w_close :: "int \<Rightarrow> world \<Rightarrow> world" where
  "w_close fd w = w\<lparr>opened := (opened w)(fd := None)\<rparr>"

definition w_read :: "(nat \<Rightarrow> int) \<Rightarrow> nat \<Rightarrow> int \<Rightarrow> world \<Rightarrow> int \<times> string \<times> world" where
  "w_read k n fd w = (case opened w fd of
     None \<Rightarrow> (- 1, [], tick w)
   | Some (f, p) \<Rightarrow>
       if k (clock w) < 0 then (- 1, [], tick w)
       else let d = take (min n (max 1 (nat (k (clock w))))) (drop p (contents w f)) in
         (int (length d), d, (tick w)\<lparr>opened := (opened w)(fd \<mapsto> (f, p + length d))\<rparr>))"

text \<open>The contents after characters are stored at an offset; a hole is filled with NULs.\<close>

definition put_at :: "string \<Rightarrow> nat \<Rightarrow> string \<Rightarrow> string" where
  "put_at s p d = take p (s @ replicate (p - length s) NUL) @ d @ drop (p + length d) s"

definition w_write :: "(nat \<Rightarrow> int) \<Rightarrow> int \<Rightarrow> string \<Rightarrow> world \<Rightarrow> int \<times> world" where
  "w_write k fd d w = (case opened w fd of
     None \<Rightarrow> (- 1, tick w)
   | Some (f, p) \<Rightarrow>
       if k (clock w) < 0 then (- 1, tick w)
       else let d' = take (nat (k (clock w))) d in
         (int (length d'), (tick w)\<lparr>files := (files w)(f \<mapsto> put_at (contents w f) p d'),
            opened := (opened w)(fd \<mapsto> (f, p + length d'))\<rparr>))"

datatype whence = SeekSet | SeekCur | SeekEnd

definition w_lseek :: "int \<Rightarrow> int \<Rightarrow> whence \<Rightarrow> world \<Rightarrow> int \<times> world" where
  "w_lseek fd off wh w = (case opened w fd of
     None \<Rightarrow> (- 1, w)
   | Some (f, p) \<Rightarrow>
       let q = off + (case wh of SeekSet \<Rightarrow> 0 | SeekCur \<Rightarrow> int p | SeekEnd \<Rightarrow> int (length (contents w f))) in
       if q < 0 then (- 1, w) else (q, w\<lparr>opened := (opened w)(fd \<mapsto> (f, nat q))\<rparr>))"

text \<open>\<open>mmap\<close> of a size, which as an unsigned number is too large when it is negative, and fails for 0.\<close>

definition w_mmap :: "(nat \<Rightarrow> int) \<Rightarrow> int \<Rightarrow> world \<Rightarrow> bool \<times> world" where
  "w_mmap k sz w = (if sz \<le> 0 \<or> k (clock w) < 0 then (False, tick w) else (True, (tick w)\<lparr>maps := maps w + 1\<rparr>))"

section \<open>The program\<close>

definition LINES :: nat where "LINES = 1000000"

definition orig_line :: "nat \<Rightarrow> string" where
  "orig_line i = show_nat i @ '':wzq test hhhhhhhhhhhhhhhhhhhhhhhhhhhhhhhhhhhhhhhhhhhhhhhhhhhhhhhhhhhhhhhhhhllh'' @ [newline]"

fun write_lines :: "(nat \<Rightarrow> int) \<Rightarrow> int \<Rightarrow> nat list \<Rightarrow> world \<Rightarrow> unit outcome \<times> world" where
  "write_lines k fd [] w = (Running (), w_close fd w)"
| "write_lines k fd (i # is) w =
     (case bindE (strcpy (replicate 1024 NUL) (orig_line i)) c_string of
        Inl e \<Rightarrow> (Crashed e, w)
      | Inr s \<Rightarrow> let (cnt, w1) = w_write k fd s w in
          if cnt \<noteq> int (length s) then (Failed 0, w1) else write_lines k fd is w1)"

definition create_orig_file :: "(nat \<Rightarrow> int) \<Rightarrow> world \<Rightarrow> unit outcome \<times> world" where
  "create_orig_file k w = (let (fd, w1) = w_open k True ''wzq.txt'' w in
     if fd < 0 then (Failed 0, w1) else write_lines k fd [0..<LINES] w1)"

text \<open>The loop of \<open>copy_file\<close>; \<open>None\<close> when \<open>n\<close> rounds were not enough.\<close>

fun copy_rounds :: "(nat \<Rightarrow> int) \<Rightarrow> nat \<Rightarrow> int \<Rightarrow> int \<Rightarrow> world \<Rightarrow> (unit outcome \<times> world) option" where
  "copy_rounds k 0 fd fd2 w = None"
| "copy_rounds k (Suc n) fd fd2 w = (let (cnt, buf, w1) = w_read k 1024 fd w in
     if 0 < cnt then
       let (cnt2, w2) = w_write k fd2 buf w1 in
       if cnt2 \<noteq> cnt then Some (Failed 0, w2) else copy_rounds k n fd fd2 w2
     else if cnt = 0 then Some (Running (), w_close fd (w_close fd2 w1))
     else Some (Failed 0, w1))"

definition copy_file :: "(nat \<Rightarrow> int) \<Rightarrow> nat \<Rightarrow> world \<Rightarrow> (unit outcome \<times> world) option" where
  "copy_file k n w = (let (fd, w1) = w_open k False ''wzq.txt'' w in
     if fd < 0 then Some (Failed 0, w1)
     else let (fd2, w2) = w_open k True ''wzq_new.txt'' w1 in
       if fd2 < 0 then Some (Failed 0, w2) else copy_rounds k n fd fd2 w2)"

function map_loop :: "(nat \<Rightarrow> int) \<Rightarrow> int \<Rightarrow> int \<Rightarrow> world \<Rightarrow> unit outcome \<times> world" where
  "map_loop k iLen off w =
     (let each = (if iLen - off > 4096 then 4096 else iLen - off) in
      if each = 0 then (Running (), w)
      else let (ok, w1) = w_mmap k each w in
        if \<not> ok then (Failed 0, w1)
        else let (ok2, w2) = w_mmap k each w1 in
          if \<not> ok2 then (Failed 0, w2)
          else if each < 4096 then (Running (), w2\<lparr>maps := maps w2 - 2\<rparr>)
          else map_loop k iLen (off + each) w2)"
  by pat_completeness auto

termination
  by (relation "measure (\<lambda>(k, iLen, off, w). nat (iLen - off))") (auto split: if_splits)

declare map_loop.simps [simp del]

text \<open>The length is an \<open>int\<close>; the contents are never copied, since the \<open>memcpy\<close> is commented out.\<close>

definition mmap_copy_file :: "(nat \<Rightarrow> int) \<Rightarrow> world \<Rightarrow> unit outcome \<times> world" where
  "mmap_copy_file k w = (let (fd, w1) = w_open k False ''wzq.txt'' w in
     if fd < 0 then (Failed 0, w1)
     else let (fd2, w2) = w_open k True ''wzq_mmap_new.txt'' w1 in
       if fd2 < 0 then (Failed 0, w2)
       else let (l, w3) = w_lseek fd 0 SeekEnd w2; iLen = to_i32 l in
         (case ck (iLen - 1) of
            Inl e \<Rightarrow> (Crashed e, w3)
          | Inr q \<Rightarrow>
              let (_, w4) = w_lseek fd2 q SeekCur w3;
                  (_, w5) = w_write k fd2 ''0'' w4;
                  (_, w6) = w_lseek fd 0 SeekSet w5;
                  (_, w7) = w_lseek fd2 0 SeekSet w6;
                  (r, w8) = map_loop k iLen 0 w7 in
              (case r of
                 Running _ \<Rightarrow> (Running (), w_close fd2 (w_close fd w8))
               | _ \<Rightarrow> (r, w8))))"

text \<open>\<open>exec_time\<close> has the result \<open>int\<close> and no \<open>return\<close>.\<close>

definition exec_time :: "unit outcome \<times> world \<Rightarrow> unit outcome \<times> world" where
  "exec_time r = (case fst r of Running _ \<Rightarrow> (Crashed MissingReturn, snd r) | _ \<Rightarrow> r)"

definition file_main :: "(nat \<Rightarrow> int) \<Rightarrow> nat \<Rightarrow> world \<Rightarrow> (unit outcome \<times> world) option" where
  "file_main k n w = map_option (\<lambda>r. case exec_time r of
     (Running _, w1) \<Rightarrow> exec_time (mmap_copy_file k w1)
   | r' \<Rightarrow> r') (copy_file k n w)"

section \<open>Copying by read and write\<close>

lemma put_at_end [simp]: "put_at s (length s) d = s @ d"
  by (simp add: put_at_def)

lemma put_at_take: "p \<le> length s \<Longrightarrow> put_at (take p s) p (take m (drop p s)) = take (p + m) s"
  by (simp add: put_at_def take_add min_def)

lemma put_at_take2:
  assumes "p \<le> length s"
  shows "put_at (take p s) p (take a (take b (drop p s))) = take (p + length (take a (take b (drop p s)))) s"
proof -
  have "take (length (take n xs)) xs = take n xs" for n and xs :: string by (cases "n \<le> length xs") simp_all
  then show ?thesis by (simp only: put_at_take [OF assms] take_take take_add)
qed

lemma copy_rounds_spec:
  assumes "opened w fd = Some (f, p)" "opened w fd2 = Some (g, p)" "f \<noteq> g" "fd \<noteq> fd2"
    and "files w f = Some s" "files w g = Some (take p s)" "p \<le> length s" "length s - p < n"
  shows "\<exists>r w'. copy_rounds k n fd fd2 w = Some (r, w') \<and> files w' f = Some s \<and>
    (r = Running () \<and> files w' g = Some s \<and> opened w' = (opened w)(fd := None, fd2 := None) \<or>
     r = Failed 0 \<and> (\<exists>m. files w' g = Some (take m s))) \<and>
    ((\<forall>i. 1024 \<le> k i) \<longrightarrow> r = Running ())"
  using assms
proof (induction n arbitrary: w p)
  case (Suc n)
  let ?c = "min 1024 (max 1 (nat (k (clock w))))"
  obtain d where d: "d = take ?c (drop p s)" by blast
  obtain d' where d': "d' = take (nat (k (Suc (clock w)))) d" by blast
  let ?w1 = "(tick w)\<lparr>opened := (opened w)(fd \<mapsto> (f, p + length d))\<rparr>"
  let ?w2 = "(tick ?w1)\<lparr>files := (files w)(g \<mapsto> put_at (take p s) p d'), opened := (opened ?w1)(fd2 \<mapsto> (g, p + length d'))\<rparr>"
  have stored: "put_at (take p s) p d' = take (p + length d') s"
    unfolding d' d using Suc.prems(7) by (rule put_at_take2)
  have bounds: "length d \<le> length s - p" "length d = 0 \<longleftrightarrow> p = length s" "length d \<le> 1024"
    using Suc.prems(7) by (auto simp: d min_def max_def)
  show ?case
  proof (cases "k (clock w) < 0 \<or> p = length s")
    case True
    have "\<not> (\<forall>i. 1024 \<le> k i)" if "k (clock w) < 0"
      using that by (auto simp: not_le intro: exI [of _ "clock w"])
    then show ?thesis
      using True Suc.prems by (auto simp: w_read_def contents_def Let_def w_close_def tick_def fun_upd_twist intro: exI [of _ p])
  next
    case False
    then have read: "w_read k 1024 fd w = (int (length d), d, ?w1)" and pos: "0 < length d"
      using Suc.prems(1,5) bounds by (simp_all add: w_read_def contents_def Let_def d)
    show ?thesis
    proof (cases "k (Suc (clock w)) < 0 \<or> length d' \<noteq> length d")
      case True
      have "\<not> (\<forall>i. 1024 \<le> k i)"
      proof
        assume "\<forall>i. 1024 \<le> k i"
        then have "1024 \<le> k (Suc (clock w))" by blast
        then show False using True bounds(3) by (auto simp: d')
      qed
      then show ?thesis
        using True pos stored Suc.prems(2-6)
        by (auto simp: read w_write_def contents_def tick_def Let_def simp flip: d' intro: exI [of _ p])
    next
      case False
      then have wrote: "w_write k fd2 d ?w1 = (int (length d'), ?w2)" and same: "length d' = length d"
        using Suc.prems(2,4,6) by (simp_all add: w_write_def tick_def contents_def Let_def d')
      then have less: "length s - (p + length d') < n"
        using Suc.prems(8) pos bounds(1) by linarith
      have "\<exists>r w'. copy_rounds k n fd fd2 ?w2 = Some (r, w') \<and> files w' f = Some s \<and>
        (r = Running () \<and> files w' g = Some s \<and> opened w' = (opened ?w2)(fd := None, fd2 := None) \<or>
         r = Failed 0 \<and> (\<exists>m. files w' g = Some (take m s))) \<and>
        ((\<forall>i. 1024 \<le> k i) \<longrightarrow> r = Running ())"
        using Suc.prems(1-7) stored less same bounds(1) by (intro Suc.IH [of ?w2 "p + length d'"]) auto
      then show ?thesis using pos same by (auto simp: read wrote fun_eq_iff)
    qed
  qed
qed simp

text \<open>
  C31: Copying by \<open>read\<close> and \<open>write\<close>. Enough rounds exist, and the original is never changed. When the program
  goes on, the new file is a copy and both descriptors are closed; when it exits after the new file was
  opened, that file is a prefix of the original. A kernel that reads and stores everything makes the copy.
\<close>

theorem copy_file_copies:
  assumes "files w ''wzq.txt'' = Some s" "opened w = Map.empty" "length s < n"
  shows "\<exists>r w'. copy_file k n w = Some (r, w') \<and> files w' ''wzq.txt'' = Some s \<and>
    (r = Running () \<and> files w' ''wzq_new.txt'' = Some s \<and> opened w' = Map.empty \<or>
     r = Failed 0 \<and> (files w' ''wzq_new.txt'' = files w ''wzq_new.txt'' \<or> (\<exists>m. files w' ''wzq_new.txt'' = Some (take m s)))) \<and>
    ((\<forall>i. 1024 \<le> k i) \<longrightarrow> r = Running ())"
proof (cases "k (clock w) < 0 \<or> k (clock w + 1) < 0")
  case True
  then have "\<not> (\<forall>i. 1024 \<le> k i)" by (auto simp: not_le intro: exI [of _ "clock w"] exI [of _ "clock w + 1"])
  with True assms show ?thesis by (auto simp: copy_file_def w_open_def tick_def Let_def)
next
  case False
  let ?fd = "int (clock w) + 3"
  let ?w = "(tick (tick w))\<lparr>files := (files w)(''wzq_new.txt'' \<mapsto> []), opened := [?fd \<mapsto> (''wzq.txt'', 0), ?fd + 1 \<mapsto> (''wzq_new.txt'', 0)]\<rparr>"
  have "copy_file k n w = copy_rounds k n ?fd (?fd + 1) ?w"
    using False assms(1,2) by (simp add: copy_file_def w_open_def tick_def Let_def)
  moreover have "\<exists>r w'. copy_rounds k n ?fd (?fd + 1) ?w = Some (r, w') \<and> files w' ''wzq.txt'' = Some s \<and>
    (r = Running () \<and> files w' ''wzq_new.txt'' = Some s \<and> opened w' = (opened ?w)(?fd := None, ?fd + 1 := None) \<or>
     r = Failed 0 \<and> (\<exists>m. files w' ''wzq_new.txt'' = Some (take m s))) \<and>
    ((\<forall>i. 1024 \<le> k i) \<longrightarrow> r = Running ())"
    using assms(1,3) by (intro copy_rounds_spec [where p = 0]) simp_all
  ultimately show ?thesis by auto
qed

definition demo_world :: world where
  "demo_world = \<lparr>files = [''wzq.txt'' \<mapsto> ''some text''], opened = Map.empty, clock = 0, maps = 0\<rparr>"

lemma copy_file_copies_witness:
  "\<exists>w'. copy_file (\<lambda>i. 2000) 10 demo_world = Some (Running (), w') \<and> files w' ''wzq_new.txt'' = Some ''some text''"
  using copy_file_copies [of demo_world "''some text''" 10 "\<lambda>i. 2000"] by (auto simp: demo_world_def)

section \<open>Copying by mmap\<close>

text \<open>The loop maps both files block by block, and unmaps only an incomplete last block.\<close>

lemma map_loop_spec:
  assumes "\<forall>i. 0 \<le> k i" "off \<le> iLen"
  shows "\<exists>w'. map_loop k iLen off w = (Running (), w') \<and> files w' = files w \<and> opened w' = opened w \<and>
    maps w' = maps w + 2 * nat ((iLen - off) div 4096)"
  using assms
proof (induction k iLen off w rule: map_loop.induct)
  case (1 k iLen off w)
  let ?w2 = "(tick (tick w))\<lparr>maps := maps w + 2\<rparr>"
  have mapped: "w_mmap k c w = (True, (tick w)\<lparr>maps := maps w + 1\<rparr>)" if "0 < c" for c w
    using that 1(2) by (simp add: w_mmap_def not_less)
  consider "iLen = off" | "0 < iLen - off" "iLen - off < 4096" | "4096 \<le> iLen - off" using 1(3) by linarith
  then show ?case
  proof cases
    case 1
    then show ?thesis by (simp add: map_loop.simps [of k off off])
  next
    case 2
    then have "map_loop k iLen off w = (Running (), ?w2\<lparr>maps := maps ?w2 - 2\<rparr>)"
      by (simp add: map_loop.simps [of k iLen off] mapped tick_def Let_def)
    with 2 show ?thesis by (simp add: tick_def)
  next
    case 3
    then have step: "map_loop k iLen off w = map_loop k iLen (off + 4096) ?w2"
      by (simp add: map_loop.simps [of k iLen off w] mapped tick_def Let_def)
    have "\<exists>w'. map_loop k iLen (off + 4096) ?w2 = (Running (), w') \<and> files w' = files ?w2 \<and> opened w' = opened ?w2 \<and>
      maps w' = maps ?w2 + 2 * nat ((iLen - (off + 4096)) div 4096)"
      using 3 1 mapped by (intro "1.IH") (auto simp: tick_def)
    moreover have "(iLen - off) div 4096 = (iLen - (off + 4096)) div 4096 + 1" by simp
    ultimately show ?thesis using 3 by (auto simp: step tick_def nat_add_distrib)
  qed
qed

text \<open>
  Copying by \<open>mmap\<close> copies nothing. When no call fails, the new file has the length of the original and consists of
  NULs before a single \<^verbatim>\<open>0\<close> at its end (of an empty file it is that character), and two regions stay
  mapped for every full block.
\<close>

theorem mmap_copy_copies_nothing:
  assumes "files w ''wzq.txt'' = Some s" "opened w = Map.empty" "\<forall>i. 1 \<le> k i" "int (length s) \<le> INT_MAX"
  shows "\<exists>w'. mmap_copy_file k w = (Running (), w') \<and> files w' ''wzq.txt'' = Some s \<and>
    files w' ''wzq_mmap_new.txt'' = Some (replicate (length s - 1) NUL @ ''0'') \<and>
    opened w' = Map.empty \<and> maps w' = maps w + 2 * (length s div 4096)"
proof -
  let ?l = "int (length s)"
  let ?fd = "int (clock w) + 3" and ?fd2 = "int (clock w) + 3 + 1"
  have k: "0 \<le> k i" "\<not> k i < 0" "nat (k i) \<noteq> 0" "0 < k i" for i using assms(3) [rule_format, of i] by auto
  have zero: "take (nat (k i)) ''0'' = ''0''" for i using k(3) [of i] by (cases "nat (k i)") simp_all
  have len: "to_i32 ?l = ?l" "ck (?l - 1) = Inr (?l - 1)"
    using assms(4) by (simp_all add: is_i32_def INT_MIN_def INT_MAX_def)
  let ?w7 = "(tick (tick (tick w)))\<lparr>files := (files w)(''wzq_mmap_new.txt'' \<mapsto> replicate (length s - 1) NUL @ ''0''),
    opened := [?fd \<mapsto> (''wzq.txt'', 0), ?fd2 \<mapsto> (''wzq_mmap_new.txt'', 0)]\<rparr>"
  obtain w8 where w8: "map_loop k ?l 0 ?w7 = (Running (), w8)" "files w8 = files ?w7" "opened w8 = opened ?w7"
      "maps w8 = maps ?w7 + 2 * nat (?l div 4096)"
    using map_loop_spec [of k 0 ?l ?w7] k by auto
  have "mmap_copy_file k w = (Running (), w_close ?fd2 (w_close ?fd w8))"
  proof (cases s)
    case Nil
    then show ?thesis
      using assms(1,2) k len zero w8(1)
      by (simp add: mmap_copy_file_def w_open_def w_lseek_def w_write_def tick_def contents_def put_at_def Let_def)
  next
    case (Cons c s')
    then show ?thesis
      using assms(1,2) k len zero w8(1)
      by (simp add: mmap_copy_file_def w_open_def w_lseek_def w_write_def tick_def contents_def put_at_def Let_def)
  qed
  moreover have "nat (?l div 4096) = length s div 4096" by (simp add: nat_div_distrib)
  ultimately show ?thesis using assms(1) w8(2-4) by (simp add: w_close_def tick_def)
qed

lemma mmap_copy_copies_nothing_witness:
  "\<exists>w'. mmap_copy_file (\<lambda>i. 2000) demo_world = (Running (), w') \<and>
     files w' ''wzq_mmap_new.txt'' = Some (replicate 8 NUL @ ''0'')"
proof -
  have "replicate 8 NUL = [NUL, NUL, NUL, NUL, NUL, NUL, NUL, NUL]" by (simp add: eval_nat_numeral)
  then show ?thesis
    using mmap_copy_copies_nothing [of demo_world "''some text''" "\<lambda>i. 2000"] by (auto simp: demo_world_def INT_MAX_def)
qed

text \<open>The program never ends in order: \<open>exec_time\<close> runs off its end after the first copy.\<close>

lemma file_main_never_returns: "file_main k n w = Some (r, w') \<Longrightarrow> r \<noteq> Running ()"
  by (auto simp: file_main_def exec_time_def split: outcome.splits prod.splits)

end
