(* ===== verification/Examples.thy ===== *)
theory Examples
  imports FileCopy
begin

text \<open>
  Small programs: the classes of \<^verbatim>\<open>src/wzq_study/test.cpp\<close> with the main program that calls their test, the random strings of \<^verbatim>\<open>src/temp/vector_test.cpp\<close>, \<^verbatim>\<open>src/temp/byte_align.cpp\<close>, and the network
  tools \<^verbatim>\<open>byteorder.cpp\<close>, \<^verbatim>\<open>gethost.cpp\<close>, \<^verbatim>\<open>addConvert.cpp\<close> and \<^verbatim>\<open>tee_splice.cpp\<close> of
  \<^verbatim>\<open>src/socket/network\<close>. What is printed is a list of lines.
\<close>

section \<open>Inheritance\<close>

text \<open>A call of a method that is not virtual depends on the type of the pointer, a virtual one on the class of the object.\<close>

datatype cls = FatherClass | MatherClass | ChildClass

text \<open>An object has the arrays of its base classes and its own; \<open>strncpy\<close> writes ten of the 32 characters.\<close>

record child =
  class_of :: cls
  father_name :: "char list"
  mather_name :: "char list"
  child_name :: "char list"

definition set_name :: "char list \<Rightarrow> string \<Rightarrow> char list res" where
  "set_name mem s = strncpy mem s 10"

definition Child_new :: "char list \<Rightarrow> char list \<Rightarrow> char list \<Rightarrow> string \<Rightarrow> string \<Rightarrow> string \<Rightarrow> child res" where
  "Child_new mem1 mem2 mem3 fname mname nm =
     bindE (set_name mem1 fname) (\<lambda>f. bindE (set_name mem2 mname) (\<lambda>m. bindE (set_name mem3 nm) (\<lambda>c.
       Inr \<lparr>class_of = ChildClass, father_name = f, mather_name = m, child_name = c\<rparr>)))"

definition Child_fun0 :: string where "Child_fun0 = ''this is Child.fun1''"

text \<open>\<open>fun1\<close> of a \<open>Child\<close> would be ambiguous.\<close>

fun fun1 :: "cls \<Rightarrow> string option" where
  "fun1 FatherClass = Some ''this is Father.fun1''"
| "fun1 MatherClass = Some ''this is Mather.fun1''"
| "fun1 ChildClass = None"

fun fun2 :: "cls \<Rightarrow> string" where
  "fun2 FatherClass = ''this is Father.fun2''"
| "fun2 MatherClass = ''this is Mather.fun2''"
| "fun2 ChildClass = ''this is Child.fun2''"

fun fun3_of :: "cls \<Rightarrow> string" where
  "fun3_of FatherClass = ''this is Father.fun3''"
| "fun3_of MatherClass = ''this is Mather.fun3''"
| "fun3_of ChildClass = ''this is Child.fun31''"

definition fun3 :: "child \<Rightarrow> string" where "fun3 c = fun3_of (class_of c)"

definition test :: "char list \<Rightarrow> char list \<Rightarrow> char list \<Rightarrow> string list res" where
  "test mem1 mem2 mem3 = bindE (Child_new mem1 mem2 mem3 ''wzq'' ''bhm'' ''whf'') (\<lambda>c.
     Inr ([Child_fun0, fun2 ChildClass, fun3 c, ''=====================================''] @
       (case fun1 FatherClass of None \<Rightarrow> [] | Some l \<Rightarrow> [l]) @ [fun2 FatherClass, fun3 c]))"

definition study_main :: "char list \<Rightarrow> char list \<Rightarrow> char list \<Rightarrow> string list res" where
  "study_main mem1 mem2 mem3 = bindE (test mem1 mem2 mem3) (\<lambda>ls. Inr (ls @ [''function main end!!!!!!!!!!'']))"

text \<open>A name can be read back if it is shorter than ten characters; otherwise it depends on what was in memory.\<close>

lemma set_name_short:
  assumes "length mem = 32" "NUL \<notin> set s" "length s < 10"
  shows "\<exists>b. set_name mem s = Inr b \<and> length b = 32 \<and> c_string b = Inr s"
proof -
  have "NUL \<in> set (replicate (10 - length s) NUL)" using assms(3) by simp
  then show ?thesis
    using assms by (auto simp: set_name_def strncpy_def c_string_def takeWhile_append)
qed

lemma set_name_long:
  assumes "length mem = 32" "NUL \<notin> set s" "10 \<le> length s" "NUL \<notin> set mem"
  shows "\<exists>b. set_name mem s = Inr b \<and> c_string b = Inl OutOfBounds"
  using assms by (auto simp: set_name_def strncpy_def c_string_def dest: in_set_takeD in_set_dropD)

lemma study_main_prints:
  assumes "length mem1 = 32" "length mem2 = 32" "length mem3 = 32"
  shows "study_main mem1 mem2 mem3 = Inr [''this is Child.fun1'', ''this is Child.fun2'', ''this is Child.fun31'',
    ''====================================='', ''this is Father.fun1'', ''this is Father.fun2'', ''this is Child.fun31'',
    ''function main end!!!!!!!!!!'']"
  using assms by (simp add: study_main_def test_def Child_new_def set_name_def strncpy_def fun3_def Child_fun0_def)

section \<open>Random strings\<close>

text \<open>\<open>r n\<close> is the value of the \<open>n\<close>-th call of \<open>rand\<close>; the array is static.\<close>

fun rand_chars :: "(nat \<Rightarrow> nat) \<Rightarrow> nat \<Rightarrow> nat \<Rightarrow> nat \<Rightarrow> char list \<Rightarrow> char list res" where
  "rand_chars r n i 0 temp = Inr temp"
| "rand_chars r n i (Suc m) temp =
     bindE (wr temp i (char_of (r n mod 26 + 97))) (rand_chars r (n + 1) (i + 1) m)"

definition vt_getRandStr :: "(nat \<Rightarrow> nat) \<Rightarrow> nat \<Rightarrow> int \<Rightarrow> char list \<Rightarrow> (char list \<times> nat) res" where
  "vt_getRandStr r n len temp =
     bindE (rand_chars r (n + 1) 0 (nat (len - 1)) temp) (\<lambda>t.
     bindE (if len \<le> 0 then Inl OutOfBounds else wr t (nat (len - 1)) NUL) (\<lambda>t'.
     Inr (t', n + 1 + nat (len - 1))))"

fun rand_lines :: "(nat \<Rightarrow> nat) \<Rightarrow> nat \<Rightarrow> nat \<Rightarrow> char list \<Rightarrow> string list res" where
  "rand_lines r n 0 temp = Inr []"
| "rand_lines r n (Suc c) temp =
     bindE (vt_getRandStr r n 10 temp) (\<lambda>(t, n').
     bindE (c_string t) (\<lambda>s.
     bindE (bindE (strcpy (replicate 100 NUL) s) c_string) (\<lambda>l.
     bindE (rand_lines r n' c t) (\<lambda>ls. Inr (l # ls)))))"

definition vector_main :: "(nat \<Rightarrow> nat) \<Rightarrow> string list res" where
  "vector_main r = rand_lines r 0 10 (replicate 128 NUL)"

definition lower :: "char \<Rightarrow> bool" where
  "lower c \<longleftrightarrow> 97 \<le> (of_char c :: nat) \<and> (of_char c :: nat) \<le> 122"

lemma c_string_end: "NUL \<notin> set s \<Longrightarrow> c_string (s @ NUL # x) = Inr s"
  by (simp add: c_string_def takeWhile_append)

lemma lower_rand: "lower (char_of (x mod 26 + 97 :: nat))"
proof -
  have "x mod 26 < 26" by simp
  then have "x mod 26 + 97 < 256" by linarith
  then show ?thesis using \<open>x mod 26 < 26\<close> by (simp add: lower_def of_char_of)
qed

lemma rand_chars_eq:
  "rand_chars r n i m temp =
     (if i + m \<le> length temp \<or> m = 0
      then Inr (take i temp @ map (\<lambda>j. char_of (r (n + j) mod 26 + 97)) [0..<m] @ drop (i + m) temp)
      else Inl OutOfBounds)"
proof (induction m arbitrary: n i temp)
  case (Suc m)
  show ?case
  proof (cases "i < length temp")
    case True
    have shift: "map (\<lambda>j. char_of (r (n + j) mod 26 + 97)) [0..<Suc m] =
        char_of (r n mod 26 + 97) # map (\<lambda>j. char_of (r (n + 1 + j) mod 26 + 97)) [0..<m]"
      by (simp add: upt_conv_Cons map_Suc_upt [symmetric] del: upt_Suc)
    show ?thesis using True unfolding shift by (auto simp: Suc take_Suc_conv_app_nth simp del: upt_Suc)
  qed simp
qed simp

text \<open>
  Random strings. For a length from 1 to 128 the result is a string of that length less one, of
  small letters; any other length makes \<open>getRandStr\<close> write outside its array.
\<close>

theorem getRandStr_spec:
  assumes "length temp = 128"
  shows "if 1 \<le> len \<and> len \<le> 128
    then \<exists>t s. vt_getRandStr r n len temp = Inr (t, n + nat len) \<and> length t = 128 \<and> c_string t = Inr s \<and>
      int (length s) = len - 1 \<and> (\<forall>c\<in>set s. lower c)
    else vt_getRandStr r n len temp = Inl OutOfBounds"
proof (cases "1 \<le> len \<and> len \<le> 128")
  case True
  let ?m = "nat (len - 1)"
  let ?s = "map (\<lambda>j. char_of (r (n + 1 + j) mod 26 + 97)) [0..<?m]"
  have m: "?m < 128" "Suc ?m \<le> 128" "n + 1 + ?m = n + nat len" using True by auto
  have low: "\<forall>c\<in>set ?s. lower c" by (auto simp: lower_rand)
  moreover have "\<not> lower NUL" by (simp add: lower_def)
  ultimately have "NUL \<notin> set ?s" by blast
  then have ends: "c_string (?s @ NUL # drop (Suc ?m) temp) = Inr ?s" by (rule c_string_end)
  have "vt_getRandStr r n len temp = Inr (?s @ NUL # drop (Suc ?m) temp, n + nat len)"
    using True m assms by (simp add: vt_getRandStr_def rand_chars_eq list_update_append Cons_nth_drop_Suc [symmetric])
  moreover have "length (?s @ NUL # drop (Suc ?m) temp) = 128" using m assms by simp
  moreover have "int (length ?s) = len - 1" using True by simp
  ultimately show ?thesis using True low ends by (simp only: if_True simp_thms) blast
next
  case False
  then show ?thesis using assms by (auto simp: vt_getRandStr_def rand_chars_eq)
qed

section \<open>Layout\<close>

text \<open>
  \<^verbatim>\<open>byte_align.cpp\<close>: a member of \<open>n\<close> bytes is aligned to \<open>n\<close>, or to the packing if that is less, and the
  size of the structure to its strictest member. \<^verbatim>\<open>byteorder.cpp\<close>: the bytes of a \<open>short\<close>, the lowest first.
\<close>

definition align_up :: "nat \<Rightarrow> nat \<Rightarrow> nat" where
  "align_up n a = (n + a - 1) div a * a"

fun place :: "nat \<Rightarrow> nat \<Rightarrow> nat list \<Rightarrow> nat" where
  "place pack off [] = off"
| "place pack off (m # ms) = place pack (align_up off (min pack m) + m) ms"

definition struct_size :: "nat \<Rightarrow> nat list \<Rightarrow> nat" where
  "struct_size pack ms = align_up (place pack 0 ms) (min pack (fold max ms 1))"

definition layouts :: "(string \<times> nat \<times> nat list) list" where
  "layouts = [(''A'', 8, [4, 1, 2]), (''B'', 8, [1, 4, 2]), (''C'', 2, [1, 4, 2]), (''D'', 1, [4, 1, 2])]"

definition byte_align_main :: "string list" where
  "byte_align_main = (''sizeof(int)='' @ show_nat 4) #
     map (\<lambda>(nm, pack, ms). ''sizeof('' @ nm @ '')='' @ show_nat (struct_size pack ms)) layouts"

definition byteorder_main :: "int \<Rightarrow> string" where
  "byteorder_main v = show_int ((v mod 256 + 128) mod 256 - 128) @ '','' @ show_int ((v div 256 + 128) mod 256 - 128)"

lemma byte_align_sizes: "map (\<lambda>(nm, pack, ms). struct_size pack ms) layouts = [8, 12, 8, 7]"
  by code_simp

lemma byteorder_prints: "byteorder_main 0x0102 = ''2,1''"
  by code_simp

text \<open>No structure is smaller than its members, and its size is a multiple of its alignment.\<close>

lemma align_up_ge: "0 < a \<Longrightarrow> n \<le> align_up n a"
proof -
  assume "0 < a"
  have "(n + a - 1) div a * a + (n + a - 1) mod a = n + a - 1" by (rule div_mult_mod_eq)
  moreover have "(n + a - 1) mod a < a" using \<open>0 < a\<close> by simp
  ultimately show ?thesis unfolding align_up_def by linarith
qed

lemma place_ge: "0 < pack \<Longrightarrow> \<forall>m\<in>set ms. 0 < m \<Longrightarrow> off + sum_list ms \<le> place pack off ms"
proof (induction ms arbitrary: off)
  case (Cons m ms)
  then have "off \<le> align_up off (min pack m)" by (intro align_up_ge) simp
  moreover have "align_up off (min pack m) + m + sum_list ms \<le> place pack (align_up off (min pack m) + m) ms"
    using Cons by simp
  ultimately show ?case by simp
qed simp

lemma struct_size_ge:
  assumes "0 < pack" "\<forall>m\<in>set ms. 0 < m"
  shows "sum_list ms \<le> struct_size pack ms \<and> min pack (fold max ms 1) dvd struct_size pack ms"
proof -
  have "x \<le> fold max ms x" for x :: nat
    by (induction ms arbitrary: x) (auto intro: order_trans [OF max.cobounded2])
  then have "1 \<le> fold max ms 1" .
  then have "place pack 0 ms \<le> struct_size pack ms"
    unfolding struct_size_def using assms(1) by (intro align_up_ge) simp
  then show ?thesis using place_ge [OF assms, of 0] by (simp add: struct_size_def align_up_def)
qed

section \<open>Network tools\<close>

text \<open>
  \<^verbatim>\<open>gethost.cpp\<close>: the library's lookups are parameters that give the name and the first address of a host; \<open>Failed\<close> is
  the exit status.
\<close>

definition gethost_lines :: "(string \<times> string) option \<Rightarrow> string list outcome" where
  "gethost_lines h = (case h of
     None \<Rightarrow> Crashed NullDeref
   | Some (nm, addr) \<Rightarrow> Running [''h_name['' @ nm @ '']'', ''h_addr_list['' @ addr @ '']''])"

definition gethost_main :: "(string \<Rightarrow> (string \<times> string) option) \<Rightarrow> (char list \<Rightarrow> (string \<times> string) option) \<Rightarrow> string list \<Rightarrow> string list outcome" where
  "gethost_main by_name by_addr args = (case args of
     a # b # _ \<Rightarrow>
       (case atoi a of
          Inl e \<Rightarrow> Crashed e
        | Inr n \<Rightarrow>
            if n = 0 then
              (case bindE (strcpy (replicate 32 NUL) b) c_string of
                 Inl e \<Rightarrow> Crashed e | Inr hostname \<Rightarrow> gethost_lines (by_name hostname))
            else
              (case strcpy (replicate 16 NUL) b of
                 Inl e \<Rightarrow> Crashed e | Inr ipaddr \<Rightarrow> gethost_lines (by_addr ipaddr)))
   | _ \<Rightarrow> Failed (- 1))"

text \<open>A host that is looked up by its name is printed exactly when the name fits and is known.\<close>

lemma gethost_by_name:
  assumes "NUL \<notin> set b"
  shows "gethost_main by_name by_addr (''0'' # b # rest) =
    (if 32 \<le> length b then Crashed OutOfBounds else gethost_lines (by_name b))"
proof -
  have "atoi ''0'' = Inr 0" by code_simp
  then show ?thesis using assms by (simp add: gethost_main_def strcpy_def c_string_def takeWhile_append)
qed

text \<open>\<^verbatim>\<open>addConvert.cpp\<close>: an address that \<open>inet_aton\<close> refuses is printed uninitialised.\<close>

definition addConvert_main :: "(string \<Rightarrow> nat) \<Rightarrow> (string \<Rightarrow> nat option) \<Rightarrow> (nat \<Rightarrow> string) \<Rightarrow> string list \<Rightarrow> string list outcome" where
  "addConvert_main inet_addr inet_aton inet_ntoa args = (case args of
     [] \<Rightarrow> Failed (- 1)
   | a # _ \<Rightarrow>
       (case bindE (strncpy (replicate 32 NUL) a 31) c_string of
          Inl e \<Rightarrow> Crashed e
        | Inr add \<Rightarrow> (case inet_aton add of
            None \<Rightarrow> Crashed Uninitialised
          | Some x \<Rightarrow> (case bindE (strcpy (replicate 32 NUL) (inet_ntoa x)) c_string of
              Inl e \<Rightarrow> Crashed e
            | Inr add' \<Rightarrow> Running [''src add['' @ add @ '']'', ''add_t['' @ show_nat (inet_addr add) @ '']'',
                ''addin['' @ show_nat x @ '']'', ''src add['' @ add' @ '']'']))))"

lemma addConvert_roundtrip:
  assumes "NUL \<notin> set a" "length a < 32" "inet_aton a = Some x" "inet_ntoa x = a"
  shows "addConvert_main inet_addr inet_aton inet_ntoa [a] = Running [''src add['' @ a @ '']'',
    ''add_t['' @ show_nat (inet_addr a) @ '']'', ''addin['' @ show_nat x @ '']'', ''src add['' @ a @ '']'']"
proof -
  have "a @ replicate (31 - length a) NUL @ drop 31 (replicate 32 NUL) = a @ NUL # replicate (31 - length a) NUL"
    by (simp add: replicate_append_same)
  moreover have "take 31 (a @ replicate 31 NUL) = a @ replicate (31 - length a) NUL" using assms(2) by simp
  ultimately show ?thesis
    using assms by (simp add: addConvert_main_def strncpy_def strcpy_def c_string_def takeWhile_append)
qed

text \<open>
  \<^verbatim>\<open>tee_splice.cpp\<close> with a kernel \<open>k\<close> as for FileCopy: what moves from the input to a pipe, is copied to
  a second pipe, and then moves to the file and to the standard output. A failed assertion ends the program
  with status 134. \<open>None\<close> is waiting for ever.
\<close>

definition moved :: "(nat \<Rightarrow> int) \<Rightarrow> nat \<Rightarrow> string \<Rightarrow> string option" where
  "moved k i d = (if k i < 0 then None else Some (take (min 32768 (max 1 (nat (k i)))) d))"

text \<open>The file (emptied, if it could be opened) and the output, and how the program ends.\<close>

definition tee_main :: "(nat \<Rightarrow> int) \<Rightarrow> string list \<Rightarrow> string \<Rightarrow> string option \<times> string \<times> unit outcome" where
  "tee_main k args input =
     (if args = [] then (None, [], Failed (- 1))
      else if k 0 < 0 then (None, [], Failed 134)
      else if k 1 < 0 \<or> k 2 < 0 then (Some [], [], Failed 134)
      else (case moved k 3 input of
          None \<Rightarrow> (Some [], [], Failed 134)
        | Some p \<Rightarrow>
            (case (if p = [] then None else moved k 4 p) of
               None \<Rightarrow> (Some [], [], Failed 134)
             | Some q \<Rightarrow> (case moved k 5 q of
                 None \<Rightarrow> (Some [], [], Failed 134)
               | Some f \<Rightarrow> (case moved k 6 p of
                   None \<Rightarrow> (Some f, [], Failed 134)
                 | Some o' \<Rightarrow> (Some f, o', Running ()))))))"

text \<open>
  The tee. When the program ends in order, the file and the output are beginnings of the input that are not empty; with
  a kernel that moves everything they are the whole input if it is not longer than 32768 characters. With an empty
  input the program aborts.
\<close>

theorem tee_copies_input:
  assumes "args \<noteq> []" "tee_main k args input = (f, o', r)"
  shows "(r = Running () \<longrightarrow> o' \<noteq> [] \<and> prefix o' input \<and> (\<exists>g. f = Some g \<and> g \<noteq> [] \<and> prefix g input)) \<and>
    ((\<forall>i. 32768 \<le> k i) \<and> input \<noteq> [] \<longrightarrow> r = Running () \<and> f = Some (take 32768 input) \<and> o' = take 32768 input) \<and>
    (input = [] \<longrightarrow> r = Failed 134)"
proof -
  have pre: "moved k i d = Some d' \<Longrightarrow> prefix d' d" for i d d' by (auto simp: moved_def take_is_prefix split: if_splits)
  have ne: "moved k i d = Some d' \<Longrightarrow> d \<noteq> [] \<Longrightarrow> d' \<noteq> []" for i d d' by (auto simp: moved_def split: if_splits)
  have ordered: "o' \<noteq> [] \<and> prefix o' input \<and> (\<exists>g. f = Some g \<and> g \<noteq> [] \<and> prefix g input)" if run: "r = Running ()"
  proof -
    obtain p q g where "moved k 3 input = Some p" "p \<noteq> []" "moved k 4 p = Some q" "moved k 5 q = Some g" "f = Some g" "moved k 6 p = Some o'"
      using assms run by (auto simp: tee_main_def split: if_splits option.splits) metis
    then show ?thesis by (metis pre ne prefix_order.trans)
  qed
  moreover have "r = Running () \<and> f = Some (take 32768 input) \<and> o' = take 32768 input" if all: "\<forall>i. 32768 \<le> k i" "input \<noteq> []"
  proof -
    have "\<not> k i < 0" "32768 \<le> nat (k i)" for i using all(1) [rule_format, of i] by auto
    then have "\<not> k i < 0" "moved k i d = Some (take 32768 d)" for i d by (simp_all add: moved_def min_absorb1 le_max_iff_disj)
    then show ?thesis using assms all(2) by (auto simp: tee_main_def)
  qed
  moreover have "r = Failed 134" if "input = []"
    using assms that by (auto simp: tee_main_def moved_def split: if_splits)
  ultimately show ?thesis by blast
qed

end
