(* ===== verification/Regex.thy ===== *)
theory Regex
  imports CString
begin

text \<open>
  The examples of \<^verbatim>\<open>src/wzq_study/regex_stduy.h\<close>, with what they use of \<open>std::regex\<close>: the
  syntax of the patterns, \<open>regex_match\<close>, \<open>regex_search\<close>, \<open>smatch\<close> and \<open>regex_replace\<close>. A pattern is a list of
  atoms, a match is the text of each atom. The matcher backtracks and takes as much as it can; it is proved to
  return the first match in that order. What is printed is a list of lines.
\<close>

section \<open>Patterns\<close>

datatype char_class = AnyChar | Lit char | Range char char

datatype atom = Single char_class | Many char_class | Open | Close

text \<open>A dot matches no line terminator.\<close>

fun in_class :: "char_class \<Rightarrow> char \<Rightarrow> bool" where
  "in_class AnyChar x = (x \<noteq> CHR 0x0A \<and> x \<noteq> CHR 0x0D)"
| "in_class (Lit c) x = (x = c)"
| "in_class (Range a b) x = (a \<le> x \<and> x \<le> b)"

text \<open>A class at the beginning of a pattern, and the rest; operators that the source does not use are refused.\<close>

fun class_at :: "string \<Rightarrow> (char_class \<times> string) option" where
  "class_at [] = None"
| "class_at (c # p) =
     (if c = CHR ''.'' then Some (AnyChar, p)
      else if c = CHR 0x5C then
        (case p of d # q \<Rightarrow> Some (if d = CHR ''d'' then Range (CHR ''0'') (CHR ''9'') else Lit d, q) | [] \<Rightarrow> None)
      else if c = CHR ''['' then
        (case p of a # m # b # e # q \<Rightarrow> if m = CHR ''-'' \<and> e = CHR '']'' then Some (Range a b, q) else None | _ \<Rightarrow> None)
      else if c \<in> set ''*+?^$|{}'' then None
      else Some (Lit c, p))"

declare class_at.simps(2) [simp del]

lemma class_at_shorter: "class_at p = Some (c, q) \<Longrightarrow> length q < length p"
  by (cases p) (auto simp: class_at.simps split: if_splits list.splits)

text \<open>The atoms of a pattern; a malformed one is an exception. The number counts the open groups.\<close>

function atoms :: "nat \<Rightarrow> string \<Rightarrow> atom list res" where
  "atoms d p = (case p of
     [] \<Rightarrow> if d = 0 then Inr [] else Inl Uncaught
   | c # p' \<Rightarrow>
       if c = CHR ''('' then bindE (atoms (d + 1) p') (\<lambda>as. Inr (Open # as))
       else if c = CHR '')'' then (if d = 0 then Inl Uncaught else bindE (atoms (d - 1) p') (\<lambda>as. Inr (Close # as)))
       else (case class_at p of
           None \<Rightarrow> Inl Uncaught
         | Some (k, q) \<Rightarrow> (case q of
             [] \<Rightarrow> bindE (atoms d q) (\<lambda>as. Inr (Single k # as))
           | m # q' \<Rightarrow>
               if m = CHR ''*'' then bindE (atoms d q') (\<lambda>as. Inr (Many k # as))
               else if m = CHR ''+'' then bindE (atoms d q') (\<lambda>as. Inr (Single k # Many k # as))
               else bindE (atoms d q) (\<lambda>as. Inr (Single k # as)))))"
  by pat_completeness auto

termination
  by (relation "measure (\<lambda>(d, p). length p)") (auto dest!: class_at_shorter)

declare atoms.simps [simp del]

section \<open>Matching\<close>

text \<open>The text of every atom, when what is left satisfies \<open>ok\<close>: first with one more character, then with none.\<close>

function bt :: "(string \<Rightarrow> bool) \<Rightarrow> atom list \<Rightarrow> string \<Rightarrow> string list option" where
  "bt ok [] s = (if ok s then Some [] else None)"
| "bt ok (Open # as) s = map_option (Cons []) (bt ok as s)"
| "bt ok (Close # as) s = map_option (Cons []) (bt ok as s)"
| "bt ok (Single k # as) s = (case s of
     [] \<Rightarrow> None
   | x # xs \<Rightarrow> if in_class k x then map_option (Cons [x]) (bt ok as xs) else None)"
| "bt ok (Many k # as) s =
     (case (case s of [] \<Rightarrow> None | x # xs \<Rightarrow> if in_class k x then bt ok (Many k # as) xs else None) of
        Some segs \<Rightarrow> Some ((hd s # hd segs) # tl segs)
      | None \<Rightarrow> map_option (Cons []) (bt ok as s))"
  by pat_completeness auto

termination
  by (relation "measure (\<lambda>(ok, as, s). length as + length s)") auto

declare bt.simps(5) [simp del]

lemma bt_Many [simp]:
  "bt ok (Many k # as) [] = map_option (Cons []) (bt ok as [])"
  "bt ok (Many k # as) (x # xs) = (case (if in_class k x then bt ok (Many k # as) xs else None) of
     Some segs \<Rightarrow> Some ((x # hd segs) # tl segs)
   | None \<Rightarrow> map_option (Cons []) (bt ok as (x # xs)))"
  by (subst bt.simps(5), simp) (subst bt.simps(5), simp split: option.split)

text \<open>The text of a group: from behind its opening to its closing parenthesis.\<close>

fun group_text :: "nat \<Rightarrow> atom list \<Rightarrow> string list \<Rightarrow> string" where
  "group_text d (Open # as) (g # gs) = group_text (d + 1) as gs"
| "group_text d (Close # as) (g # gs) = (if d = 0 then [] else group_text (d - 1) as gs)"
| "group_text d (_ # as) (g # gs) = g @ group_text d as gs"
| "group_text d _ _ = []"

fun groups :: "atom list \<Rightarrow> string list \<Rightarrow> string list" where
  "groups (Open # as) (g # gs) = group_text 0 as gs # groups as gs"
| "groups (_ # as) (g # gs) = groups as gs"
| "groups _ _ = []"

record smatch =
  before :: string
  subs :: "string list"
  suffix_of :: string

definition regex_match :: "string \<Rightarrow> atom list \<Rightarrow> smatch option" where
  "regex_match s r = map_option (\<lambda>segs. \<lparr>before = [], subs = s # groups r segs, suffix_of = []\<rparr>) (bt (\<lambda>t. t = []) r s)"

fun search_from :: "string \<Rightarrow> string \<Rightarrow> atom list \<Rightarrow> smatch option" where
  "search_from pre s r = (case bt (\<lambda>_. True) r s of
     Some segs \<Rightarrow> Some \<lparr>before = pre, subs = concat segs # groups r segs, suffix_of = drop (length (concat segs)) s\<rparr>
   | None \<Rightarrow> (case s of [] \<Rightarrow> None | x # xs \<Rightarrow> search_from (pre @ [x]) xs r))"

declare search_from.simps [simp del]

definition regex_search :: "string \<Rightarrow> atom list \<Rightarrow> smatch option" where
  "regex_search s r = search_from [] s r"

text \<open>The loop that searches again in what is behind a match; \<open>None\<close> is not returning.\<close>

partial_function (option) search_loop :: "string \<Rightarrow> atom list \<Rightarrow> smatch list option" where
  [code]: "search_loop s r = (case regex_search s r of
     None \<Rightarrow> Some []
   | Some m \<Rightarrow> Option.bind (search_loop (suffix_of m) r) (\<lambda>ms. Some (m # ms)))"

text \<open>\<open>regex_replace\<close>, for a replacement without format characters.\<close>

definition regex_replace :: "string \<Rightarrow> atom list \<Rightarrow> string \<Rightarrow> string option" where
  "regex_replace s r by_text = map_option (\<lambda>ms. concat (map (\<lambda>m. before m @ by_text) ms) @
     (if ms = [] then s else suffix_of (last ms))) (search_loop s r)"

section \<open>The examples\<close>

definition show_bool :: "bool \<Rightarrow> string" where
  "show_bool b = (if b then ''1'' else ''0'')"

definition fnames :: "string list" where
  "fnames = [''foo.txt'', ''bar.txt'', ''baz.dat'', ''zoidberg'']"

definition test_regex_match :: "string list res" where
  "test_regex_match =
     bindE (atoms 0 ''.*txt'') (\<lambda>txt_regex.
     bindE (atoms 0 ''(.*)txt'') (\<lambda>base_regex.
       Inr (map (\<lambda>f. f @ '': '' @ show_bool (regex_match f txt_regex \<noteq> None)) fnames @
         concat (map (\<lambda>f. case regex_match f base_regex of
             None \<Rightarrow> []
           | Some m \<Rightarrow> if length (subs m) = 2 then [f @ '' has a base of '' @ subs m ! 1] else []) fnames))))"

definition tab_char :: char where "tab_char = CHR 0x09"

definition log_line :: "string \<Rightarrow> nat \<Rightarrow> string" where
  "log_line nm n = nm @ '':'' @ [tab_char] @ show_nat n"

text \<open>The escape \<^verbatim>\<open>\d\<close> in an ordinary string literal is the character \<^verbatim>\<open>d\<close>.\<close>

definition speed_pattern :: string where
  "speed_pattern = ''(Speed:'' @ [tab_char] @ ''d*)''"

definition test_regex_search :: "string \<Rightarrow> string list res option" where
  "test_regex_search log = (case atoms 0 speed_pattern of
     Inl e \<Rightarrow> Some (Inl e)
   | Inr r \<Rightarrow> map_option (\<lambda>ms. Inr (concat (map (\<lambda>m. [hd (subs m), before m]) ms))) (search_loop log r))"

definition test_regex_replace :: "string list res option" where
  "test_regex_replace = (case atoms 0 ''o'' of
     Inl e \<Rightarrow> Some (Inl e)
   | Inr r \<Rightarrow> Option.bind (regex_replace ''Quick brown fox'' r ''*'') (\<lambda>a.
       Option.bind (regex_replace ''Quick brown fox'' r '' '') (\<lambda>b. Some (Inr [a, b]))))"

definition sub_line :: "smatch \<Rightarrow> string" where
  "sub_line m = concat (map (\<lambda>t. t @ '' '') (subs m))"

definition test_regex :: "string list res option" where
  "test_regex = (case bindE (atoms 0 ''[0-9]+'') (\<lambda>num. bindE (atoms 0 ''(sub)(.*)'') (\<lambda>re. Inr (num, re))) of
     Inl e \<Rightarrow> Some (Inl e)
   | Inr (num, re) \<Rightarrow> map_option (\<lambda>ms. Inr
       (show_bool (regex_match ''123'' num \<noteq> None) #
        (case regex_match ''subject'' re of None \<Rightarrow> [] | Some m \<Rightarrow> sub_line m) #
        map sub_line ms))
       (search_loop ''!!!123!!!12333!!!890!!!'' num))"

section \<open>The matcher\<close>

text \<open>A match of a pattern: the text of every atom is of its kind.\<close>

fun seg_ok :: "atom list \<Rightarrow> string list \<Rightarrow> bool" where
  "seg_ok [] gs \<longleftrightarrow> gs = []"
| "seg_ok (Open # as) gs \<longleftrightarrow> gs \<noteq> [] \<and> hd gs = [] \<and> seg_ok as (tl gs)"
| "seg_ok (Close # as) gs \<longleftrightarrow> gs \<noteq> [] \<and> hd gs = [] \<and> seg_ok as (tl gs)"
| "seg_ok (Single k # as) gs \<longleftrightarrow> gs \<noteq> [] \<and> length (hd gs) = 1 \<and> list_all (in_class k) (hd gs) \<and> seg_ok as (tl gs)"
| "seg_ok (Many k # as) gs \<longleftrightarrow> gs \<noteq> [] \<and> list_all (in_class k) (hd gs) \<and> seg_ok as (tl gs)"

fun lex_le :: "nat list \<Rightarrow> nat list \<Rightarrow> bool" where
  "lex_le [] ys = True"
| "lex_le (x # xs) [] = False"
| "lex_le (x # xs) (y # ys) = (x < y \<or> x = y \<and> lex_le xs ys)"

lemma lex_le_refl [simp]: "lex_le xs xs"
  by (induction xs) auto

lemma bt_sound:
  "bt ok as s = Some gs \<Longrightarrow> seg_ok as gs \<and> (\<exists>t. s = concat gs @ t \<and> ok t)"
proof (induction ok as s arbitrary: gs rule: bt.induct)
  case (5 ok k as s)
  show ?case
  proof (cases s)
    case Nil
    then show ?thesis using 5 by auto
  next
    case (Cons x xs)
    show ?thesis
    proof (cases "in_class k x \<and> bt ok (Many k # as) xs \<noteq> None")
      case True
      then obtain segs where segs: "bt ok (Many k # as) xs = Some segs" by blast
      then have "seg_ok (Many k # as) segs \<and> (\<exists>t. xs = concat segs @ t \<and> ok t)" using 5(1) Cons True by simp
      then show ?thesis using 5(3) Cons True segs by (cases segs) auto
    next
      case False
      then have "map_option (Cons []) (bt ok as s) = Some gs" using 5(3) Cons by (auto split: option.splits if_splits)
      then show ?thesis using 5(2) Cons False by auto
    qed
  qed
qed (auto split: if_splits list.splits)

lemma bt_greedy:
  "seg_ok as gs \<Longrightarrow> s = concat gs @ t \<Longrightarrow> ok t \<Longrightarrow>
   \<exists>gs'. bt ok as s = Some gs' \<and> lex_le (map length gs) (map length gs')"
proof (induction ok as s arbitrary: gs rule: bt.induct)
  case (4 ok k as s)
  obtain x gs0 where gs: "gs = [x] # gs0" "in_class k x" "seg_ok as gs0"
    using 4(2) by (cases gs) (auto simp: length_Suc_conv)
  then show ?case using 4(1) [of x "concat gs0 @ t" gs0] 4(3,4) by auto
next
  case (5 ok k as s)
  obtain g gs0 where gs: "gs = g # gs0" "list_all (in_class k) g" "seg_ok as gs0"
    using 5(3) by (cases gs) auto
  show ?case
  proof (cases s)
    case Nil
    then have g: "g = []" "s = concat gs0 @ t" using 5(4) gs(1) by auto
    from 5(2) [OF _ gs(3) g(2) 5(5)] Nil
    have "\<exists>gs'. bt ok as [] = Some gs' \<and> lex_le (map length gs0) (map length gs')" by simp
    then show ?thesis by (auto simp: gs(1) g(1) Nil)
  next
    case (Cons x xs)
    have longer: "\<exists>gs'. bt ok (Many k # as) xs = Some gs' \<and> lex_le (map length (g' # gs0)) (map length gs')" if "g = x # g'" for g'
      using 5(1) [of x xs "g' # gs0"] 5(4,5) gs Cons that by simp
    have same: "g = [] \<or> (\<exists>g'. g = x # g')" using 5(4) gs(1) Cons by (cases g) auto
    show ?thesis
    proof (cases "in_class k x \<and> bt ok (Many k # as) xs \<noteq> None")
      case True
      then obtain segs where segs: "bt ok (Many k # as) xs = Some segs" by blast
      then obtain h hs where h: "segs = h # hs" using bt_sound by (cases segs) fastforce+
      then have "lex_le (map length gs) (map length ((x # h) # hs))"
        using same longer segs by (auto simp: gs(1))
      then show ?thesis using True Cons segs h by simp
    next
      case False
      then have g: "g = []" using same longer gs(2) by auto
      then have "s = concat gs0 @ t" using 5(4) gs(1) by simp
      moreover have none: "(if in_class k x then bt ok (Many k # as) xs else None) = None" using False by auto
      moreover from none have "(case s of [] \<Rightarrow> None | x # xs \<Rightarrow> if in_class k x then bt ok (Many k # as) xs else None) = None"
        using Cons by simp
      ultimately have "\<exists>gs'. bt ok as s = Some gs' \<and> lex_le (map length gs0) (map length gs')"
        by (intro 5(2) [OF _ gs(3) _ 5(5)])
      then show ?thesis by (auto simp: gs(1) g Cons none)
    qed
  qed
qed (simp, (fastforce simp: neq_Nil_conv)+)

text \<open>
  The matcher of the regular expressions. It finds a match exactly when there is one, and the match it finds takes
  as much as possible: the lengths of the texts of the atoms are the greatest in lexicographic
  order among all matches.
\<close>

theorem matcher_is_greedy:
  "case bt ok r s of
     Some gs \<Rightarrow> seg_ok r gs \<and> (\<exists>t. s = concat gs @ t \<and> ok t) \<and>
       (\<forall>gs' t. seg_ok r gs' \<and> s = concat gs' @ t \<and> ok t \<longrightarrow> lex_le (map length gs') (map length gs))
   | None \<Rightarrow> \<nexists>gs t. seg_ok r gs \<and> s = concat gs @ t \<and> ok t"
proof (cases "bt ok r s")
  case None
  then show ?thesis using bt_greedy [of r _ s _ ok] by fastforce
next
  case (Some gs)
  then show ?thesis using bt_sound [of ok r s gs] bt_greedy [of r _ s _ ok] by fastforce
qed

section \<open>Searching\<close>

text \<open>The first position at which the pattern matches.\<close>

lemma search_from_None: "search_from pre s r = None \<longleftrightarrow> (\<forall>i\<le>length s. bt (\<lambda>_. True) r (drop i s) = None)"
proof (induction s arbitrary: pre)
  case Nil
  then show ?case by (simp add: search_from.simps [of pre "[]"] split: option.split)
next
  case (Cons x xs)
  have "(\<forall>i\<le>length (x # xs). bt (\<lambda>_. True) r (drop i (x # xs)) = None) \<longleftrightarrow>
      bt (\<lambda>_. True) r (x # xs) = None \<and> (\<forall>i\<le>length xs. bt (\<lambda>_. True) r (drop i xs) = None)"
    by (simp add: All_less_Suc2 flip: less_Suc_eq_le)
  then show ?case using Cons by (simp add: search_from.simps [of pre "x # xs"] split: option.split)
qed

lemma search_from_Some:
  "search_from pre s r = Some m \<Longrightarrow>
   \<exists>i gs. i \<le> length s \<and> bt (\<lambda>_. True) r (drop i s) = Some gs \<and> (\<forall>j<i. bt (\<lambda>_. True) r (drop j s) = None) \<and>
     m = \<lparr>before = pre @ take i s, subs = concat gs # groups r gs, suffix_of = drop (i + length (concat gs)) s\<rparr>"
proof (induction s arbitrary: pre)
  case Nil
  then show ?case by (auto simp: search_from.simps [of pre "[]"] split: option.splits intro: exI [of _ 0])
next
  case (Cons x xs)
  show ?case
  proof (cases "bt (\<lambda>_. True) r (x # xs)")
    case None
    then have "search_from (pre @ [x]) xs r = Some m" using Cons.prems by (simp add: search_from.simps [of pre "x # xs"])
    then obtain i gs where i: "i \<le> length xs" "bt (\<lambda>_. True) r (drop i xs) = Some gs" "\<forall>j<i. bt (\<lambda>_. True) r (drop j xs) = None"
        "m = \<lparr>before = (pre @ [x]) @ take i xs, subs = concat gs # groups r gs, suffix_of = drop (i + length (concat gs)) xs\<rparr>"
      using Cons.IH by blast
    then have "\<forall>j<Suc i. bt (\<lambda>_. True) r (drop j (x # xs)) = None" using None by (auto simp: drop_Cons' less_Suc_eq_0_disj)
    with i show ?thesis by (intro exI [of _ "Suc i"] exI [of _ gs]) simp
  next
    case (Some gs)
    then show ?thesis using Cons.prems by (intro exI [of _ 0] exI [of _ gs]) (simp add: search_from.simps [of pre "x # xs"])
  qed
qed

text \<open>A pattern that matches the empty text.\<close>

definition nullable :: "atom list \<Rightarrow> bool" where
  "nullable r \<longleftrightarrow> bt (\<lambda>_. True) r [] \<noteq> None"

definition needs_no_char :: "atom \<Rightarrow> bool" where
  "needs_no_char a \<longleftrightarrow> (case a of Single _ \<Rightarrow> False | _ \<Rightarrow> True)"

lemma nullable_iff: "nullable r \<longleftrightarrow> list_all needs_no_char r"
proof -
  have "bt (\<lambda>_. True) r [] = None \<longleftrightarrow> \<not> list_all needs_no_char r"
    by (induction "\<lambda>_ :: string. True" r "[] :: string" rule: bt.induct) (auto simp: needs_no_char_def)
  then show ?thesis by (simp add: nullable_def)
qed

lemma nullable_matches:
  assumes "nullable r"
  shows "bt (\<lambda>_. True) r s \<noteq> None"
proof -
  have "list_all needs_no_char r \<Longrightarrow> seg_ok r (replicate (length r) [])" for r
  proof (induction r)
    case (Cons a r)
    then show ?case by (cases a) (simp_all add: needs_no_char_def)
  qed simp
  then have "seg_ok r (replicate (length r) [])" using assms by (simp add: nullable_iff)
  from bt_greedy [OF this, of s s "\<lambda>_. True"] show ?thesis by auto
qed

lemma not_nullable_progress: "\<not> nullable r \<Longrightarrow> bt (\<lambda>_. True) r s = Some gs \<Longrightarrow> concat gs \<noteq> []"
proof
  assume a: "\<not> nullable r" "bt (\<lambda>_. True) r s = Some gs" "concat gs = []"
  then have "seg_ok r gs" using bt_sound by blast
  with a(3) have "seg_ok r gs \<and> concat gs = []" by simp
  then have "list_all needs_no_char r"
    by (induction r gs rule: seg_ok.induct) (auto simp: needs_no_char_def neq_Nil_conv)
  with a(1) show False by (simp add: nullable_iff)
qed

lemma search_shorter:
  assumes "\<not> nullable r" "regex_search s r = Some m"
  shows "length (suffix_of m) < length s"
proof -
  obtain i gs where i: "i \<le> length s" "bt (\<lambda>_. True) r (drop i s) = Some gs"
      "m = \<lparr>before = [] @ take i s, subs = concat gs # groups r gs, suffix_of = drop (i + length (concat gs)) s\<rparr>"
    using search_from_Some [of "[]" s r m] assms(2) by (auto simp: regex_search_def)
  obtain t where t: "drop i s = concat gs @ t" using bt_sound [OF i(2)] by blast
  have "0 < length (concat gs)" using not_nullable_progress [OF assms(1) i(2)] by simp
  moreover have "length (concat gs) \<le> length s - i" using arg_cong [OF t, of length] by simp
  moreover have "length (suffix_of m) = length s - (i + length (concat gs))" by (simp add: i(3))
  ultimately show ?thesis using i(1) by linarith
qed

lemmas search_loop_induct = search_loop.raw_induct [rotated, consumes 1, case_names step]

lemma search_loop_never:
  assumes "nullable r"
  shows "search_loop s r = None"
proof -
  have "\<not> nullable r" if "search_loop s r = Some ms" for s r ms
    using that
  proof (induction rule: search_loop_induct)
    case (step loop s r ms)
    show ?case
    proof
      assume "nullable r"
      then have "regex_search s r \<noteq> None"
        using search_from_None [of "[]" s r] nullable_matches [of r s] by (force simp: regex_search_def)
      then show False using step \<open>nullable r\<close> by (auto split: option.splits Option.bind_splits)
    qed
  qed
  with assms show ?thesis by (cases "search_loop s r") blast+
qed

text \<open>
  The search loop returns if and only if the pattern does not match the empty text, that is, if some atom needs a
  character; and then it returns on every input.
\<close>

theorem search_loop_returns_iff: "(\<exists>ms. search_loop s r = Some ms) \<longleftrightarrow> \<not> list_all needs_no_char r"
proof
  assume "\<exists>ms. search_loop s r = Some ms"
  then show "\<not> list_all needs_no_char r" using search_loop_never by (force simp: nullable_iff)
next
  assume r: "\<not> list_all needs_no_char r"
  show "\<exists>ms. search_loop s r = Some ms"
  proof (induction s rule: length_induct)
    case (1 s)
    show ?case
    proof (cases "regex_search s r")
      case None
      then show ?thesis by (simp add: search_loop.simps [of s r])
    next
      case (Some m)
      then have "length (suffix_of m) < length s" using r by (intro search_shorter) (simp_all add: nullable_iff)
      then obtain ms where "search_loop (suffix_of m) r = Some ms" using 1 by blast
      then show ?thesis using Some by (simp add: search_loop.simps [of s r])
    qed
  qed
qed

section \<open>The digits of a text\<close>

text \<open>The maximal runs of characters with a property.\<close>

fun runs :: "(char \<Rightarrow> bool) \<Rightarrow> string \<Rightarrow> string list" where
  "runs d [] = []"
| "runs d (x # xs) =
     (if \<not> d x then runs d xs
      else if xs \<noteq> [] \<and> d (hd xs) then (x # hd (runs d xs)) # tl (runs d xs)
      else [x] # runs d xs)"

definition plus :: "char_class \<Rightarrow> atom list" where "plus k = [Single k, Many k]"

lemma bt_many: "bt (\<lambda>_. True) [Many k] s = Some [takeWhile (in_class k) s]"
  by (induction s) auto

lemma bt_plus:
  "bt (\<lambda>_. True) (plus k) s =
     (if s \<noteq> [] \<and> in_class k (hd s) then Some [[hd s], takeWhile (in_class k) (tl s)] else None)"
  by (cases s) (auto simp: plus_def bt_many)

lemma search_plus:
  "search_from pre s (plus k) = (let t = dropWhile (\<lambda>x. \<not> in_class k x) s in
     if t = [] then None
     else Some \<lparr>before = pre @ takeWhile (\<lambda>x. \<not> in_class k x) s, subs = [takeWhile (in_class k) t], suffix_of = dropWhile (in_class k) t\<rparr>)"
proof (induction s arbitrary: pre)
  case Nil
  then show ?case by (simp add: search_from.simps [of pre "[]"] bt_plus)
next
  case (Cons x xs)
  have "drop (Suc (length (takeWhile (in_class k) xs))) (x # xs) = dropWhile (in_class k) xs" by (simp add: dropWhile_eq_drop)
  then show ?case using Cons by (simp add: search_from.simps [of pre "x # xs"] bt_plus Let_def) (simp add: plus_def)
qed

lemma runs_skip: "runs d s = runs d (dropWhile (\<lambda>x. \<not> d x) s)"
  by (induction s) auto

lemma runs_take: "s \<noteq> [] \<Longrightarrow> d (hd s) \<Longrightarrow> runs d s = takeWhile d s # runs d (dropWhile d s)"
proof (induction s)
  case (Cons x xs)
  show ?case
  proof (cases "xs \<noteq> [] \<and> d (hd xs)")
    case True
    then show ?thesis using Cons by simp
  next
    case False
    then have "takeWhile d xs = []" "dropWhile d xs = xs" by (cases xs; simp)+
    then show ?thesis using Cons.prems False by auto
  qed
qed simp

text \<open>
  C39: Searching again and again for one or more characters of a class returns on every text and finds exactly the maximal
  runs of such characters, in their order.
\<close>

theorem search_loop_finds_runs:
  "\<exists>ms. search_loop s (plus k) = Some ms \<and> map subs ms = map (\<lambda>t. [t]) (runs (in_class k) s)"
proof (induction s rule: length_induct)
  case (1 s)
  let ?t = "dropWhile (\<lambda>x. \<not> in_class k x) s"
  show ?case
  proof (cases "?t = []")
    case True
    have "runs (in_class k) s = runs (in_class k) ?t" by (rule runs_skip)
    also have "\<dots> = []" by (simp only: True runs.simps)
    finally show ?thesis using True by (simp add: search_loop.simps [of s] regex_search_def search_plus)
  next
    case False
    then have hd: "in_class k (hd ?t)" using hd_dropWhile [OF False] by (simp only: not_not)
    obtain y ys where t: "?t = y # ys" using False by (meson neq_Nil_conv)
    have "length (dropWhile (in_class k) ys) \<le> length ys" by (rule length_dropWhile_le)
    then have "length (dropWhile (in_class k) ?t) < length ?t" using hd by (simp only: t) simp
    also have "\<dots> \<le> length s" by (rule length_dropWhile_le)
    finally obtain ms where "search_loop (dropWhile (in_class k) ?t) (plus k) = Some ms"
        "map subs ms = map (\<lambda>t. [t]) (runs (in_class k) (dropWhile (in_class k) ?t))"
      using 1 by blast
    moreover have "runs (in_class k) s = takeWhile (in_class k) ?t # runs (in_class k) (dropWhile (in_class k) ?t)"
      by (rule trans [OF runs_skip runs_take]) (rule False, rule hd)
    ultimately show ?thesis
      using False by (simp add: search_loop.simps [of s] regex_search_def search_plus Let_def)
  qed
qed

section \<open>What the examples print\<close>

lemma parsed:
  "atoms 0 ''[0-9]+'' = Inr (plus (Range (CHR ''0'') (CHR ''9'')))"
  "atoms 0 ''(sub)(.*)'' = Inr [Open, Single (Lit (CHR ''s'')), Single (Lit (CHR ''u'')), Single (Lit (CHR ''b'')), Close,
     Open, Many AnyChar, Close]"
  "atoms 0 ''.*txt'' = Inr [Many AnyChar, Single (Lit (CHR ''t'')), Single (Lit (CHR ''x'')), Single (Lit (CHR ''t''))]"
  "atoms 0 speed_pattern = Inr ([Open] @ map (\<lambda>c. Single (Lit c)) (''Speed:'' @ [tab_char]) @ [Many (Lit (CHR ''d'')), Close])"
  by code_simp+

lemma test_regex_match_prints:
  "test_regex_match = Inr [''foo.txt: 1'', ''bar.txt: 1'', ''baz.dat: 0'', ''zoidberg: 0'',
     ''foo.txt has a base of foo.'', ''bar.txt has a base of bar.'']"
  by code_simp

lemma test_regex_replace_prints: "test_regex_replace = Some (Inr [''Quick br*wn f*x'', ''Quick br wn f x''])"
  by code_simp

lemma test_regex_prints: "test_regex = Some (Inr [''1'', ''subject sub ject '', ''123 '', ''12333 '', ''890 ''])"
  by code_simp

text \<open>The search for the speeds finds every \<^verbatim>\<open>Speed:\<close> but never its number.\<close>

lemma speeds_are_not_found:
  "test_regex_search (concat (map (\<lambda>(nm, n). newline # replicate 8 (CHR '' '') @ log_line nm n)
       [(''Speed'', 366), (''Mass'', 35), (''Speed'', 378)])) =
   Some (Inr [''Speed:'' @ [tab_char], newline # replicate 8 (CHR '' ''),
     ''Speed:'' @ [tab_char], ''366'' @ [newline] @ replicate 8 (CHR '' '') @ log_line ''Mass'' 35 @ [newline] @ replicate 8 (CHR '' '')])"
  by code_simp

end
