(* ===== verification/Language.thy ===== *)
theory Language
  imports HeartBeat
begin

text \<open>
  The programs of \<^verbatim>\<open>src/temp\<close> on one feature of the language each: function objects, \<open>bind\<close> and lambda expressions,
  and the overloaded \<open>operator new\<close>. A function object is a function, what is printed is a
  list of lines. The helpers of \<^verbatim>\<open>src/wzq_study/common.h\<close> are copies of those of the monitor.
\<close>

section \<open>Function objects\<close>

type_synonym 'a fn = "int \<Rightarrow> 'a"

definition square :: "int res fn" where "square a = ck (a * a)"

definition CF_call :: "int res fn" where "CF_call a = bindE (ck (a * a)) (\<lambda>x. ck (x * a))"

definition CF_doub :: "int res fn" where "CF_doub a = ck (a * 2)"

definition print_int :: "int res \<Rightarrow> (string list \<Rightarrow> string list res) \<Rightarrow> string list res" where
  "print_int v k = bindE v (\<lambda>x. k [show_int x])"

definition function_main :: "string list res" where
  "function_main = print_int (square 4) (\<lambda>a. print_int (CF_call 3) (\<lambda>b. print_int (CF_doub 10) (\<lambda>c. Inr (a @ b @ c))))"

definition add_ints :: "int \<Rightarrow> int \<Rightarrow> int res" where "add_ints x y = ck (x + y)"

definition bind_main :: "string list res" where
  "bind_main = print_int (add_ints 10 20) (\<lambda>a. print_int (add_ints 10 20) (\<lambda>b. print_int (add_ints 10 20) (\<lambda>c. Inr (a @ b @ c))))"

text \<open>\<open>lambda_test.cpp\<close>: a lambda that is called in another one, one that returns another one, one that takes one.\<close>

definition nested :: "int res fn" where "nested x = bindE (CF_doub x) (\<lambda>y. ck (y + 3))"

definition lambda_test1 :: "string list res" where
  "lambda_test1 = print_int (add_ints 3 4) (\<lambda>a. print_int (add_ints 5 4) (\<lambda>b. print_int (nested 5) (\<lambda>c. print_int (add_ints 3 4) (\<lambda>d.
     Inr (a @ b @ c @ d)))))"

definition adder :: "int \<Rightarrow> int res fn" where "adder x = (\<lambda>y. ck (x + y))"

definition apply_plus1 :: "int res fn \<Rightarrow> int res fn" where "apply_plus1 f z = bindE (f z) (\<lambda>v. ck (v + 1))"

definition lambda_test2 :: "string list res" where
  "lambda_test2 = print_int (apply_plus1 (adder 7) 8) Inr"

fun for_each :: "'a res fn \<Rightarrow> int list \<Rightarrow> 'a list res" where
  "for_each f [] = Inr []"
| "for_each f (x # xs) = bindE (f x) (\<lambda>y. bindE (for_each f xs) (\<lambda>ys. Inr (y # ys)))"

definition show_all :: "int list \<Rightarrow> string" where
  "show_all xs = concat (map (\<lambda>i. CHR 0x09 # show_int i) xs)"

text \<open>The second loop squares every number in its place.\<close>

definition lambda_test3 :: "int list \<Rightarrow> string list res" where
  "lambda_test3 vec = bindE (for_each square vec) (\<lambda>vec'. Inr [show_all vec, show_all vec'])"

definition lambda_main :: "string list res" where
  "lambda_main = bindE lambda_test1 (\<lambda>a. bindE lambda_test2 (\<lambda>b. bindE (lambda_test3 [0..9]) (\<lambda>c. Inr (a @ b @ c))))"

lemma for_each_square:
  "for_each square xs =
     (if \<forall>x\<in>set xs. \<bar>x\<bar> \<le> 46340 then Inr (map (\<lambda>x. x * x) xs) else Inl Overflow)"
proof (induction xs)
  case (Cons x xs)
  have "is_i32 (x * x) \<longleftrightarrow> \<bar>x\<bar> \<le> 46340"
  proof
    assume "is_i32 (x * x)"
    show "\<bar>x\<bar> \<le> 46340"
    proof (rule ccontr)
      assume "\<not> \<bar>x\<bar> \<le> 46340"
      then have "46341 * 46341 \<le> \<bar>x\<bar> * \<bar>x\<bar>" by (intro mult_mono) simp_all
      with \<open>is_i32 (x * x)\<close> show False by (simp add: is_i32_def INT_MAX_def abs_mult_self_eq)
    qed
  next
    assume "\<bar>x\<bar> \<le> 46340"
    then have "\<bar>x\<bar> * \<bar>x\<bar> \<le> 46340 * 46340" by (intro mult_mono) simp_all
    then have "x * x \<le> 2147395600" by (simp add: abs_mult_self_eq)
    moreover have "0 \<le> x * x" by simp
    ultimately show "is_i32 (x * x)" unfolding is_i32_def INT_MIN_def INT_MAX_def by linarith
  qed
  then show ?case using Cons by (auto simp: square_def ck_def)
qed simp

lemma language_mains:
  "function_main = Inr [''16'', ''27'', ''20'']"
  "bind_main = Inr [''30'', ''30'', ''30'']"
  "bindE lambda_test1 (\<lambda>a. bindE lambda_test2 (\<lambda>b. Inr (a @ b))) = Inr [''7'', ''9'', ''13'', ''7'', ''16'']"
  by code_simp+

section \<open>Allocation\<close>

text \<open>
  \<open>new_test.cpp\<close>: the calls in their order, and which blocks are allocated and hold an object. \<open>m i\<close> is the \<open>i\<close>-th result of
  \<open>malloc\<close>; the overloads may not return NULL, as they are not \<open>noexcept\<close>.
\<close>

datatype alloc_line = OpNew string nat | Replace | Constructor | Destructor | OpDelete | OpDeleteAt string nat

record blocks =
  mallocs :: nat
  allocated :: "int list"
  objects :: "(int \<times> int) list"
  said :: "alloc_line list"

definition op_new :: "(nat \<Rightarrow> int) \<Rightarrow> string \<Rightarrow> nat \<Rightarrow> blocks \<Rightarrow> (int \<times> blocks) res" where
  "op_new m file line s = (let p = m (mallocs s); s' = s\<lparr>mallocs := mallocs s + 1, said := said s @ [OpNew file line]\<rparr> in
     Inr (p, if p = 0 then s' else s'\<lparr>allocated := p # allocated s\<rparr>))"

definition op_replace :: "int \<Rightarrow> blocks \<Rightarrow> (int \<times> blocks) res" where
  "op_replace p s = Inr (p, s\<lparr>said := said s @ [Replace]\<rparr>)"

definition A_new :: "int \<Rightarrow> int \<Rightarrow> blocks \<Rightarrow> blocks res" where
  "A_new p n s = (if p = 0 then Inl NullDeref else if p \<notin> set (allocated s) then Inl Dangling
     else Inr (s\<lparr>objects := (p, n) # objects s, said := said s @ [Constructor]\<rparr>))"

definition A_delete :: "int \<Rightarrow> blocks \<Rightarrow> blocks res" where
  "A_delete p s = (if p \<notin> fst ` set (objects s) then Inl Dangling
     else Inr (s\<lparr>objects := filter (\<lambda>(q, _). q \<noteq> p) (objects s), said := said s @ [Destructor]\<rparr>))"

definition op_delete :: "alloc_line \<Rightarrow> int \<Rightarrow> blocks \<Rightarrow> blocks res" where
  "op_delete l p s = (if p \<noteq> 0 \<and> p \<notin> set (allocated s) then Inl Dangling
     else Inr (s\<lparr>allocated := remove1 p (allocated s), said := said s @ [l]\<rparr>))"

definition new_test1 :: "(nat \<Rightarrow> int) \<Rightarrow> string \<Rightarrow> blocks \<Rightarrow> blocks res" where
  "new_test1 m file s =
     bindE (op_new m file 55 s) (\<lambda>(a, s1).
     bindE (A_new a 1 s1) (\<lambda>s2.
     bindE (A_delete a s2) (\<lambda>s3.
       op_delete OpDelete a s3)))"

definition new_test2 :: "(nat \<Rightarrow> int) \<Rightarrow> string \<Rightarrow> blocks \<Rightarrow> blocks res" where
  "new_test2 m file s =
     bindE (op_new m file 63 s) (\<lambda>(p, s1).
     bindE (op_replace p s1) (\<lambda>(q, s2).
     bindE (A_new q 2 s2) (\<lambda>s3.
     bindE (A_delete p s3) (\<lambda>s4.
       op_delete (OpDeleteAt file 67) p s4))))"

definition new_main :: "(nat \<Rightarrow> int) \<Rightarrow> string \<Rightarrow> blocks res" where
  "new_main m file = bindE (new_test1 m file \<lparr>mallocs = 0, allocated = [], objects = [], said = []\<rparr>) (new_test2 m file)"

text \<open>
  Allocation and construction. If \<open>malloc\<close> never fails, the two tests leave no block and no object, and each block is
  allocated, constructed, destroyed and released in this order; otherwise the constructor writes through NULL.
\<close>

theorem new_main_releases:
  "new_main m file =
     (if m 0 \<noteq> 0 \<and> m 1 \<noteq> 0
      then Inr \<lparr>mallocs = 2, allocated = [], objects = [],
        said = [OpNew file 55, Constructor, Destructor, OpDelete,
          OpNew file 63, Replace, Constructor, Destructor, OpDeleteAt file 67]\<rparr>
      else Inl NullDeref)"
  by (simp add: new_main_def new_test1_def new_test2_def op_new_def op_replace_def A_new_def A_delete_def op_delete_def Let_def)

text \<open>\<open>test.cpp\<close> and \<open>hello.c\<close>.\<close>

definition temp_main :: "string list" where "temp_main = [''abc'', ''~abc'']"

definition hello_main :: "string list" where "hello_main = [''hello  git'']"

section \<open>The copies of the helpers\<close>

definition study_GetCurTime :: "tm \<Rightarrow> string res" where "study_GetCurTime = GetCurTime"

definition study_Trim :: "string option \<Rightarrow> string option" where "study_Trim = Trim"

lemma dropWhile_done: "xs = [] \<or> \<not> P (hd xs) \<Longrightarrow> dropWhile P xs = xs"
  by (cases xs) auto

lemma last_not_blank: "xs = [] \<or> \<not> blank (hd xs) \<Longrightarrow> dropWhile blank (rev xs) = [] \<or> \<not> blank (last (dropWhile blank (rev xs)))"
proof (cases "dropWhile blank (rev xs) = []")
  case False
  assume "xs = [] \<or> \<not> blank (hd xs)"
  moreover have "xs \<noteq> []" using False by auto
  moreover have "last (dropWhile blank (rev xs)) = last (rev xs)"
    using False by (metis last_appendR takeWhile_dropWhile_id)
  ultimately show ?thesis by (simp add: last_rev)
qed simp

text \<open>Trimming twice is trimming once.\<close>

lemma study_Trim_idem: "study_Trim (study_Trim s) = study_Trim s"
proof (cases s)
  case (Some t)
  obtain b where b: "dropWhile blank t = b" by blast
  obtain r where r: "rev (dropWhile blank (rev b)) = r" by blast
  have "b = [] \<or> \<not> blank (hd b)" using hd_dropWhile [of blank t] b by blast
  from last_not_blank [OF this] have "r = [] \<or> \<not> blank (hd r)" unfolding r [symmetric] by (simp add: hd_rev)
  then have 1: "dropWhile blank r = r" by (rule dropWhile_done)
  have 2: "dropWhile blank (rev r) = rev r" unfolding r [symmetric] by simp
  show ?thesis by (simp add: study_Trim_def Trim_eq Some b r 1 2)
qed (simp add: study_Trim_def Trim_def)

end
